(* ===== verification/Sched_Prelude.thy ===== *)
theory Sched_Prelude
  imports Main "HOL-Library.Signed_Division" "HOL-Library.Multiset"
begin

text \<open>
  The part of C that the scheduler uses, shared by every other theory: a result type in which each
  undefined behaviour, failed assertion and exit of the source is a value, arithmetic on
  \<^verbatim>\<open>int\<close> and \<^verbatim>\<open>long\<close> (32 and 64 bits, LP64) that fails instead of overflowing, and arrays
  obtained from \<^verbatim>\<open>malloc\<close>, whose cells are indeterminate until they are written.
\<close>

section \<open>Results\<close>

text \<open>
  \<open>Exit n\<close> is a call of \<^verbatim>\<open>scheduler_exit(n)\<close>, from which no control returns, \<open>AssertFail\<close> a failed
  \<^verbatim>\<open>assert\<close>, \<open>Blocks\<close> a call that does not return in the state at hand; the others are undefined behaviours
  of the C program.
\<close>

datatype c_error =
    NullDeref
  | OutOfBounds
  | Uninitialised
  | SignedOverflow
  | DivByZero
  | BufferOverflow
  | AssertFail
  | Blocks
  | Exit int

type_synonym 'a res = "c_error + 'a"

definition bindR :: "'a res \<Rightarrow> ('a \<Rightarrow> 'b res) \<Rightarrow> 'b res" where
  "bindR m f = (case m of Inl e \<Rightarrow> Inl e | Inr x \<Rightarrow> f x)"

definition assertR :: "bool \<Rightarrow> unit res" where
  "assertR b = (if b then Inr () else Inl AssertFail)"

lemma bindR_simps [simp]:
  "bindR (Inl e) f = Inl e"
  "bindR (Inr x) f = f x"
  by (simp_all add: bindR_def)

lemma bindR_cong [fundef_cong]:
  "m = m' \<Longrightarrow> (\<And>x. m' = Inr x \<Longrightarrow> f x = g x) \<Longrightarrow> bindR m f = bindR m' g"
  by (cases m') (simp_all add: bindR_def)

lemma bindR_Inr_iff: "bindR m f = Inr y \<longleftrightarrow> (\<exists>x. m = Inr x \<and> f x = Inr y)"
  by (cases m) simp_all

lemma bindR_InrE [elim!]:
  assumes "bindR m f = Inr y"
  obtains x where "m = Inr x" "f x = Inr y"
  using assms by (auto simp: bindR_Inr_iff)

lemma bindR_assoc: "bindR (bindR m f) g = bindR m (\<lambda>x. bindR (f x) g)"
  by (cases m) simp_all

lemma assertR_simps [simp]:
  "assertR b = Inr u \<longleftrightarrow> b"
  "b \<Longrightarrow> assertR b = Inr ()"
  "\<not> b \<Longrightarrow> assertR b = Inl AssertFail"
  by (simp_all add: assertR_def)

section \<open>Machine integers\<close>

text \<open>
  A signed overflow is undefined in C. Every result of an \<^verbatim>\<open>int\<close> operation of the source passes
  through \<open>cint\<close> and every result of a \<^verbatim>\<open>long\<close> operation through \<open>clong\<close>.
\<close>

definition in_int :: "int \<Rightarrow> bool" where
  "in_int x \<longleftrightarrow> - 2147483648 \<le> x \<and> x \<le> 2147483647"

definition cint :: "int \<Rightarrow> int res" where
  "cint x = (if in_int x then Inr x else Inl SignedOverflow)"

definition in_long :: "int \<Rightarrow> bool" where
  "in_long x \<longleftrightarrow> - 9223372036854775808 \<le> x \<and> x \<le> 9223372036854775807"

definition clong :: "int \<Rightarrow> int res" where
  "clong x = (if in_long x then Inr x else Inl SignedOverflow)"

lemma cint_ok [simp]: "in_int x \<Longrightarrow> cint x = Inr x"
  by (simp add: cint_def)

lemma cint_Inr_iff: "cint x = Inr y \<longleftrightarrow> in_int x \<and> y = x"
  by (auto simp: cint_def)

lemma clong_ok [simp]: "in_long x \<Longrightarrow> clong x = Inr x"
  by (simp add: clong_def)

lemma clong_Inr_iff: "clong x = Inr y \<longleftrightarrow> in_long x \<and> y = x"
  by (auto simp: clong_def)

lemma sdiv_nonneg: "0 \<le> a \<Longrightarrow> 0 < b \<Longrightarrow> (a::int) sdiv b = a div b"
  by (auto simp: signed_divide_int_def sgn_if)

lemma smod_nonneg: "0 \<le> a \<Longrightarrow> 0 < b \<Longrightarrow> (a::int) smod b = a mod b"
  by (auto simp: signed_modulo_int_def sgn_if)

text \<open>The division of C rounds towards zero, so that it works on the parts of a sum with a common sign.\<close>

lemma sdiv_minus: "(- a) sdiv b = - (a sdiv b)" for a b :: int
  by (simp add: signed_divide_int_def sgn_if)

lemma sdiv_parts:
  fixes s k b n :: int
  assumes "0 \<le> s" "0 \<le> k" "0 < b"
  shows "((s * b + k) * n) sdiv b = s * n + (k * n) sdiv b"
proof -
  have pos: "((s * b + k) * m) sdiv b = s * m + (k * m) sdiv b" if "0 \<le> m" for m
  proof -
    have "(s * b + k) * m = k * m + s * m * b" by (simp add: algebra_simps)
    then show ?thesis using assms that by (simp add: sdiv_nonneg)
  qed
  show ?thesis
  proof (cases "0 \<le> n")
    case False
    then show ?thesis using pos [of "- n"] by (simp add: sdiv_minus)
  qed (rule pos)
qed

lemma smod_parts:
  fixes s k b n :: int
  assumes "0 \<le> s" "0 \<le> k" "0 < b"
  shows "((s * b + k) * n) smod b = (k * n) smod b"
  using sdiv_parts [OF assms, of n] smod_mult_sdiv_eq [of "(s * b + k) * n" b] smod_mult_sdiv_eq [of "k * n" b]
  by (simp add: algebra_simps)

lemma sdiv_sign:
  fixes k b n :: int
  assumes "0 \<le> k" "0 < b"
  shows "0 \<le> n \<Longrightarrow> 0 \<le> (k * n) sdiv b" "n \<le> 0 \<Longrightarrow> (k * n) sdiv b \<le> 0"
proof -
  have pos: "0 \<le> (k * m) sdiv b" if "0 \<le> m" for m
    using that assms by (simp add: sdiv_nonneg pos_imp_zdiv_nonneg_iff)
  show "0 \<le> n \<Longrightarrow> 0 \<le> (k * n) sdiv b" using pos .
  show "n \<le> 0 \<Longrightarrow> (k * n) sdiv b \<le> 0" using pos [of "- n"] by (simp add: sdiv_minus)
qed

lemma smod_minus: "(- a) smod b = - (a smod b)" for a b :: int
  by (simp add: signed_modulo_int_def)

lemma smod_sign:
  fixes k b n :: int
  assumes "0 \<le> k" "0 < b"
  shows "0 \<le> n \<Longrightarrow> 0 \<le> (k * n) smod b" "n \<le> 0 \<Longrightarrow> (k * n) smod b \<le> 0" "\<bar>(k * n) smod b\<bar> < b"
proof -
  have pos: "0 \<le> (k * m) smod b \<and> (k * m) smod b < b" if "0 \<le> m" for m
    using that assms by (simp add: smod_nonneg)
  show "0 \<le> n \<Longrightarrow> 0 \<le> (k * n) smod b" using pos by blast
  show "n \<le> 0 \<Longrightarrow> (k * n) smod b \<le> 0" using pos [of "- n"] by (simp add: smod_minus)
  show "\<bar>(k * n) smod b\<bar> < b"
    using pos [of n] pos [of "- n"] by (cases "0 \<le> n") (simp_all add: smod_minus)
qed

section \<open>Arrays\<close>

text \<open>
  A block of \<open>n\<close> cells from \<^verbatim>\<open>malloc\<close> is a list of length \<open>n\<close>; \<open>None\<close> is a cell with an
  indeterminate value. The size passed to \<^verbatim>\<open>malloc\<close> is an \<^verbatim>\<open>int\<close> of the source: a negative one
  becomes a huge \<^verbatim>\<open>size_t\<close>, which \<^verbatim>\<open>malloc\<close> cannot serve, so no cell is usable.
\<close>

type_synonym 'a array = "'a option list"

definition malloc_array :: "int \<Rightarrow> 'a array" where
  "malloc_array n = replicate (nat n) None"

definition aread :: "'a array \<Rightarrow> int \<Rightarrow> 'a res" where
  "aread xs i =
     (if 0 \<le> i \<and> i < int (length xs)
      then (case xs ! nat i of None \<Rightarrow> Inl Uninitialised | Some v \<Rightarrow> Inr v)
      else Inl OutOfBounds)"

definition awrite :: "'a array \<Rightarrow> int \<Rightarrow> 'a \<Rightarrow> 'a array res" where
  "awrite xs i v =
     (if 0 \<le> i \<and> i < int (length xs) then Inr (xs[nat i := Some v]) else Inl OutOfBounds)"

lemma length_malloc_array [simp]: "length (malloc_array n) = nat n"
  by (simp add: malloc_array_def)

lemma aread_Inr: "i < length xs \<Longrightarrow> xs ! i = Some v \<Longrightarrow> aread xs (int i) = Inr v"
  by (simp add: aread_def)

lemma aread_InrD:
  "aread xs i = Inr v \<Longrightarrow> 0 \<le> i \<and> nat i < length xs \<and> xs ! nat i = Some v"
  by (auto simp: aread_def split: if_splits option.splits)

lemma awrite_Inr: "i < length xs \<Longrightarrow> awrite xs (int i) v = Inr (xs[i := Some v])"
  by (simp add: awrite_def)

text \<open>
  An array whose first cells hold the elements of a list, the rest being arbitrary. This is how
  every data structure of the program is read back as a list.
\<close>

definition holds :: "'a array \<Rightarrow> 'a list \<Rightarrow> bool" where
  "holds a xs \<longleftrightarrow> length xs \<le> length a \<and> take (length xs) a = map Some xs"

lemma holds_nth: "holds a xs \<Longrightarrow> i < length xs \<Longrightarrow> a ! i = Some (xs ! i)"
  unfolding holds_def by (metis nth_map nth_take)

lemma holds_length: "holds a xs \<Longrightarrow> length xs \<le> length a"
  by (simp add: holds_def)

lemma holdsI:
  "length xs \<le> length a \<Longrightarrow> (\<And>i. i < length xs \<Longrightarrow> a ! i = Some (xs ! i)) \<Longrightarrow> holds a xs"
  unfolding holds_def by (auto intro: nth_equalityI)

lemma holds_Nil [simp]: "holds a []"
  by (simp add: holds_def)

lemma holds_aread: "holds a xs \<Longrightarrow> i < length xs \<Longrightarrow> aread a (int i) = Inr (xs ! i)"
  by (meson aread_Inr dual_order.strict_trans1 holds_length holds_nth)

lemma holds_update:
  assumes "holds a xs"
  shows "holds (a[i := Some v]) (xs[i := v])"
proof (rule holdsI)
  show "length (xs[i := v]) \<le> length (a[i := Some v])"
    using holds_length [OF assms] by simp
  fix j assume "j < length (xs[i := v])"
  with holds_length [OF assms] holds_nth [OF assms, of j]
  show "a[i := Some v] ! j = Some (xs[i := v] ! j)"
    by (cases "i = j") auto
qed

lemma holds_append_one:
  "holds a xs \<Longrightarrow> length xs < length a \<Longrightarrow> holds (a[length xs := Some v]) (xs @ [v])"
  by (rule holdsI) (auto simp: nth_append holds_nth less_Suc_eq)

lemma holds_butlast: "holds a xs \<Longrightarrow> holds a (butlast xs)"
  by (rule holdsI) (auto simp: holds_nth nth_butlast dest: holds_length)

section \<open>Swapping two elements of a list\<close>

definition lswap :: "'a list \<Rightarrow> nat \<Rightarrow> nat \<Rightarrow> 'a list" where
  "lswap xs i j = xs[i := xs ! j, j := xs ! i]"

lemma length_lswap [simp]: "length (lswap xs i j) = length xs"
  by (simp add: lswap_def)

lemma mset_lswap [simp]: "i < length xs \<Longrightarrow> j < length xs \<Longrightarrow> mset (lswap xs i j) = mset xs"
  by (simp add: lswap_def mset_swap)

lemma set_lswap [simp]: "i < length xs \<Longrightarrow> j < length xs \<Longrightarrow> set (lswap xs i j) = set xs"
  by (metis mset_lswap set_mset_mset)

lemma nth_lswap:
  "i < length xs \<Longrightarrow> j < length xs \<Longrightarrow> n < length xs \<Longrightarrow>
   lswap xs i j ! n = (if n = j then xs ! i else if n = i then xs ! j else xs ! n)"
  by (simp add: lswap_def nth_list_update)

end
