(* ===== verification/Timespec.thy ===== *)
theory Timespec
  imports Sched_Prelude
begin

text \<open>
  \<^verbatim>\<open>struct timespec\<close> and the functions of \<^verbatim>\<open>main.c\<close> that compute with it
  (\<^verbatim>\<open>timespec_multiply\<close>, \<^verbatim>\<open>timespec_divide\<close>, \<^verbatim>\<open>timespec_subtract\<close>, \<^verbatim>\<open>min_timespecp\<close> and the two
  tests on a remaining time). Both fields are 64-bit, division truncates towards zero, and an
  overflow is an error. The lemmas read a timespec as one number of nanoseconds.
\<close>

section \<open>The operations\<close>

record timespec =
  tv_sec :: int
  tv_nsec :: int

definition BILLION :: int where
  "BILLION = 1000000000"

definition timespec_multiply :: "timespec \<Rightarrow> int \<Rightarrow> timespec res" where
  "timespec_multiply ts n =
     bindR (clong (tv_sec ts * n)) (\<lambda>sec.
     bindR (clong (tv_nsec ts * n)) (\<lambda>temp.
     bindR (clong (sec + temp sdiv BILLION)) (\<lambda>sec'.
     Inr \<lparr>tv_sec = sec', tv_nsec = temp smod BILLION\<rparr>)))"

definition timespec_divide :: "timespec \<Rightarrow> int \<Rightarrow> timespec res" where
  "timespec_divide ts n =
     bindR (clong (tv_sec ts * BILLION)) (\<lambda>m.
     bindR (clong (m + tv_nsec ts)) (\<lambda>total_nsec.
     if n = 0 then Inl DivByZero
     else bindR (clong (total_nsec sdiv n)) (\<lambda>total_nsec'.
       Inr \<lparr>tv_sec = total_nsec' sdiv BILLION, tv_nsec = total_nsec' smod BILLION\<rparr>)))"

definition timespec_subtract :: "timespec \<Rightarrow> timespec \<Rightarrow> timespec res" where
  "timespec_subtract lhs rhs =
     bindR (clong (tv_sec lhs - tv_sec rhs)) (\<lambda>sec.
     bindR (clong (tv_nsec lhs - tv_nsec rhs)) (\<lambda>nsec.
     if nsec < 0
     then bindR (clong (sec - 1)) (\<lambda>sec'.
          bindR (clong (nsec + BILLION)) (\<lambda>nsec'.
          Inr \<lparr>tv_sec = sec', tv_nsec = nsec'\<rparr>))
     else Inr \<lparr>tv_sec = sec, tv_nsec = nsec\<rparr>))"

text \<open>\<^verbatim>\<open>min_timespecp\<close> returns one of its two pointer arguments: which of them is the result.\<close>

datatype arg_ptr = Lhs | Rhs

definition min_timespecp :: "timespec \<Rightarrow> timespec \<Rightarrow> arg_ptr res" where
  "min_timespecp lhs rhs =
     bindR (timespec_subtract lhs rhs) (\<lambda>diff.
     Inr (if tv_sec diff < 0 \<or> tv_nsec diff < 0 then Lhs else Rhs))"

definition assert_nonnegetive_remaining :: "timespec \<Rightarrow> unit res" where
  "assert_nonnegetive_remaining remaining =
     assertR (tv_sec remaining \<ge> 0 \<and> tv_nsec remaining \<ge> 0)"

definition timspec_is_zero :: "timespec \<Rightarrow> bool" where
  "timspec_is_zero remaining =
     (if tv_sec remaining = 0 \<and> tv_nsec remaining = 0 then True else False)"

section \<open>A timespec as a number of nanoseconds\<close>

definition nanos :: "timespec \<Rightarrow> int" where
  "nanos ts = tv_sec ts * BILLION + tv_nsec ts"

definition normal :: "timespec \<Rightarrow> bool" where
  "normal ts \<longleftrightarrow> 0 \<le> tv_nsec ts \<and> tv_nsec ts < BILLION"

text \<open>A duration: normalised, not negative, and its seconds fit in their field.\<close>

definition duration :: "timespec \<Rightarrow> bool" where
  "duration ts \<longleftrightarrow> normal ts \<and> 0 \<le> tv_sec ts \<and> in_long (tv_sec ts)"

lemma timespec_eqI: "tv_sec a = tv_sec b \<Longrightarrow> tv_nsec a = tv_nsec b \<Longrightarrow> a = (b::timespec)"
  by simp

lemma nanos_divmod:
  assumes "normal ts"
  shows "nanos ts div BILLION = tv_sec ts" "nanos ts mod BILLION = tv_nsec ts"
  using assms by (simp_all add: nanos_def normal_def)

lemma nanos_eq_0_iff: "normal ts \<Longrightarrow> nanos ts = 0 \<longleftrightarrow> tv_sec ts = 0 \<and> tv_nsec ts = 0"
  by (metis nanos_divmod div_0 mod_0 nanos_def add_0 mult_zero_left)

lemma nanos_less_iff:
  "normal a \<Longrightarrow> normal b \<Longrightarrow>
   nanos a < nanos b \<longleftrightarrow> tv_sec a < tv_sec b \<or> tv_sec a = tv_sec b \<and> tv_nsec a < tv_nsec b"
  by (auto simp: nanos_def normal_def BILLION_def)

lemma nanos_nonneg_iff: "normal ts \<Longrightarrow> 0 \<le> nanos ts \<longleftrightarrow> 0 \<le> tv_sec ts"
  by (auto simp: nanos_def normal_def BILLION_def)

lemma sdiv_smod_BILLION: "(x sdiv BILLION) * BILLION + x smod BILLION = x"
  by (metis add.commute mult.commute smod_mult_sdiv_eq add.commute)

lemma timespec_multiply_nanos:
  assumes "timespec_multiply ts n = Inr r"
  shows "nanos r = nanos ts * n"
proof -
  from assms have "tv_sec r = tv_sec ts * n + (tv_nsec ts * n) sdiv BILLION"
    "tv_nsec r = (tv_nsec ts * n) smod BILLION"
    by (auto simp: timespec_multiply_def clong_Inr_iff)
  then show ?thesis
    using sdiv_smod_BILLION [of "tv_nsec ts * n"] by (simp add: nanos_def algebra_simps)
qed

lemma timespec_multiply_nsec_bound:
  assumes "normal ts" "0 \<le> n" "in_int n"
  shows "0 \<le> tv_nsec ts * n" "in_long (tv_nsec ts * n)" "tv_nsec ts * n div BILLION \<le> n"
proof -
  from assms show *: "0 \<le> tv_nsec ts * n" by (simp add: normal_def)
  from assms have "tv_nsec ts * n \<le> 999999999 * 2147483647"
    by (intro mult_mono) (auto simp: normal_def in_int_def BILLION_def)
  with * show "in_long (tv_nsec ts * n)" by (simp add: in_long_def)
  from assms have "tv_nsec ts * n \<le> BILLION * n"
    by (intro mult_right_mono) (auto simp: normal_def)
  then have "tv_nsec ts * n div BILLION \<le> BILLION * n div BILLION"
    by (intro zdiv_mono1) (auto simp: BILLION_def)
  then show "tv_nsec ts * n div BILLION \<le> n" by (simp add: BILLION_def)
qed

text \<open>
  The product of a duration and a non-negative \<^verbatim>\<open>int\<close> is the exact duration: the nanoseconds never
  overflow their 64 bits, and the seconds do not if the whole product is representable.
\<close>

lemma timespec_multiply_ok:
  assumes "duration ts" "0 \<le> n" "in_int n" "in_long ((tv_sec ts + 1) * n)"
  obtains r where "timespec_multiply ts n = Inr r" "duration r" "nanos r = nanos ts * n"
proof -
  have norm: "normal ts" "0 \<le> tv_sec ts" using assms(1) by (auto simp: duration_def)
  note b = timespec_multiply_nsec_bound [OF norm(1) assms(2,3)]
  have q: "0 \<le> tv_nsec ts * n div BILLION"
    using b by (auto simp: BILLION_def intro: pos_imp_zdiv_nonneg_iff [THEN iffD2])
  have s: "0 \<le> tv_sec ts * n" using norm(2) assms(2) by simp
  then have l: "in_long (tv_sec ts * n)" "in_long (tv_sec ts * n + tv_nsec ts * n div BILLION)"
    using assms(2,4) b(3) q by (auto simp: in_long_def distrib_right)
  let ?r = "\<lparr>tv_sec = tv_sec ts * n + tv_nsec ts * n div BILLION,
             tv_nsec = tv_nsec ts * n mod BILLION\<rparr>"
  have B: "0 < BILLION" by (simp add: BILLION_def)
  have "timespec_multiply ts n = Inr ?r"
    using s l b B by (simp add: timespec_multiply_def sdiv_nonneg smod_nonneg)
  moreover have "duration ?r"
    using q s l B by (simp add: duration_def normal_def)
  ultimately show ?thesis using that timespec_multiply_nanos by blast
qed

text \<open>The product by any \<^verbatim>\<open>int\<close>: exact if its seconds fit in their field, an overflow otherwise.\<close>

lemma timespec_multiply_eq:
  assumes d: "duration ts" and n: "in_int n"
  shows "timespec_multiply ts n =
    (if in_long (nanos ts * n sdiv BILLION)
     then Inr \<lparr>tv_sec = nanos ts * n sdiv BILLION, tv_nsec = nanos ts * n smod BILLION\<rparr> else Inl SignedOverflow)"
proof -
  have B: "0 < BILLION" by (simp add: BILLION_def)
  have ts: "0 \<le> tv_sec ts" "0 \<le> tv_nsec ts" "tv_nsec ts \<le> 1000000000"
    using d by (auto simp: duration_def normal_def BILLION_def)
  have k: "in_long (tv_nsec ts * n)"
  proof -
    have "\<bar>tv_nsec ts * n\<bar> \<le> 1000000000 * 2147483648"
      unfolding abs_mult using ts n by (intro mult_mono) (auto simp: in_int_def)
    then show ?thesis by (auto simp: in_long_def)
  qed
  have sec: "nanos ts * n sdiv BILLION = tv_sec ts * n + tv_nsec ts * n sdiv BILLION"
    "nanos ts * n smod BILLION = tv_nsec ts * n smod BILLION"
    unfolding nanos_def using sdiv_parts [OF ts(1,2) B] smod_parts [OF ts(1,2) B] by simp_all
  have "in_long (tv_sec ts * n)" if l: "in_long (tv_sec ts * n + tv_nsec ts * n sdiv BILLION)"
  proof (cases "0 \<le> n")
    case True
    have "0 \<le> tv_sec ts * n" "0 \<le> tv_nsec ts * n sdiv BILLION"
      using True ts sdiv_sign(1) [OF ts(2) B] by (simp_all add: mult_nonneg_nonneg)
    then show ?thesis using l unfolding in_long_def by linarith
  next
    case False
    then have "tv_sec ts * n \<le> 0" "tv_nsec ts * n sdiv BILLION \<le> 0"
      using ts sdiv_sign(2) [OF ts(2) B] by (simp_all add: mult_nonneg_nonpos)
    then show ?thesis using l unfolding in_long_def by linarith
  qed
  then show ?thesis unfolding sec by (auto simp: timespec_multiply_def clong_def k)
qed
lemma timespec_multiply_any:
  assumes "duration ts" "in_int n"
  shows "if in_long (nanos ts * n sdiv BILLION)
     then \<exists>r. timespec_multiply ts n = Inr r \<and> nanos r = nanos ts * n \<and> \<bar>tv_nsec r\<bar> < BILLION \<and>
       (if 0 \<le> n then 0 \<le> tv_sec r \<and> 0 \<le> tv_nsec r else tv_sec r \<le> 0 \<and> tv_nsec r \<le> 0)
     else timespec_multiply ts n = Inl SignedOverflow"
proof -
  have B: "0 < BILLION" by (simp add: BILLION_def)
  have t: "0 \<le> nanos ts" using assms(1) nanos_nonneg_iff by (simp add: duration_def)
  have "nanos \<lparr>tv_sec = nanos ts * n sdiv BILLION, tv_nsec = nanos ts * n smod BILLION\<rparr> = nanos ts * n"
    using sdiv_smod_BILLION [of "nanos ts * n"] by (simp add: nanos_def)
  then show ?thesis
    using sdiv_sign [OF t B, of n] smod_sign [OF t B, of n] by (simp add: timespec_multiply_eq [OF assms])
qed

lemma timespec_subtract_ok:
  assumes "normal a" "normal b" "in_long (tv_sec a - tv_sec b)" "in_long (tv_sec a - tv_sec b - 1)"
  obtains r where "timespec_subtract a b = Inr r" "normal r" "nanos r = nanos a - nanos b"
proof -
  let ?d = "tv_nsec a - tv_nsec b"
  let ?r = "if ?d < 0 then \<lparr>tv_sec = tv_sec a - tv_sec b - 1, tv_nsec = ?d + BILLION\<rparr>
            else \<lparr>tv_sec = tv_sec a - tv_sec b, tv_nsec = ?d\<rparr>"
  have "in_long ?d" "in_long (?d + BILLION)"
    using assms(1,2) by (auto simp: normal_def in_long_def BILLION_def)
  with assms(3,4) have "timespec_subtract a b = Inr ?r"
    by (simp add: timespec_subtract_def)
  moreover have "normal ?r" "nanos ?r = nanos a - nanos b"
    using assms(1,2) by (auto simp: normal_def nanos_def BILLION_def)
  ultimately show ?thesis using that by blast
qed

text \<open>Durations never overflow a subtraction.\<close>

lemma timespec_subtract_duration:
  assumes "duration a" "duration b"
  obtains r where "timespec_subtract a b = Inr r" "normal r" "nanos r = nanos a - nanos b"
proof (rule timespec_subtract_ok)
  show "normal a" "normal b" "in_long (tv_sec a - tv_sec b)" "in_long (tv_sec a - tv_sec b - 1)"
    using assms by (auto simp: duration_def in_long_def)
qed

lemma timespec_subtract_le_duration:
  assumes "duration a" "duration b" "nanos b \<le> nanos a"
  obtains r where "timespec_subtract a b = Inr r" "duration r" "nanos r = nanos a - nanos b"
proof -
  obtain r where r: "timespec_subtract a b = Inr r" "normal r" "nanos r = nanos a - nanos b"
    using timespec_subtract_duration [OF assms(1,2)] .
  have "nanos r \<le> nanos a"
    using r(3) assms(2) nanos_nonneg_iff [of b] by (auto simp: duration_def)
  then have "tv_sec r \<le> tv_sec a"
    using nanos_less_iff [of a r] r(2) assms(1) by (fastforce simp: duration_def)
  moreover have "0 \<le> tv_sec r" using r assms(3) nanos_nonneg_iff [of r] by simp
  ultimately have "duration r" using r(2) assms(1) by (auto simp: duration_def in_long_def)
  with r show ?thesis using that by blast
qed

lemma min_timespecp_duration:
  assumes "duration a" "duration b"
  shows "min_timespecp a b = Inr (if nanos a < nanos b then Lhs else Rhs)"
proof -
  obtain r where r: "timespec_subtract a b = Inr r" "normal r" "nanos r = nanos a - nanos b"
    using timespec_subtract_duration [OF assms] .
  have "tv_sec r < 0 \<or> tv_nsec r < 0 \<longleftrightarrow> nanos a < nanos b"
    using r nanos_nonneg_iff [OF r(2)] by (auto simp: normal_def)
  then show ?thesis by (simp add: min_timespecp_def r(1))
qed


lemma int_div_le: "0 \<le> a \<Longrightarrow> 0 < b \<Longrightarrow> a div b \<le> a" for a b :: int
  using zdiv_mono2 [of a 1 b] by simp

text \<open>Dividing a duration by a positive \<^verbatim>\<open>int\<close> rounds the nanoseconds down.\<close>

lemma timespec_divide_ok:
  assumes "duration ts" "0 < n" "in_long (nanos ts)"
  obtains r where "timespec_divide ts n = Inr r" "duration r" "nanos r = nanos ts div n"
proof -
  let ?t = "nanos ts" and ?q = "nanos ts div n"
  have B: "0 < BILLION" by (simp add: BILLION_def)
  have t: "0 \<le> ?t" using assms(1) nanos_nonneg_iff [of ts] by (simp add: duration_def)
  have s: "0 \<le> tv_sec ts * BILLION" "tv_sec ts * BILLION \<le> ?t"
    using assms(1) B by (simp_all add: duration_def normal_def nanos_def)
  then have l: "in_long (tv_sec ts * BILLION)" using assms(3) by (simp add: in_long_def)
  have q: "0 \<le> ?q" "?q \<le> ?t" using t assms(2) by (simp_all add: pos_imp_zdiv_nonneg_iff int_div_le)
  have d: "0 \<le> ?q div BILLION" "?q div BILLION \<le> ?q"
    using q(1) B by (simp_all add: pos_imp_zdiv_nonneg_iff int_div_le)
  let ?r = "\<lparr>tv_sec = ?q div BILLION, tv_nsec = ?q mod BILLION\<rparr>"
  have "in_long ?q" using q assms(3) by (simp add: in_long_def)
  then have "timespec_divide ts n = Inr ?r"
    using l t q B assms(2,3)
    by (simp add: timespec_divide_def sdiv_nonneg smod_nonneg flip: nanos_def)
  moreover have "duration ?r" using q d B assms(3) by (simp add: duration_def normal_def in_long_def)
  moreover have "nanos ?r = ?q" by (simp add: nanos_def)
  ultimately show ?thesis using that by blast
qed

end
