(* ===== verification/Sched_Types.thy ===== *)
theory Sched_Types
  imports Timespec
begin

text \<open>
  The shared declarations of \<^verbatim>\<open>scheduler.h\<close>: the enumerations, \<^verbatim>\<open>ProcessInfo\<close>, pointers into the
  process table, and the functions through which the schedulers reach the kernel
  (\<^verbatim>\<open>set_priority\<close>, \<^verbatim>\<open>suspend_process\<close>, \<^verbatim>\<open>resume_process\<close>).

  The kernel itself is not part of the repository. What it answers is the argument \<open>os\<close> of the
  definitions; what the calls leave behind, the static priority of every child, is part of
  the state \<open>world\<close>.
\<close>

section \<open>Enumerations and records of the header\<close>

datatype ProcessStatus = NOT_STARTED | RUNNING | STOPPED

datatype EventType = TIMER_EXPIRED | CHILD_TERMINATED | TIMESLICE_OVER | PROCESS_ARRIVAL

datatype ScheduleStrategy = FIFO | RR | SJF | PSJF

record ProcessTimeRecord =
  tr_pid :: int
  start_time :: timespec

record ProcessInfo =
  arrival_time :: int
  time_needed :: int
  remaining_time :: int
  pid :: int
  status :: ProcessStatus
  name :: string

text \<open>
  A \<^verbatim>\<open>ProcessInfo *\<close> of the program is \<^verbatim>\<open>NULL\<close> or points to an element of
  \<^verbatim>\<open>all_process_info\<close>, named by its index.
\<close>

datatype ptr = Null | At nat

section \<open>The world outside the schedulers\<close>

text \<open>
  The answers of the kernel: the bounds of the \<^verbatim>\<open>SCHED_FIFO\<close> priorities, the result of
  \<^verbatim>\<open>sched_setscheduler\<close> on a pid and a priority, the pid that the \<open>k\<close>-th \<^verbatim>\<open>fork\<close> returns to
  the parent, the parent's own pid, and the results of the timer calls.
\<close>

record os =
  sched_get_priority_min :: int
  sched_get_priority_max :: int
  sched_setscheduler :: "int \<Rightarrow> int \<Rightarrow> int"
  fork :: "nat \<Rightarrow> int"
  getpid :: int
  timer_create :: int
  timer_settime :: "timespec \<Rightarrow> int"

text \<open>
  \<open>procs\<close> is the array \<^verbatim>\<open>all_process_info\<close>, \<open>prio\<close> the static priority of each process the
  kernel knows, \<open>forks\<close> the number of children forked so far, \<open>zombies\<close> the children that have
  terminated and have not been waited for.
\<close>

record world =
  procs :: "ProcessInfo list"
  prio :: "int \<Rightarrow> int option"
  forks :: nat
  zombies :: "int list"

definition deref :: "world \<Rightarrow> ptr \<Rightarrow> ProcessInfo res" where
  "deref w p = (case p of Null \<Rightarrow> Inl NullDeref
     | At i \<Rightarrow> if i < length (procs w) then Inr (procs w ! i) else Inl OutOfBounds)"

text \<open>\<open>p->field = v\<close> through a pointer.\<close>

definition assign :: "world \<Rightarrow> ptr \<Rightarrow> (ProcessInfo \<Rightarrow> ProcessInfo) \<Rightarrow> world res" where
  "assign w p upd = (case p of Null \<Rightarrow> Inl NullDeref
     | At i \<Rightarrow> if i < length (procs w)
              then Inr (w\<lparr>procs := (procs w)[i := upd (procs w ! i)]\<rparr>) else Inl OutOfBounds)"

text \<open>The processes that the first \<open>n\<close> cells of an array of pointers refer to.\<close>

definition ptr_indices :: "ptr array \<Rightarrow> int \<Rightarrow> nat list" where
  "ptr_indices a n = map (\<lambda>c. case c of Some (At i) \<Rightarrow> i | _ \<Rightarrow> 0) (take (nat n) a)"

lemma ptr_indices_holds: "holds a (map At xs) \<Longrightarrow> n = int (length xs) \<Longrightarrow> ptr_indices a n = xs"
  by (simp add: holds_def ptr_indices_def comp_def)

section \<open>Functions of the header\<close>

text \<open>
  \<^verbatim>\<open>scheduler_exit\<close> sends \<^verbatim>\<open>SIGINT\<close> to the process group, so that the children end too, and then calls
  \<^verbatim>\<open>exit\<close>. The program itself belongs to the group and leaves \<^verbatim>\<open>SIGINT\<close> at its default action, so it may
  end by the signal before it comes to the \<^verbatim>\<open>exit\<close>. Either way this is the end; the error records the status.
\<close>

definition scheduler_exit :: "int \<Rightarrow> 'a res" where
  "scheduler_exit status' = Inl (Exit status')"

definition set_priority :: "os \<Rightarrow> int \<Rightarrow> int \<Rightarrow> world \<Rightarrow> world res" where
  "set_priority os p priority w =
     (let res = sched_setscheduler os p priority in
      if res \<noteq> 0 then scheduler_exit res
      else Inr (w\<lparr>prio := (prio w)(p \<mapsto> priority)\<rparr>))"

definition suspend_process :: "os \<Rightarrow> int \<Rightarrow> world \<Rightarrow> world res" where
  "suspend_process os p w = set_priority os p (sched_get_priority_min os) w"

definition resume_process :: "os \<Rightarrow> int \<Rightarrow> world \<Rightarrow> world res" where
  "resume_process os p w = set_priority os p (sched_get_priority_max os - 1) w"

definition ITERATION_PER_TIMEUNIT :: nat where
  "ITERATION_PER_TIMEUNIT = 1000000"

function run_single_unit_from :: "nat \<Rightarrow> nat" where
  "run_single_unit_from i =
     (if i < ITERATION_PER_TIMEUNIT then run_single_unit_from (i + 1) else i)"
  by pat_completeness auto
termination
  by (relation "measure (\<lambda>i. ITERATION_PER_TIMEUNIT - i)") auto

declare run_single_unit_from.simps [simp del]

definition run_single_unit :: nat where
  "run_single_unit = run_single_unit_from 0"

section \<open>What the kernel is relied on for\<close>

text \<open>
  The documented behaviour of \<^verbatim>\<open>sched_setscheduler\<close> for a privileged caller: it succeeds on
  every process that exists and every priority between the bounds. Which pids exist is not part of \<open>os\<close>, so
  this is stated for all positive ones; the program passes its own pid and those of children
  that it has not yet waited for, which exist even if they have terminated. On a pid of nobody the call would fail with
  \<^verbatim>\<open>ESRCH\<close>. POSIX asks for at least 32 priorities, so the three the program uses are distinct.
\<close>

definition sched_ok :: "os \<Rightarrow> bool" where
  "sched_ok os \<longleftrightarrow>
     sched_get_priority_min os + 2 \<le> sched_get_priority_max os \<and>
     (\<forall>p pr. 0 < p \<longrightarrow> sched_get_priority_min os \<le> pr \<longrightarrow> pr \<le> sched_get_priority_max os \<longrightarrow>
        sched_setscheduler os p pr = 0)"

abbreviation low_prio :: "os \<Rightarrow> int" where
  "low_prio os \<equiv> sched_get_priority_min os"

abbreviation run_prio :: "os \<Rightarrow> int" where
  "run_prio os \<equiv> sched_get_priority_max os - 1"

lemma deref_simps [simp]:
  "deref w Null = Inl NullDeref"
  "i < length (procs w) \<Longrightarrow> deref w (At i) = Inr (procs w ! i)"
  "\<not> i < length (procs w) \<Longrightarrow> deref w (At i) = Inl OutOfBounds"
  by (simp_all add: deref_def)

lemma deref_InrD: "deref w p = Inr x \<Longrightarrow> \<exists>i. p = At i \<and> i < length (procs w) \<and> x = procs w ! i"
  by (auto simp: deref_def split: ptr.splits if_splits)

lemma assign_simps [simp]:
  "assign w Null f = Inl NullDeref"
  "i < length (procs w) \<Longrightarrow>
     assign w (At i) f = Inr (w\<lparr>procs := (procs w)[i := f (procs w ! i)]\<rparr>)"
  by (simp_all add: assign_def)

lemma run_single_unit_from_eq:
  "i \<le> ITERATION_PER_TIMEUNIT \<Longrightarrow> run_single_unit_from i = ITERATION_PER_TIMEUNIT"
  by (induction i rule: run_single_unit_from.induct) (subst run_single_unit_from.simps, auto)

lemma suspend_ok:
  "sched_ok os \<Longrightarrow> 0 < p \<Longrightarrow>
   suspend_process os p w = Inr (w\<lparr>prio := (prio w)(p \<mapsto> low_prio os)\<rparr>)"
  by (simp add: suspend_process_def set_priority_def sched_ok_def)

lemma resume_ok:
  "sched_ok os \<Longrightarrow> 0 < p \<Longrightarrow>
   resume_process os p w = Inr (w\<lparr>prio := (prio w)(p \<mapsto> run_prio os)\<rparr>)"
  by (simp add: resume_process_def set_priority_def sched_ok_def)

lemma run_low_neq: "sched_ok os \<Longrightarrow> run_prio os \<noteq> low_prio os"
  by (auto simp: sched_ok_def)

text \<open>
  The jobs of a scheduler are elements of the process table with positive pids, all different. The
  priority of a job is the one its process has in the kernel.
\<close>

definition pids_ok :: "world \<Rightarrow> nat list \<Rightarrow> bool" where
  "pids_ok w xs \<longleftrightarrow> distinct (map (\<lambda>i. pid (procs w ! i)) xs) \<and>
     (\<forall>i \<in> set xs. i < length (procs w) \<and> 0 < pid (procs w ! i))"

definition prio_of :: "world \<Rightarrow> nat \<Rightarrow> int option" where
  "prio_of w i = prio w (pid (procs w ! i))"

lemma pids_ok_distinct: "pids_ok w xs \<Longrightarrow> distinct xs"
  by (simp add: pids_ok_def distinct_map)

lemma pids_ok_neq:
  "pids_ok w xs \<Longrightarrow> i \<in> set xs \<Longrightarrow> j \<in> set xs \<Longrightarrow> i \<noteq> j \<Longrightarrow>
   pid (procs w ! i) \<noteq> pid (procs w ! j)"
  by (auto simp: pids_ok_def distinct_map inj_on_def)

lemma pids_ok_Cons_neq:
  assumes "pids_ok w (i # xs)" "j \<in> set xs"
  shows "pid (procs w ! j) \<noteq> pid (procs w ! i)"
proof
  assume "pid (procs w ! j) = pid (procs w ! i)"
  with assms(2) have "pid (procs w ! i) \<in> (\<lambda>i. pid (procs w ! i)) ` set xs"
    by (intro image_eqI [of _ _ j]) simp_all
  with assms(1) show False by (simp add: pids_ok_def)
qed

lemma pids_ok_perm: "pids_ok w xs \<Longrightarrow> mset ys = mset xs \<Longrightarrow> pids_ok w ys"
  unfolding pids_ok_def
  by (metis mset_eq_setD mset_eq_imp_distinct_iff mset_map)

lemma pids_ok_prio [simp]: "pids_ok (w\<lparr>prio := f\<rparr>) xs = pids_ok w xs"
  by (simp add: pids_ok_def)

lemma prio_of_upd [simp]:
  "prio_of (w\<lparr>prio := (prio w)(p \<mapsto> v)\<rparr>) i = (if pid (procs w ! i) = p then Some v else prio_of w i)"
  by (simp add: prio_of_def)

end
