(* ===== verification/Sched_Interface.thy ===== *)
theory Sched_Interface
  imports Sched_Types
begin

text \<open>
  The interface between the event loop and the schedulers, as the comments of \<^verbatim>\<open>scheduler.h\<close>
  describe it: an arrival adds a job, a termination removes the current one, a context switch
  changes who runs and nothing else, and the event loop can ask whether a job is left. Each of the
  four schedulers interprets \<open>job_scheduler\<close>; the three that choose who runs also interpret
  \<open>one_runner\<close>, the promise of the report that exactly one child has the second highest priority.
\<close>

section \<open>Calls of the event loop\<close>

datatype sched_call = AddJob nat | RemoveCurrent | ContextSwitch

fun run_calls :: "(ptr \<Rightarrow> 's \<Rightarrow> world \<Rightarrow> ('s \<times> world) res) \<Rightarrow> ('s \<Rightarrow> world \<Rightarrow> ('s \<times> world) res) \<Rightarrow>
    ('s \<Rightarrow> world \<Rightarrow> ('s \<times> world) res) \<Rightarrow> sched_call list \<Rightarrow> 's \<Rightarrow> world \<Rightarrow> ('s \<times> world) res" where
  "run_calls ad rm sw [] s w = Inr (s, w)"
| "run_calls ad rm sw (AddJob i # cs) s w =
     bindR (ad (At i) s w) (\<lambda>(s', w'). run_calls ad rm sw cs s' w')"
| "run_calls ad rm sw (RemoveCurrent # cs) s w =
     bindR (rm s w) (\<lambda>(s', w'). run_calls ad rm sw cs s' w')"
| "run_calls ad rm sw (ContextSwitch # cs) s w =
     bindR (sw s w) (\<lambda>(s', w'). run_calls ad rm sw cs s' w')"

text \<open>Each call is made in a state that meets its precondition.\<close>

fun calls_ok :: "(ptr \<Rightarrow> 's \<Rightarrow> world \<Rightarrow> ('s \<times> world) res) \<Rightarrow> ('s \<Rightarrow> world \<Rightarrow> ('s \<times> world) res) \<Rightarrow>
    ('s \<Rightarrow> world \<Rightarrow> ('s \<times> world) res) \<Rightarrow> (nat \<Rightarrow> 's \<Rightarrow> world \<Rightarrow> bool) \<Rightarrow> ('s \<Rightarrow> world \<Rightarrow> bool) \<Rightarrow>
    ('s \<Rightarrow> world \<Rightarrow> bool) \<Rightarrow> sched_call list \<Rightarrow> 's \<Rightarrow> world \<Rightarrow> bool" where
  "calls_ok ad rm sw ca cr cs [] s w = True"
| "calls_ok ad rm sw ca cr cs (AddJob i # xs) s w =
     (ca i s w \<and> (case ad (At i) s w of Inl e \<Rightarrow> True | Inr (s', w') \<Rightarrow> calls_ok ad rm sw ca cr cs xs s' w'))"
| "calls_ok ad rm sw ca cr cs (RemoveCurrent # xs) s w =
     (cr s w \<and> (case rm s w of Inl e \<Rightarrow> True | Inr (s', w') \<Rightarrow> calls_ok ad rm sw ca cr cs xs s' w'))"
| "calls_ok ad rm sw ca cr cs (ContextSwitch # xs) s w =
     (cs s w \<and> (case sw s w of Inl e \<Rightarrow> True | Inr (s', w') \<Rightarrow> calls_ok ad rm sw ca cr cs xs s' w'))"

definition adds :: "sched_call list \<Rightarrow> nat" where
  "adds cs = length (filter (\<lambda>c. \<exists>i. c = AddJob i) cs)"

definition removes :: "sched_call list \<Rightarrow> nat" where
  "removes cs = length (filter (\<lambda>c. c = RemoveCurrent) cs)"

lemma adds_simps [simp]:
  "adds [] = 0" "adds (AddJob i # cs) = Suc (adds cs)" "adds (RemoveCurrent # cs) = adds cs"
  "adds (ContextSwitch # cs) = adds cs"
  by (simp_all add: adds_def)

lemma removes_simps [simp]:
  "removes [] = 0" "removes (AddJob i # cs) = removes cs"
  "removes (RemoveCurrent # cs) = Suc (removes cs)" "removes (ContextSwitch # cs) = removes cs"
  by (simp_all add: removes_def)

text \<open>
  Some operations change only the scheduler's variables, some only the world; these bring both to
  the form of the interface.
\<close>

definition keep_world :: "'s res \<Rightarrow> world \<Rightarrow> ('s \<times> world) res" where
  "keep_world r w = bindR r (\<lambda>s. Inr (s, w))"

definition keep_state :: "'s \<Rightarrow> world res \<Rightarrow> ('s \<times> world) res" where
  "keep_state s r = bindR r (\<lambda>w. Inr (s, w))"

lemma keep_simps [simp]:
  "keep_world (Inr s) w = Inr (s, w)" "keep_world (Inl e) w = Inl e"
  "keep_state s (Inr w) = Inr (s, w)" "keep_state s (Inl e) = Inl e"
  by (simp_all add: keep_world_def keep_state_def)

lemma keep_Inr_iff:
  "keep_world r w = Inr (s', w') \<longleftrightarrow> r = Inr s' \<and> w' = w"
  "keep_state s r' = Inr (s', w') \<longleftrightarrow> r' = Inr w' \<and> s' = s"
  by (auto simp: keep_world_def keep_state_def bindR_Inr_iff)

section \<open>The contract of a scheduler\<close>

locale job_scheduler =
  fixes add :: "ptr \<Rightarrow> 's \<Rightarrow> world \<Rightarrow> ('s \<times> world) res"
    and remove_current :: "'s \<Rightarrow> world \<Rightarrow> ('s \<times> world) res"
    and context_switch :: "'s \<Rightarrow> world \<Rightarrow> ('s \<times> world) res"
    and empty :: "'s \<Rightarrow> bool"
    and inv :: "'s \<Rightarrow> world \<Rightarrow> bool"
    and njobs :: "'s \<Rightarrow> nat"
    and can_add :: "nat \<Rightarrow> 's \<Rightarrow> world \<Rightarrow> bool"
    and can_remove :: "'s \<Rightarrow> world \<Rightarrow> bool"
    and can_switch :: "'s \<Rightarrow> world \<Rightarrow> bool"
  assumes add_ok: "inv s w \<Longrightarrow> can_add i s w \<Longrightarrow>
      \<exists>s' w'. add (At i) s w = Inr (s', w') \<and> inv s' w' \<and> njobs s' = Suc (njobs s)"
    and remove_ok: "inv s w \<Longrightarrow> can_remove s w \<Longrightarrow>
      \<exists>s' w'. remove_current s w = Inr (s', w') \<and> inv s' w' \<and> Suc (njobs s') = njobs s"
    and switch_ok: "inv s w \<Longrightarrow> can_switch s w \<Longrightarrow>
      \<exists>s' w'. context_switch s w = Inr (s', w') \<and> inv s' w' \<and> njobs s' = njobs s"
    and empty_iff: "inv s w \<Longrightarrow> empty s \<longleftrightarrow> njobs s = 0"
begin

lemma run_calls_ok:
  "inv s w \<Longrightarrow> calls_ok add remove_current context_switch can_add can_remove can_switch cs s w \<Longrightarrow>
   \<exists>s' w'. run_calls add remove_current context_switch cs s w = Inr (s', w') \<and> inv s' w' \<and>
     njobs s' + removes cs = njobs s + adds cs"
proof (induction cs arbitrary: s w)
  case (Cons c cs)
  show ?case
  proof (cases c)
    case (AddJob i)
    with Cons.prems obtain s' w' where s': "add (At i) s w = Inr (s', w')" "inv s' w'"
      "njobs s' = Suc (njobs s)" using add_ok [of s w i] by auto
    with AddJob Cons.prems(2) Cons.IH [of s' w'] show ?thesis by simp
  next
    case RemoveCurrent
    with Cons.prems obtain s' w' where s': "remove_current s w = Inr (s', w')" "inv s' w'"
      "Suc (njobs s') = njobs s" using remove_ok [of s w] by auto
    with RemoveCurrent Cons.prems(2) Cons.IH [of s' w'] show ?thesis by auto
  next
    case ContextSwitch
    with Cons.prems obtain s' w' where s': "context_switch s w = Inr (s', w')" "inv s' w'"
      "njobs s' = njobs s" using switch_ok [of s w] by auto
    with ContextSwitch Cons.prems(2) Cons.IH [of s' w'] show ?thesis by simp
  qed
qed simp

text \<open>The test at the end of the event loop: nothing is left iff everything added was removed.\<close>

lemma run_calls_empty:
  assumes "inv s w" "empty s"
    "calls_ok add remove_current context_switch can_add can_remove can_switch cs s w"
  shows "\<exists>s' w'. run_calls add remove_current context_switch cs s w = Inr (s', w') \<and> inv s' w' \<and>
     (empty s' \<longleftrightarrow> adds cs = removes cs)"
proof -
  obtain s' w' where "run_calls add remove_current context_switch cs s w = Inr (s', w')" "inv s' w'"
    "njobs s' + removes cs = njobs s + adds cs"
    using run_calls_ok [OF assms(1,3)] by auto
  moreover have "njobs s = 0" using assms(1,2) empty_iff by blast
  ultimately show ?thesis using empty_iff [of s' w'] by auto
qed

end

section \<open>One child runs at a time\<close>

locale one_runner = job_scheduler +
  fixes jobs :: "'a \<Rightarrow> nat list"
    and running :: "'a \<Rightarrow> nat option"
    and low :: int
    and high :: int
  assumes njobs_jobs: "inv s w \<Longrightarrow> njobs s = length (jobs s)"
    and prio_neq: "inv s w \<Longrightarrow> low \<noteq> high"
    and switch_settles: "inv s w \<Longrightarrow> can_switch s w \<Longrightarrow> context_switch s w = Inr (s', w') \<Longrightarrow>
      j \<in> set (jobs s') \<Longrightarrow> prio_of w' j = Some (if running s' = Some j then high else low)"
    and switch_running: "inv s w \<Longrightarrow> can_switch s w \<Longrightarrow> context_switch s w = Inr (s', w') \<Longrightarrow>
      jobs s' \<noteq> [] \<Longrightarrow> \<exists>j \<in> set (jobs s'). running s' = Some j"
begin

lemma exactly_one_runs:
  assumes "inv s w" "can_switch s w" "0 < njobs s"
  shows "\<exists>s' w'. context_switch s w = Inr (s', w') \<and> inv s' w' \<and>
     (\<exists>!j. j \<in> set (jobs s') \<and> prio_of w' j = Some high)"
proof -
  obtain s' w' where s': "context_switch s w = Inr (s', w')" "inv s' w'" "njobs s' = njobs s"
    using switch_ok [OF assms(1,2)] by auto
  have "jobs s' \<noteq> []" using njobs_jobs [OF s'(2)] s'(3) assms(3) by auto
  then obtain j where j: "j \<in> set (jobs s')" "running s' = Some j"
    using switch_running [OF assms(1,2) s'(1)] by auto
  have "\<And>k. k \<in> set (jobs s') \<Longrightarrow> prio_of w' k = Some high \<longleftrightarrow> k = j"
    using switch_settles [OF assms(1,2) s'(1)] j prio_neq [OF assms(1)] by auto
  with j s' show ?thesis by blast
qed

end

end
