(* ===== verification/FIFO_Sched.thy ===== *)
theory FIFO_Sched
  imports Sched_Interface
begin

text \<open>
  The FIFO scheduler of \<^verbatim>\<open>FIFO.c\<close>: a counter of the children, whose order is left to the kernel's
  own \<^verbatim>\<open>SCHED_FIFO\<close> queue of one priority level.
\<close>

type_synonym FIFO_state = int

definition FIFO_static :: FIFO_state where
  "FIFO_static = 0"

definition set_strategy_FIFO :: "int \<Rightarrow> FIFO_state \<Rightarrow> FIFO_state" where
  "set_strategy_FIFO unused s = s"

definition add_process_FIFO :: "os \<Rightarrow> ptr \<Rightarrow> FIFO_state \<Rightarrow> world \<Rightarrow> (FIFO_state \<times> world) res" where
  "add_process_FIFO os p count_process w =
     bindR (deref w p) (\<lambda>i.
     bindR (resume_process os (pid i) w) (\<lambda>w'.
     bindR (cint (count_process + 1)) (\<lambda>n. Inr (n, w'))))"

definition remove_current_process_FIFO :: "FIFO_state \<Rightarrow> FIFO_state res" where
  "remove_current_process_FIFO count_process = cint (count_process - 1)"

definition context_switch_FIFO :: "FIFO_state \<Rightarrow> world \<Rightarrow> world res" where
  "context_switch_FIFO count_process w = Inr w"

definition scheduler_empty_FIFO :: "FIFO_state \<Rightarrow> bool" where
  "scheduler_empty_FIFO count_process \<longleftrightarrow> count_process = 0"

definition fifo_inv :: "FIFO_state \<Rightarrow> bool" where
  "fifo_inv n \<longleftrightarrow> 0 \<le> n \<and> in_int n"

lemma add_process_FIFO_ok:
  assumes "sched_ok os" "i < length (procs w)" "0 < pid (procs w ! i)" "fifo_inv n" "in_int (n + 1)"
  shows "add_process_FIFO os (At i) n w =
      Inr (n + 1, w\<lparr>prio := (prio w)(pid (procs w ! i) \<mapsto> run_prio os)\<rparr>)"
  using assms by (simp add: add_process_FIFO_def resume_ok)

lemma remove_current_process_FIFO_ok:
  "fifo_inv n \<Longrightarrow> 0 < n \<Longrightarrow> remove_current_process_FIFO n = Inr (n - 1) \<and> fifo_inv (n - 1)"
  by (auto simp: remove_current_process_FIFO_def fifo_inv_def in_int_def cint_def)

section \<open>FIFO as a scheduler\<close>

interpretation fifo: job_scheduler "add_process_FIFO os"
  "\<lambda>s w. keep_world (remove_current_process_FIFO s) w"
  "\<lambda>s w. keep_state s (context_switch_FIFO s w)"
  scheduler_empty_FIFO "\<lambda>s w. sched_ok os \<and> fifo_inv s" nat
  "\<lambda>i s w. i < length (procs w) \<and> 0 < pid (procs w ! i) \<and> in_int (s + 1)" "\<lambda>s w. 0 < s"
  "\<lambda>s w. True" for os
proof (unfold_locales, goal_cases)
  case (1 s w i)
  then show ?case
    using add_process_FIFO_ok [of os i w s] by (auto simp: fifo_inv_def nat_add_distrib)
next
  case (2 s w)
  then show ?case using remove_current_process_FIFO_ok [of s] by auto
qed (auto simp: context_switch_FIFO_def scheduler_empty_FIFO_def fifo_inv_def)

end
