(* ===== verification/RR_Sched.thy ===== *)
theory RR_Sched
  imports Sched_Interface
begin

text \<open>
  The round-robin scheduler of \<^verbatim>\<open>RR.c\<close>: an array of jobs with two indices, the job to run and the
  job to stop at the next context switch. The C functions are refined from an abstract run queue:
  the jobs in the order in which they will run, the current one first.
\<close>

section \<open>The C functions\<close>

record RR_state =
  rr_pq :: "ptr array"
  current_process_id :: int
  previous_active_id :: int
  process_count :: int

text \<open>The static variables before \<^verbatim>\<open>set_strategy_RR\<close> is called.\<close>

definition RR_static :: RR_state where
  "RR_static = \<lparr>rr_pq = [], current_process_id = -1, previous_active_id = -1, process_count = 0\<rparr>"

definition advance :: "RR_state \<Rightarrow> int \<Rightarrow> int res" where
  "advance s n =
     (if n < 0 then Inr n
      else bindR (cint (n + 1)) (\<lambda>n'. Inr (if n' = process_count s then 0 else n')))"

definition set_strategy_RR :: "int \<Rightarrow> RR_state \<Rightarrow> RR_state" where
  "set_strategy_RR num_process s = s\<lparr>rr_pq := malloc_array num_process\<rparr>"

text \<open>The loop of \<^verbatim>\<open>add_process_RR\<close> that moves the jobs from the current one on up by one.\<close>

function rr_shift_up :: "ptr array \<Rightarrow> int \<Rightarrow> int \<Rightarrow> ptr array res" where
  "rr_shift_up a i current =
     (if i \<ge> current
      then bindR (cint (i + 1)) (\<lambda>i1.
           bindR (aread a i) (\<lambda>v.
           bindR (awrite a i1 v) (\<lambda>a'.
           bindR (cint (i - 1)) (\<lambda>i'.
           rr_shift_up a' i' current))))
      else Inr a)"
  by pat_completeness auto
termination
  by (relation "measure (\<lambda>(a, i, c). nat (i - c + 1))") (auto simp: cint_Inr_iff)

definition add_process_RR :: "ptr \<Rightarrow> RR_state \<Rightarrow> RR_state res" where
  "add_process_RR p s =
     bindR
       (if process_count s = 0
        then bindR (assertR (previous_active_id s < 0)) (\<lambda>_.
             bindR (awrite (rr_pq s) 0 p) (\<lambda>a.
             Inr (s\<lparr>rr_pq := a, current_process_id := 0\<rparr>)))
        else bindR (cint (process_count s - 1)) (\<lambda>i.
             bindR (rr_shift_up (rr_pq s) i (current_process_id s)) (\<lambda>a.
             bindR (awrite a (current_process_id s) p) (\<lambda>a'.
             bindR (cint (current_process_id s + 1)) (\<lambda>c.
             Inr (s\<lparr>rr_pq := a', current_process_id := c\<rparr>))))))
       (\<lambda>s'. bindR (cint (process_count s' + 1)) (\<lambda>n. Inr (s'\<lparr>process_count := n\<rparr>)))"

text \<open>The loop of \<^verbatim>\<open>remove_current_process_RR\<close> that closes the gap.\<close>

function rr_shift_down :: "ptr array \<Rightarrow> int \<Rightarrow> int \<Rightarrow> ptr array res" where
  "rr_shift_down a i n =
     (if i < n
      then bindR (cint (i - 1)) (\<lambda>i1.
           bindR (aread a i) (\<lambda>v.
           bindR (awrite a i1 v) (\<lambda>a'.
           bindR (cint (i + 1)) (\<lambda>i'.
           rr_shift_down a' i' n))))
      else Inr a)"
  by pat_completeness auto
termination
  by (relation "measure (\<lambda>(a, i, n). nat (n - i))") (auto simp: cint_Inr_iff)

definition remove_current_process_RR :: "RR_state \<Rightarrow> RR_state res" where
  "remove_current_process_RR s =
     bindR (cint (current_process_id s + 1)) (\<lambda>i.
     bindR (rr_shift_down (rr_pq s) i (process_count s)) (\<lambda>a.
     bindR (cint (process_count s - 1)) (\<lambda>n.
     Inr (s\<lparr>rr_pq := a, previous_active_id := -1, process_count := n,
            current_process_id :=
              (if n = 0 then -1
               else if current_process_id s = n then 0
               else current_process_id s)\<rparr>))))"

definition timeslice_over_RR :: "RR_state \<Rightarrow> RR_state res" where
  "timeslice_over_RR s =
     bindR (advance s (current_process_id s)) (\<lambda>c.
     Inr (s\<lparr>previous_active_id := current_process_id s, current_process_id := c\<rparr>))"

definition context_switch_RR :: "os \<Rightarrow> RR_state \<Rightarrow> world \<Rightarrow> world res" where
  "context_switch_RR os s w =
     bindR
       (if previous_active_id s \<ge> 0
        then bindR (aread (rr_pq s) (previous_active_id s)) (\<lambda>p.
             bindR (deref w p) (\<lambda>i. suspend_process os (pid i) w))
        else Inr w)
       (\<lambda>w'.
        if current_process_id s \<ge> 0
        then bindR (aread (rr_pq s) (current_process_id s)) (\<lambda>p.
             bindR (deref w' p) (\<lambda>i. resume_process os (pid i) w'))
        else Inr w')"

definition scheduler_empty_RR :: "RR_state \<Rightarrow> bool" where
  "scheduler_empty_RR s \<longleftrightarrow> process_count s = 0 \<and> current_process_id s < 0"

declare rr_shift_up.simps [simp del] rr_shift_down.simps [simp del]

section \<open>The two loops\<close>

lemma rr_shift_up_eq:
  assumes "c + k < length a" "length a \<le> 2147483647" "\<forall>j < c + k. a ! j \<noteq> None"
  shows "rr_shift_up a (int (c + k) - 1) (int c) =
     Inr (map (\<lambda>j. if c < j \<and> j \<le> c + k then a ! (j - 1) else a ! j) [0..<length a])"
  using assms
proof (induction k arbitrary: a)
  case 0
  have "map (\<lambda>j. if c < j \<and> j \<le> c then a ! (j - 1) else a ! j) [0..<length a] = a"
    by (rule nth_equalityI) auto
  then show ?case by (subst rr_shift_up.simps) simp
next
  case (Suc k)
  obtain v where v: "a ! (c + k) = Some v" using Suc.prems(3) by fastforce
  let ?b = "a[Suc (c + k) := Some v]"
  have "rr_shift_up a (int (c + Suc k) - 1) (int c) = rr_shift_up ?b (int (c + k) - 1) (int c)"
    using Suc.prems v
    by (subst rr_shift_up.simps)
      (simp add: cint_def in_int_def aread_def awrite_def nat_add_distrib)
  also have "\<dots> = Inr (map (\<lambda>j. if c < j \<and> j \<le> c + k then ?b ! (j - 1) else ?b ! j) [0..<length a])"
    using Suc.IH [of ?b] Suc.prems by (simp add: nth_list_update)
  also have "map (\<lambda>j. if c < j \<and> j \<le> c + k then ?b ! (j - 1) else ?b ! j) [0..<length a] =
      map (\<lambda>j. if c < j \<and> j \<le> c + Suc k then a ! (j - 1) else a ! j) [0..<length a]"
    using v Suc.prems(1) by (intro map_cong) (auto simp: nth_list_update)
  finally show ?case .
qed

lemma rr_shift_down_eq:
  assumes "n \<le> length a" "length a \<le> 2147483647" "\<forall>j < n. a ! j \<noteq> None" "c < n"
  shows "rr_shift_down a (int c + 1) (int n) =
     Inr (map (\<lambda>j. if c \<le> j \<and> j < n - 1 then a ! (j + 1) else a ! j) [0..<length a])"
  using assms
proof (induction "n - c" arbitrary: a c)
  case 0
  then show ?case by simp
next
  case (Suc k)
  show ?case
  proof (cases "c = n - 1")
    case True
    have "map (\<lambda>j. if c \<le> j \<and> j < n - 1 then a ! (j + 1) else a ! j) [0..<length a] = a"
      using True by (intro nth_equalityI) auto
    with True Suc.prems show ?thesis by (subst rr_shift_down.simps) simp
  next
    case False
    then have c: "Suc c < n" using Suc.prems(4) by simp
    obtain v where v: "a ! Suc c = Some v" using Suc.prems(3) c by fastforce
    let ?b = "a[c := Some v]"
    have "rr_shift_down a (int c + 1) (int n) = rr_shift_down ?b (int (Suc c) + 1) (int n)"
      using Suc.prems v c
      by (subst rr_shift_down.simps)
        (simp add: cint_def in_int_def aread_def awrite_def nat_add_distrib add.commute)
    also have "\<dots> =
        Inr (map (\<lambda>j. if Suc c \<le> j \<and> j < n - 1 then ?b ! (j + 1) else ?b ! j) [0..<length a])"
      using Suc.hyps(1) [of "Suc c" ?b] Suc.hyps(2) Suc.prems c by (simp add: nth_list_update)
    also have "map (\<lambda>j. if Suc c \<le> j \<and> j < n - 1 then ?b ! (j + 1) else ?b ! j) [0..<length a] =
        map (\<lambda>j. if c \<le> j \<and> j < n - 1 then a ! (j + 1) else a ! j) [0..<length a]"
      using v c Suc.prems(1) by (intro map_cong) (auto simp: nth_list_update)
    finally show ?thesis .
  qed
qed

section \<open>The run queue\<close>

definition rr_jobs :: "RR_state \<Rightarrow> nat list" where
  "rr_jobs s = ptr_indices (rr_pq s) (process_count s)"

definition rr_queue :: "RR_state \<Rightarrow> nat list" where
  "rr_queue s = (let c = nat (current_process_id s) in drop c (rr_jobs s) @ take c (rr_jobs s))"

definition rr_inv :: "RR_state \<Rightarrow> bool" where
  "rr_inv s \<longleftrightarrow>
     holds (rr_pq s) (map At (rr_jobs s)) \<and>
     process_count s = int (length (rr_jobs s)) \<and>
     length (rr_pq s) \<le> 2147483647 \<and>
     (if rr_jobs s = [] then current_process_id s = -1 \<and> previous_active_id s = -1
      else 0 \<le> current_process_id s \<and> current_process_id s < int (length (rr_jobs s)) \<and>
           -1 \<le> previous_active_id s \<and> previous_active_id s < int (length (rr_jobs s)))"

lemma rr_inv_init: "0 \<le> n \<Longrightarrow> in_int n \<Longrightarrow> rr_inv (set_strategy_RR n RR_static)"
  by (simp add: rr_inv_def rr_jobs_def ptr_indices_def set_strategy_RR_def RR_static_def in_int_def)

text \<open>The invariant of a state given its jobs, and the bounds it gives.\<close>

lemma rr_invI:
  assumes "holds (rr_pq s) (map At xs)" "process_count s = int (length xs)"
    "length (rr_pq s) \<le> 2147483647"
    "xs = [] \<Longrightarrow> current_process_id s = -1 \<and> previous_active_id s = -1"
    "xs \<noteq> [] \<Longrightarrow> 0 \<le> current_process_id s \<and> current_process_id s < int (length xs) \<and>
       -1 \<le> previous_active_id s \<and> previous_active_id s < int (length xs)"
  shows "rr_inv s \<and> rr_jobs s = xs"
proof -
  have "rr_jobs s = xs" using ptr_indices_holds [OF assms(1,2)] by (simp add: rr_jobs_def)
  with assms show ?thesis by (simp add: rr_inv_def)
qed

lemma rr_inv_nonemptyD:
  assumes "rr_inv s" "rr_jobs s \<noteq> []"
  obtains c where "current_process_id s = int c" "c < length (rr_jobs s)"
    "length (rr_jobs s) \<le> length (rr_pq s)" "length (rr_pq s) \<le> 2147483647"
    "process_count s = int (length (rr_jobs s))"
    "rr_queue s = drop c (rr_jobs s) @ take c (rr_jobs s)"
proof
  let ?c = "nat (current_process_id s)"
  show "current_process_id s = int ?c" "?c < length (rr_jobs s)"
    "length (rr_jobs s) \<le> length (rr_pq s)" "length (rr_pq s) \<le> 2147483647"
    "process_count s = int (length (rr_jobs s))"
    "rr_queue s = drop ?c (rr_jobs s) @ take ?c (rr_jobs s)"
    using assms by (auto simp: rr_inv_def rr_queue_def Let_def dest: holds_length)
qed

lemma rr_queue_hd:
  assumes "rr_inv s" "rr_jobs s \<noteq> []"
  shows "rr_queue s \<noteq> []" "hd (rr_queue s) = rr_jobs s ! nat (current_process_id s)"
  using rr_inv_nonemptyD [OF assms] assms(2)
  by (metis append_is_Nil_conv drop_eq_Nil not_less nat_int, metis hd_append2 drop_eq_Nil not_less nat_int hd_drop_conv_nth)

lemma rr_queue_Nil_iff: "rr_inv s \<Longrightarrow> rr_queue s = [] \<longleftrightarrow> rr_jobs s = []"
  using rr_queue_hd(1) by (auto simp: rr_queue_def)

lemma rr_queue_set: "set (rr_queue s) = set (rr_jobs s)"
  unfolding rr_queue_def Let_def by (metis append_take_drop_id set_append sup_commute)

text \<open>\<^verbatim>\<open>add_process_RR\<close> puts the new job at the end of the run queue.\<close>

lemma add_process_RR_refines:
  assumes inv: "rr_inv s" and room: "length (rr_jobs s) < length (rr_pq s)"
  obtains s' where "add_process_RR (At i) s = Inr s'" "rr_inv s'" "rr_queue s' = rr_queue s @ [i]"
    "length (rr_pq s') = length (rr_pq s)" "previous_active_id s' = previous_active_id s"
proof (cases "rr_jobs s = []")
  case True
  let ?s' = "s\<lparr>rr_pq := (rr_pq s)[0 := Some (At i)], current_process_id := 0, process_count := 1\<rparr>"
  have "add_process_RR (At i) s = Inr ?s'"
    using inv room True by (simp add: add_process_RR_def rr_inv_def awrite_def cint_def in_int_def)
  moreover have "rr_inv ?s' \<and> rr_jobs ?s' = [i]"
    using inv True room holds_append_one [of "rr_pq s" "[]" "At i"]
    by (intro rr_invI) (auto simp: rr_inv_def)
  moreover have "rr_queue s = []" using rr_queue_Nil_iff [OF inv] True by simp
  ultimately show ?thesis using that [of ?s'] by (simp add: rr_queue_def)
next
  case False
  let ?xs = "rr_jobs s" and ?a = "rr_pq s"
  obtain c where c: "current_process_id s = int c" "c < length ?xs" "length ?a \<le> 2147483647"
    "process_count s = int (length ?xs)" "rr_queue s = drop c ?xs @ take c ?xs"
    using rr_inv_nonemptyD [OF inv False] by blast
  have h: "holds ?a (map At ?xs)" using inv by (simp add: rr_inv_def)
  define b where
    "b = map (\<lambda>j. if c < j \<and> j \<le> length ?xs then ?a ! (j - 1) else ?a ! j) [0..<length ?a]"
  have "rr_shift_up ?a (int (c + (length ?xs - c)) - 1) (int c) = Inr b"
    unfolding b_def using c room holds_nth [OF h] by (subst rr_shift_up_eq) auto
  then have sh: "rr_shift_up ?a (int (length ?xs) - 1) (int c) = Inr b" using c(2) by simp
  let ?ys = "take c ?xs @ i # drop c ?xs"
  let ?s' = "s\<lparr>rr_pq := b[c := Some (At i)], current_process_id := int c + 1,
               process_count := int (length ?xs) + 1\<rparr>"
  have "add_process_RR (At i) s = Inr ?s'"
    using sh c room False
    by (simp add: add_process_RR_def b_def awrite_def cint_def in_int_def)
  moreover have "rr_inv ?s' \<and> rr_jobs ?s' = ?ys"
  proof (rule rr_invI)
    show "holds (rr_pq ?s') (map At ?ys)"
      using room c(2) holds_nth [OF h]
      by (intro holdsI) (auto simp: b_def nth_append nth_Cons' nth_list_update min_def)
  qed (use inv c room in \<open>auto simp: rr_inv_def b_def split: if_splits\<close>)
  ultimately show ?thesis
    using that [of ?s'] c by (simp add: rr_queue_def b_def nat_add_distrib min_def)
qed

text \<open>\<^verbatim>\<open>remove_current_process_RR\<close> takes the job at the front of the run queue out.\<close>

lemma remove_current_process_RR_refines:
  assumes inv: "rr_inv s" and ne: "rr_jobs s \<noteq> []"
  obtains s' where "remove_current_process_RR s = Inr s'" "rr_inv s'"
    "rr_queue s' = tl (rr_queue s)" "length (rr_pq s') = length (rr_pq s)"
    "previous_active_id s' = -1"
proof -
  let ?xs = "rr_jobs s" and ?a = "rr_pq s"
  obtain c where c: "current_process_id s = int c" "c < length ?xs" "length ?xs \<le> length ?a"
    "length ?a \<le> 2147483647" "process_count s = int (length ?xs)"
    "rr_queue s = drop c ?xs @ take c ?xs"
    using rr_inv_nonemptyD [OF inv ne] by blast
  have h: "holds ?a (map At ?xs)" using inv by (simp add: rr_inv_def)
  define b where
    "b = map (\<lambda>j. if c \<le> j \<and> j < length ?xs - 1 then ?a ! (j + 1) else ?a ! j) [0..<length ?a]"
  have sh: "rr_shift_down ?a (int c + 1) (int (length ?xs)) = Inr b"
    unfolding b_def using c holds_nth [OF h] by (intro rr_shift_down_eq) auto
  let ?ys = "take c ?xs @ drop (Suc c) ?xs"
  let ?c' = "if length ?xs = 1 then -1 else if c = length ?xs - 1 then 0 else int c"
  let ?s' = "s\<lparr>rr_pq := b, previous_active_id := -1, process_count := int (length ?xs) - 1,
               current_process_id := ?c'\<rparr>"
  have "remove_current_process_RR s = Inr ?s'"
    using sh c
    by (auto simp: remove_current_process_RR_def cint_def in_int_def of_nat_diff split: if_splits)
  moreover have "rr_inv ?s' \<and> rr_jobs ?s' = ?ys"
  proof (rule rr_invI)
    show "holds (rr_pq ?s') (map At ?ys)"
      using c holds_nth [OF h]
      by (intro holdsI) (auto simp: b_def nth_append min_def)
  qed (use c ne in \<open>auto simp: b_def min_def le_Suc_eq\<close>)
  moreover have "rr_queue ?s' = tl (rr_queue s)"
  proof -
    have "tl (rr_queue s) = drop (Suc c) ?xs @ take c ?xs"
      using c by (simp add: tl_append2 drop_Suc tl_drop)
    then show ?thesis using calculation c by (auto simp: rr_queue_def min_def)
  qed
  ultimately show ?thesis using that [of ?s'] by (simp add: b_def)
qed

text \<open>\<^verbatim>\<open>timeslice_over_RR\<close> moves the front of the run queue to its end.\<close>

lemma timeslice_over_RR_refines:
  assumes inv: "rr_inv s"
  obtains s' where "timeslice_over_RR s = Inr s'" "rr_inv s'"
    "rr_queue s' = rotate1 (rr_queue s)" "rr_pq s' = rr_pq s" "rr_jobs s' = rr_jobs s"
    "previous_active_id s' = current_process_id s"
proof (cases "rr_jobs s = []")
  case True
  then have "current_process_id s = -1" using inv by (simp add: rr_inv_def)
  moreover have "previous_active_id s = -1" "process_count s = 0"
    using True inv by (simp_all add: rr_inv_def)
  ultimately have "timeslice_over_RR s = Inr (s\<lparr>previous_active_id := -1, current_process_id := -1\<rparr>)"
    by (simp add: timeslice_over_RR_def advance_def)
  with True inv \<open>current_process_id s = -1\<close> show ?thesis
    by (intro that) (auto simp: rr_inv_def rr_queue_def rr_jobs_def)
next
  case False
  let ?xs = "rr_jobs s"
  obtain c where c: "current_process_id s = int c" "c < length ?xs" "length ?xs \<le> length (rr_pq s)"
    "length (rr_pq s) \<le> 2147483647" "process_count s = int (length ?xs)"
    "rr_queue s = drop c ?xs @ take c ?xs"
    using rr_inv_nonemptyD [OF inv False] by blast
  let ?d = "if Suc c = length ?xs then 0 else Suc c"
  let ?s' = "s\<lparr>previous_active_id := int c, current_process_id := int ?d\<rparr>"
  have "timeslice_over_RR s = Inr ?s'"
    using c by (auto simp: timeslice_over_RR_def advance_def cint_def in_int_def)
  moreover have "rr_inv ?s' \<and> rr_jobs ?s' = ?xs"
    using inv c by (intro rr_invI) (auto simp: rr_inv_def)
  moreover have "rotate1 (rr_queue s) = drop ?d ?xs @ take ?d ?xs"
    using c take_Suc_conv_app_nth [OF c(2)] by (auto simp: Cons_nth_drop_Suc [symmetric])
  ultimately show ?thesis using that [of ?s'] c(1) by (simp add: rr_queue_def)
qed

section \<open>Who runs\<close>

text \<open>
  \<open>rr_quiet\<close>: only the front of the run queue may have the running priority. \<open>rr_ready\<close>: so
  may the job that the next context switch will stop. \<open>rr_settled\<close>: the front has the running
  priority and every other job the lowest.
\<close>

definition rr_quiet :: "os \<Rightarrow> RR_state \<Rightarrow> world \<Rightarrow> bool" where
  "rr_quiet os s w \<longleftrightarrow> (\<forall>j \<in> set (tl (rr_queue s)). prio_of w j = Some (low_prio os))"

definition rr_ready :: "os \<Rightarrow> RR_state \<Rightarrow> world \<Rightarrow> bool" where
  "rr_ready os s w \<longleftrightarrow> (\<forall>j \<in> set (tl (rr_queue s)). prio_of w j = Some (low_prio os) \<or>
     0 \<le> previous_active_id s \<and> j = rr_jobs s ! nat (previous_active_id s))"

definition rr_settled :: "os \<Rightarrow> RR_state \<Rightarrow> world \<Rightarrow> bool" where
  "rr_settled os s w \<longleftrightarrow> rr_quiet os s w \<and>
     (rr_queue s \<noteq> [] \<longrightarrow> prio_of w (hd (rr_queue s)) = Some (run_prio os))"

lemma rr_quiet_ready: "rr_quiet os s w \<Longrightarrow> rr_ready os s w"
  by (simp add: rr_quiet_def rr_ready_def)

lemma rr_queue_mset: "mset (rr_queue s) = mset (rr_jobs s)"
  unfolding rr_queue_def Let_def by (metis append_take_drop_id mset_append union_commute)

lemma rr_tick_ready:
  assumes inv: "rr_inv s" and q: "rr_quiet os s w" and t: "timeslice_over_RR s = Inr s'"
  shows "rr_ready os s' w"
proof (cases "rr_jobs s = []")
  case True
  have "rr_queue s' = rotate1 (rr_queue s)" using timeslice_over_RR_refines [OF inv] t by auto
  moreover have "rr_queue s = []" using True rr_queue_Nil_iff [OF inv] by simp
  ultimately show ?thesis by (simp add: rr_ready_def)
next
  case False
  have s': "rr_queue s' = rotate1 (rr_queue s)" "rr_jobs s' = rr_jobs s"
    "previous_active_id s' = current_process_id s"
    using timeslice_over_RR_refines [OF inv] t by auto
  obtain x xs where xs: "rr_queue s = x # xs" "x = rr_jobs s ! nat (current_process_id s)"
    using rr_queue_hd [OF inv False] by (metis list.exhaust_sel)
  have c: "0 \<le> current_process_id s" using inv False by (simp add: rr_inv_def)
  have "set (tl (xs @ [x])) \<subseteq> insert x (set xs)" by (cases xs) auto
  with q xs c s' show ?thesis by (auto simp: rr_ready_def rr_quiet_def)
qed

lemma context_switch_RR_settles:
  assumes inv: "rr_inv s" and os: "sched_ok os" and pids: "pids_ok w (rr_jobs s)"
    and r: "rr_ready os s w"
  obtains f where "context_switch_RR os s w = Inr (w\<lparr>prio := f\<rparr>)"
    "rr_settled os s (w\<lparr>prio := f\<rparr>)"
    "\<And>p. p \<notin> (\<lambda>i. pid (procs w ! i)) ` set (rr_queue s) \<Longrightarrow> f p = prio w p"
proof (cases "rr_jobs s = []")
  case True
  then have "context_switch_RR os s w = Inr (w\<lparr>prio := prio w\<rparr>)"
    using inv by (simp add: context_switch_RR_def rr_inv_def)
  with True rr_queue_Nil_iff [OF inv] show ?thesis
    using that [of "prio w"] by (simp add: rr_settled_def rr_quiet_def)
next
  case False
  let ?xs = "rr_jobs s"
  obtain c where c: "current_process_id s = int c" "c < length ?xs"
    using rr_inv_nonemptyD [OF inv False] by blast
  have q: "hd (rr_queue s) = ?xs ! c" "rr_queue s \<noteq> []" using rr_queue_hd [OF inv False] c(1) by auto
  have h: "holds (rr_pq s) (map At ?xs)" using inv by (simp add: rr_inv_def)
  have job: "aread (rr_pq s) (int j) = Inr (At (?xs ! j))" "?xs ! j < length (procs w)"
      "0 < pid (procs w ! (?xs ! j))" if "j < length ?xs" for j
    using that holds_aread [OF h, of j] pids by (auto simp: pids_ok_def)
  define g where "g = (if previous_active_id s \<ge> 0
      then (prio w)(pid (procs w ! (?xs ! nat (previous_active_id s))) \<mapsto> low_prio os) else prio w)"
  let ?f = "g(pid (procs w ! (?xs ! c)) \<mapsto> run_prio os)"
  have pv: "nat (previous_active_id s) < length ?xs" if "0 \<le> previous_active_id s"
    using inv False that by (auto simp: rr_inv_def)
  have "context_switch_RR os s w = Inr (w\<lparr>prio := ?f\<rparr>)"
    using job [OF c(2)] job [of "nat (previous_active_id s)"] pv c(1)
    by (auto simp: context_switch_RR_def g_def suspend_ok [OF os] resume_ok [OF os])
  moreover have "rr_settled os s (w\<lparr>prio := ?f\<rparr>)"
  proof -
    have d: "distinct (rr_queue s)" "set (rr_queue s) = set ?xs"
      using pids_ok_distinct [OF pids] rr_queue_mset rr_queue_set mset_eq_imp_distinct_iff by blast+
    have "prio_of (w\<lparr>prio := ?f\<rparr>) j = Some (low_prio os)" if j: "j \<in> set (tl (rr_queue s))" for j
    proof -
      have "j \<in> set ?xs" "j \<noteq> ?xs ! c"
        using j d q by (metis list.set_sel(2), metis distinct.simps(2) list.exhaust_sel)
      then have "pid (procs w ! j) \<noteq> pid (procs w ! (?xs ! c))"
        using pids_ok_neq [OF pids] c(2) by simp
      with r j show ?thesis by (auto simp: rr_ready_def g_def prio_of_def)
    qed
    then show ?thesis using q by (simp add: rr_settled_def rr_quiet_def prio_of_def)
  qed
  moreover have "?f p = prio w p" if "p \<notin> (\<lambda>i. pid (procs w ! i)) ` set (rr_queue s)" for p
    using that c(2) pv by (auto simp: g_def rr_queue_set)
  ultimately show ?thesis using that by blast
qed

section \<open>RR as a scheduler\<close>

definition rr_running :: "RR_state \<Rightarrow> nat option" where
  "rr_running s = (case rr_queue s of [] \<Rightarrow> None | j # _ \<Rightarrow> Some j)"

definition rr_ok :: "os \<Rightarrow> RR_state \<Rightarrow> world \<Rightarrow> bool" where
  "rr_ok os s w \<longleftrightarrow> sched_ok os \<and> rr_inv s \<and> pids_ok w (rr_queue s)"

definition rr_can_add :: "nat \<Rightarrow> RR_state \<Rightarrow> world \<Rightarrow> bool" where
  "rr_can_add i s w \<longleftrightarrow> length (rr_queue s) < length (rr_pq s) \<and> pids_ok w (i # rr_queue s)"

lemma rr_queue_length: "length (rr_queue s) = length (rr_jobs s)"
  using rr_queue_mset [of s] by (metis size_mset)

lemma rr_ok_jobs: "pids_ok w (rr_queue s) \<longleftrightarrow> pids_ok w (rr_jobs s)"
  using pids_ok_perm rr_queue_mset by metis

lemma scheduler_empty_RR_iff: "rr_inv s \<Longrightarrow> scheduler_empty_RR s \<longleftrightarrow> rr_queue s = []"
  using rr_queue_Nil_iff [of s] by (auto simp: scheduler_empty_RR_def rr_inv_def split: if_splits)

lemma rr_add_ok:
  assumes "rr_ok os s w" "rr_can_add i s w"
  obtains s' where "add_process_RR (At i) s = Inr s'" "rr_ok os s' w"
    "rr_queue s' = rr_queue s @ [i]" "length (rr_pq s') = length (rr_pq s)"
proof -
  obtain s' where s': "add_process_RR (At i) s = Inr s'" "rr_inv s'" "rr_queue s' = rr_queue s @ [i]"
    "length (rr_pq s') = length (rr_pq s)"
    using add_process_RR_refines [of s i] assms
    by (auto simp: rr_ok_def rr_can_add_def rr_queue_length)
  moreover have "pids_ok w (rr_queue s')"
    using assms(2) s'(3) pids_ok_perm [of w "i # rr_queue s" "rr_queue s'"]
    by (simp add: rr_can_add_def)
  ultimately show ?thesis using that assms(1) by (simp add: rr_ok_def)
qed

lemma rr_remove_ok:
  assumes "rr_ok os s w" "rr_queue s \<noteq> []"
  obtains s' where "remove_current_process_RR s = Inr s'" "rr_ok os s' w"
    "rr_queue s' = tl (rr_queue s)" "length (rr_pq s') = length (rr_pq s)"
proof -
  obtain s' where s': "remove_current_process_RR s = Inr s'" "rr_inv s'"
    "rr_queue s' = tl (rr_queue s)" "length (rr_pq s') = length (rr_pq s)"
    using remove_current_process_RR_refines [of s] rr_queue_Nil_iff [of s] assms
    by (auto simp: rr_ok_def)
  moreover have "pids_ok w (tl (rr_queue s))"
    using assms by (cases "rr_queue s") (auto simp: rr_ok_def pids_ok_def)
  ultimately show ?thesis using that assms(1) by (simp add: rr_ok_def)
qed

lemma rr_tick_ok:
  assumes "rr_ok os s w"
  obtains s' where "timeslice_over_RR s = Inr s'" "rr_ok os s' w"
    "rr_queue s' = rotate1 (rr_queue s)" "rr_pq s' = rr_pq s"
proof -
  obtain s' where "timeslice_over_RR s = Inr s'" "rr_inv s'"
    "rr_queue s' = rotate1 (rr_queue s)" "rr_pq s' = rr_pq s"
    using timeslice_over_RR_refines [of s] assms by (auto simp: rr_ok_def)
  moreover have "pids_ok w (rotate1 (rr_queue s))"
    using assms pids_ok_perm [of w "rr_queue s" "rotate1 (rr_queue s)"]
    by (cases "rr_queue s") (auto simp: rr_ok_def)
  ultimately show ?thesis using that assms by (simp add: rr_ok_def)
qed

lemma rr_switch_ok:
  assumes "rr_ok os s w" "rr_ready os s w"
  obtains f where "context_switch_RR os s w = Inr (w\<lparr>prio := f\<rparr>)"
    "rr_ok os s (w\<lparr>prio := f\<rparr>)" "rr_settled os s (w\<lparr>prio := f\<rparr>)"
    "\<And>p. p \<notin> (\<lambda>i. pid (procs w ! i)) ` set (rr_queue s) \<Longrightarrow> f p = prio w p"
  using context_switch_RR_settles [of s os w] assms by (auto simp: rr_ok_def rr_ok_jobs)

interpretation rr: one_runner "\<lambda>p s w. keep_world (add_process_RR p s) w"
  "\<lambda>s w. keep_world (remove_current_process_RR s) w"
  "\<lambda>s w. keep_state s (context_switch_RR os s w)"
  scheduler_empty_RR "rr_ok os" "\<lambda>s. length (rr_queue s)" rr_can_add
  "\<lambda>s w. rr_queue s \<noteq> []" "rr_ready os" rr_queue rr_running "low_prio os" "run_prio os" for os
proof (unfold_locales, goal_cases)
  case (1 s w i)
  from rr_add_ok [OF this] show ?case by (metis keep_simps(1) length_append_singleton)
next
  case (2 s w)
  from rr_remove_ok [OF this] obtain s' where "remove_current_process_RR s = Inr s'"
    "rr_ok os s' w" "rr_queue s' = tl (rr_queue s)" .
  with 2(2) show ?case by (cases "rr_queue s") auto
next
  case (3 s w)
  from rr_switch_ok [OF this] obtain f where "context_switch_RR os s w = Inr (w\<lparr>prio := f\<rparr>)"
    "rr_ok os s (w\<lparr>prio := f\<rparr>)" by blast
  then show ?case by simp
next
  case (4 s w)
  then show ?case using scheduler_empty_RR_iff [of s] by (simp add: rr_ok_def)
next
  case (6 s w)
  then show ?case using run_low_neq [of os] by (simp add: rr_ok_def)
next
  case (7 s w s' w' j)
  have st: "rr_settled os s w'" "s' = s" "pids_ok w (rr_queue s)"
    using rr_switch_ok [OF 7(1,2)] 7(1,3) by (auto simp: keep_Inr_iff rr_ok_def)
  then have "distinct (rr_queue s)" by (blast intro: pids_ok_distinct)
  with st 7(4) show ?case
    by (cases "rr_queue s") (auto simp: rr_settled_def rr_quiet_def rr_running_def)
next
  case (8 s w s' w')
  then show ?case by (auto simp: rr_running_def split: list.splits)
qed simp


section \<open>Fairness\<close>

text \<open>The ends of \<open>k\<close> time slices in a row.\<close>

fun slices :: "nat \<Rightarrow> RR_state \<Rightarrow> RR_state res" where
  "slices 0 s = Inr s"
| "slices (Suc k) s = bindR (timeslice_over_RR s) (slices k)"

lemma slices_rotate:
  "rr_inv s \<Longrightarrow> \<exists>s'. slices k s = Inr s' \<and> rr_inv s' \<and> rr_queue s' = rotate k (rr_queue s)"
proof (induction k arbitrary: s)
  case (Suc k)
  obtain s1 where "timeslice_over_RR s = Inr s1" "rr_inv s1" "rr_queue s1 = rotate1 (rr_queue s)"
    using timeslice_over_RR_refines [OF Suc.prems] by blast
  with Suc.IH [of s1] show ?case by (simp add: rotate1_rotate_swap)
qed simp

end
