(* ===== verification/Proc_Heap.thy ===== *)
theory Proc_Heap
  imports Sched_Types
begin

text \<open>
  The binary heap of \<^verbatim>\<open>heap.c\<close>, a priority queue of pointers to processes ordered by remaining
  time and then by pid. The first section translates the C functions over the array; the second is
  the same algorithm on lists, without errors; the third proves that on every heap the program can
  build the C functions return, without error, what the list functions compute; the last states
  the queue's contract as a locale and interprets it on the C functions.
\<close>

section \<open>The C functions\<close>

record Heap =
  pq :: "ptr array"
  heap_size :: int

definition heap_init :: "int \<Rightarrow> Heap" where
  "heap_init max_size = \<lparr>pq = malloc_array max_size, heap_size = 0\<rparr>"

definition heap_element_lt :: "world \<Rightarrow> Heap \<Rightarrow> int \<Rightarrow> int \<Rightarrow> bool res" where
  "heap_element_lt w h lhsIdx rhsIdx =
     bindR (aread (pq h) lhsIdx) (\<lambda>lhsp.
     bindR (aread (pq h) rhsIdx) (\<lambda>rhsp.
     bindR (deref w lhsp) (\<lambda>lhs.
     bindR (deref w rhsp) (\<lambda>rhs.
     if remaining_time lhs = remaining_time rhs
     then Inr (pid lhs < pid rhs)
     else Inr (remaining_time lhs < remaining_time rhs)))))"

definition lchild :: "int \<Rightarrow> int res" where
  "lchild parentIdx = bindR (cint (parentIdx * 2)) (\<lambda>x. cint (x + 1))"

definition rchild :: "int \<Rightarrow> int res" where
  "rchild parentIdx = bindR (cint (parentIdx * 2)) (\<lambda>x. cint (x + 2))"

definition parent :: "int \<Rightarrow> int res" where
  "parent childIdx = bindR (cint (childIdx - 1)) (\<lambda>x. Inr (x sdiv 2))"

definition heap_swap :: "Heap \<Rightarrow> int \<Rightarrow> int \<Rightarrow> Heap res" where
  "heap_swap h lhs rhs =
     bindR (aread (pq h) lhs) (\<lambda>temp.
     bindR (aread (pq h) rhs) (\<lambda>v.
     bindR (awrite (pq h) lhs v) (\<lambda>a.
     bindR (awrite a rhs temp) (\<lambda>a'.
     Inr (h\<lparr>pq := a'\<rparr>)))))"

text \<open>
  The loop of \<^verbatim>\<open>upheap\<close>: its second variable \<^verbatim>\<open>parentIdx\<close> is \<^verbatim>\<open>(childIdx - 1) / 2\<close> whenever the
  condition is evaluated.
\<close>

function upheap :: "world \<Rightarrow> Heap \<Rightarrow> int \<Rightarrow> Heap res" where
  "upheap w h childIdx =
     bindR (cint (childIdx - 1)) (\<lambda>x.
     let parentIdx = x sdiv 2 in
     if childIdx > 0
     then bindR (heap_element_lt w h childIdx parentIdx) (\<lambda>b.
       if b
       then bindR (heap_swap h parentIdx childIdx) (\<lambda>h'. upheap w h' parentIdx)
       else Inr h)
     else Inr h)"
  by pat_completeness auto
termination
  by (relation "measure (\<lambda>(w, h, c). nat c)") (auto simp: cint_Inr_iff sdiv_nonneg)

definition heap_insert :: "world \<Rightarrow> Heap \<Rightarrow> ptr \<Rightarrow> Heap res" where
  "heap_insert w h p =
     (let childIdx = heap_size h in
      bindR (awrite (pq h) childIdx p) (\<lambda>a.
      bindR (cint (heap_size h + 1)) (\<lambda>n.
      upheap w (h\<lparr>pq := a, heap_size := n\<rparr>) childIdx)))"

definition heap_top :: "Heap \<Rightarrow> ptr res" where
  "heap_top h = aread (pq h) 0"

lemma heap_element_lt_InrD:
  "heap_element_lt w h i j = Inr b \<Longrightarrow>
   0 \<le> i \<and> i < int (length (pq h)) \<and> 0 \<le> j \<and> j < int (length (pq h))"
  by (auto simp: heap_element_lt_def dest!: aread_InrD)

lemma heap_swap_InrD: "heap_swap h i j = Inr h' \<Longrightarrow> heap_size h' = heap_size h"
  by (auto simp: heap_swap_def)

lemma lchild_InrD: "lchild p = Inr l \<Longrightarrow> l = 2 * p + 1"
  by (auto simp: lchild_def cint_Inr_iff)

lemma rchild_InrD: "rchild p = Inr r \<Longrightarrow> r = 2 * p + 2"
  by (auto simp: rchild_def cint_Inr_iff)

text \<open>
  The choice of \<^verbatim>\<open>minIdx\<close> in the body of the loop of \<^verbatim>\<open>downheap\<close>. The short-circuit of
  \<^verbatim>\<open>&&\<close> keeps the comparison with the right child from being evaluated outside the heap.
\<close>

definition downheap_minIdx :: "world \<Rightarrow> Heap \<Rightarrow> int \<Rightarrow> int res" where
  "downheap_minIdx w h parentIdx =
     bindR (lchild parentIdx) (\<lambda>l.
     bindR (heap_element_lt w h l parentIdx) (\<lambda>b.
     let minIdx = (if b then l else parentIdx) in
     bindR (rchild parentIdx) (\<lambda>r.
     if r < heap_size h
     then bindR (heap_element_lt w h r minIdx) (\<lambda>b'. Inr (if b' then r else minIdx))
     else Inr minIdx)))"

lemma downheap_minIdx_InrD:
  assumes "downheap_minIdx w h p = Inr m" "lchild p = Inr l" "l < heap_size h" "m \<noteq> p"
  shows "0 \<le> p \<and> p < m \<and> m < heap_size h"
proof -
  from assms(1,2) obtain b where "heap_element_lt w h l p = Inr b"
    by (auto simp: downheap_minIdx_def)
  then have "0 \<le> p" using heap_element_lt_InrD by blast
  with assms show ?thesis
    by (auto simp: downheap_minIdx_def Let_def dest!: lchild_InrD rchild_InrD split: if_splits)
qed

function downheap :: "world \<Rightarrow> Heap \<Rightarrow> int \<Rightarrow> Heap res" where
  "downheap w h parentIdx =
     bindR (lchild parentIdx) (\<lambda>l.
     if l < heap_size h
     then bindR (downheap_minIdx w h parentIdx) (\<lambda>minIdx.
       if parentIdx = minIdx then Inr h
       else bindR (heap_swap h parentIdx minIdx) (\<lambda>h'. downheap w h' minIdx))
     else Inr h)"
  by pat_completeness auto
termination
proof (relation "measure (\<lambda>(w, h, p). nat (heap_size h - p))", goal_cases)
  case (2 w h p l m h')
  then show ?case
    using downheap_minIdx_InrD [of w h p m l] heap_swap_InrD [of h p m h'] by simp
qed simp

definition heap_pop :: "world \<Rightarrow> Heap \<Rightarrow> Heap res" where
  "heap_pop w h =
     bindR (cint (heap_size h - 1)) (\<lambda>n.
     bindR (heap_swap (h\<lparr>heap_size := n\<rparr>) n 0) (\<lambda>h'.
     downheap w h' 0))"

definition heap_size_of :: "Heap \<Rightarrow> int" where
  "heap_size_of h = heap_size h"

definition heap_empty :: "Heap \<Rightarrow> bool" where
  "heap_empty h \<longleftrightarrow> heap_size h = 0"

declare upheap.simps [simp del] downheap.simps [simp del]

section \<open>The same algorithm on lists\<close>

text \<open>
  The order of the heap: remaining time first, pid where the times are equal. It is a linear order
  on pairs of the two fields.
\<close>

datatype job_key = Key (key_time: int) (key_pid: int)

instantiation job_key :: linorder
begin

definition less_job_key :: "job_key \<Rightarrow> job_key \<Rightarrow> bool" where
  "less_job_key a b \<longleftrightarrow>
     (if key_time a = key_time b then key_pid a < key_pid b else key_time a < key_time b)"

definition less_eq_job_key :: "job_key \<Rightarrow> job_key \<Rightarrow> bool" where
  "less_eq_job_key a b \<longleftrightarrow> a < b \<or> a = b"

instance
  by standard
    (auto simp: less_job_key_def less_eq_job_key_def split: if_splits intro: job_key.expand)

end

definition key_of :: "world \<Rightarrow> nat \<Rightarrow> job_key" where
  "key_of w i = Key (remaining_time (procs w ! i)) (pid (procs w ! i))"

definition par :: "nat \<Rightarrow> nat" where
  "par i = (i - 1) div 2"

lemma par_less [simp]: "0 < i \<Longrightarrow> par i < i"
  by (simp add: par_def)

lemma par_bound [simp]: "i < n \<Longrightarrow> par i < n"
  by (simp add: par_def)

lemma par_eq_iff: "0 < j \<and> par j = p \<longleftrightarrow> j = 2 * p + 1 \<or> j = 2 * p + 2"
  by (auto simp: par_def)

function up :: "('a \<Rightarrow> 'k::linorder) \<Rightarrow> 'a list \<Rightarrow> nat \<Rightarrow> 'a list" where
  "up k xs i =
     (if 0 < i \<and> k (xs ! i) < k (xs ! par i) then up k (lswap xs (par i) i) (par i) else xs)"
  by pat_completeness auto
termination
  by (relation "measure (\<lambda>(k, xs, i). i)") auto

definition min_child :: "('a \<Rightarrow> 'k::linorder) \<Rightarrow> 'a list \<Rightarrow> nat \<Rightarrow> nat" where
  "min_child k xs p =
     (let l = 2 * p + 1; r = 2 * p + 2;
          m = (if l < length xs \<and> k (xs ! l) < k (xs ! p) then l else p)
      in if r < length xs \<and> k (xs ! r) < k (xs ! m) then r else m)"

lemma min_child_bounds:
  "min_child k xs p \<noteq> p \<Longrightarrow> p < min_child k xs p \<and> min_child k xs p < length xs"
  by (auto simp: min_child_def Let_def split: if_splits)

function down :: "('a \<Rightarrow> 'k::linorder) \<Rightarrow> 'a list \<Rightarrow> nat \<Rightarrow> 'a list" where
  "down k xs p =
     (let m = min_child k xs p in if m = p then xs else down k (lswap xs p m) m)"
  by pat_completeness auto
termination
  by (relation "measure (\<lambda>(k, xs, p). length xs - p)")
    (use min_child_bounds in \<open>fastforce+\<close>)

declare up.simps [simp del] down.simps [simp del]

definition list_insert :: "('a \<Rightarrow> 'k::linorder) \<Rightarrow> 'a list \<Rightarrow> 'a \<Rightarrow> 'a list" where
  "list_insert k xs x = up k (xs @ [x]) (length xs)"

definition list_pop :: "('a \<Rightarrow> 'k::linorder) \<Rightarrow> 'a list \<Rightarrow> 'a list" where
  "list_pop k xs = down k (butlast (lswap xs (length xs - 1) 0)) 0"

definition is_heap :: "('a \<Rightarrow> 'k::linorder) \<Rightarrow> 'a list \<Rightarrow> bool" where
  "is_heap k xs \<longleftrightarrow> (\<forall>i < length xs. 0 < i \<longrightarrow> k (xs ! par i) \<le> k (xs ! i))"

lemma up_length [simp]: "length (up k xs i) = length xs"
  by (induction k xs i rule: up.induct) (subst up.simps, auto)

lemma up_mset: "i < length xs \<Longrightarrow> mset (up k xs i) = mset xs"
proof (induction k xs i rule: up.induct)
  case (1 k xs i)
  then show ?case by (subst up.simps) auto
qed

lemma down_length [simp]: "length (down k xs p) = length xs"
  by (induction k xs p rule: down.induct) (subst down.simps, auto simp: Let_def)

lemma down_mset: "p < length xs \<Longrightarrow> mset (down k xs p) = mset xs"
proof (induction k xs p rule: down.induct)
  case (1 k xs p)
  then show ?case
    using min_child_bounds [of k xs p] by (subst down.simps) (auto simp: Let_def)
qed

text \<open>
  While an element rises from position \<open>i\<close>, the heap order holds everywhere but between \<open>i\<close> and
  its parent, and the children of \<open>i\<close> are not below that parent.
\<close>

definition rising :: "('a \<Rightarrow> 'k::linorder) \<Rightarrow> 'a list \<Rightarrow> nat \<Rightarrow> bool" where
  "rising k xs i \<longleftrightarrow>
     (\<forall>j < length xs. 0 < j \<longrightarrow> j \<noteq> i \<longrightarrow> k (xs ! par j) \<le> k (xs ! j)) \<and>
     (\<forall>j < length xs. 0 < j \<longrightarrow> par j = i \<longrightarrow> 0 < i \<longrightarrow> k (xs ! par i) \<le> k (xs ! j))"

lemma rising_swap:
  assumes r: "rising k xs i" and i: "0 < i" "i < length xs" and lt: "k (xs ! i) < k (xs ! par i)"
  shows "rising k (lswap xs (par i) i) (par i)"
proof -
  let ?p = "par i" let ?ys = "lswap xs ?p i"
  have p: "?p < length xs" "?p < i" using i par_less [OF i(1)] by linarith+
  have ys: "\<And>n. n < length xs \<Longrightarrow>
      ?ys ! n = (if n = i then xs ! ?p else if n = ?p then xs ! i else xs ! n)"
    using nth_lswap [OF p(1) i(2)] by simp
  have r1: "\<And>j. j < length xs \<Longrightarrow> 0 < j \<Longrightarrow> j \<noteq> i \<Longrightarrow> k (xs ! par j) \<le> k (xs ! j)"
    and r2: "\<And>j. j < length xs \<Longrightarrow> 0 < j \<Longrightarrow> par j = i \<Longrightarrow> k (xs ! ?p) \<le> k (xs ! j)"
    using r i(1) by (auto simp: rising_def)
  have a: "k (?ys ! par j) \<le> k (?ys ! j)" if j: "j < length xs" "0 < j" "j \<noteq> ?p" for j
  proof -
    have "par j < length xs" "par j \<noteq> j" using par_less [OF j(2)] j(1) by linarith+
    moreover have "par j = ?p \<Longrightarrow> j \<noteq> i \<Longrightarrow> k (xs ! i) \<le> k (xs ! j)"
      using r1 [OF j(1,2)] lt by (simp add: order_less_imp_le order.trans)
    ultimately show ?thesis
      using j lt r1 [OF j(1,2)] r2 [OF j(1,2)] p by (auto simp: ys)
  qed
  have b: "k (?ys ! par ?p) \<le> k (?ys ! j)"
    if j: "j < length xs" "0 < j" "par j = ?p" "0 < ?p" for j
  proof -
    have pp: "par ?p < length xs" "par ?p \<noteq> i" "par ?p \<noteq> ?p"
      using p par_less [OF j(4)] by linarith+
    have "k (xs ! par ?p) \<le> k (xs ! ?p)" using r1 [of ?p] p j(4) by auto
    moreover have "j \<noteq> i \<Longrightarrow> k (xs ! ?p) \<le> k (xs ! j)" using r1 [OF j(1,2)] j(3) by simp
    moreover have "j \<noteq> ?p" using j par_less [OF j(2)] by auto
    ultimately show ?thesis using j pp by (auto simp: ys)
  qed
  show ?thesis using a b by (simp add: rising_def)
qed

lemma up_is_heap: "rising k xs i \<Longrightarrow> i < length xs \<Longrightarrow> is_heap k (up k xs i)"
proof (induction k xs i rule: up.induct)
  case (1 k xs i)
  show ?case
  proof (cases "0 < i \<and> k (xs ! i) < k (xs ! par i)")
    case True
    with 1 rising_swap [of k xs i] show ?thesis by (subst up.simps) auto
  next
    case False
    with 1 show ?thesis
      by (subst up.simps) (auto simp: rising_def is_heap_def not_less)
  qed
qed

lemma list_insert_is_heap:
  assumes "is_heap k xs"
  shows "is_heap k (list_insert k xs x)"
  unfolding list_insert_def
proof (rule up_is_heap)
  have b: "par j < length xs" if "j < Suc (length xs)" "0 < j" for j
    using par_less [OF that(2)] that(1) by simp
  have "k ((xs @ [x]) ! par j) \<le> k ((xs @ [x]) ! j)" if "j < length xs" "0 < j" for j
    using assms that b [of j] by (simp add: is_heap_def nth_append)
  moreover have "par j \<noteq> length xs" if "j < Suc (length xs)" "0 < j" for j
    using b [OF that] by simp
  ultimately show "rising k (xs @ [x]) (length xs)"
    unfolding rising_def length_append by simp
qed simp

lemma list_insert_mset: "mset (list_insert k xs x) = add_mset x (mset xs)"
  by (simp add: list_insert_def up_mset)

lemma is_heap_root:
  assumes "is_heap k xs" "i < length xs"
  shows "k (xs ! 0) \<le> k (xs ! i)"
  using assms(2)
proof (induction i rule: less_induct)
  case (less i)
  show ?case
  proof (cases "i = 0")
    case False
    then have "k (xs ! 0) \<le> k (xs ! par i)"
      using less.IH [of "par i"] less.prems par_less [of i] by simp
    also have "\<dots> \<le> k (xs ! i)" using assms(1) less.prems False by (simp add: is_heap_def)
    finally show ?thesis .
  qed simp
qed

text \<open>
  While an element sinks from position \<open>p\<close>, the heap order holds everywhere but between \<open>p\<close> and
  its children, and these are not below the parent of \<open>p\<close>.
\<close>

definition sinking :: "('a \<Rightarrow> 'k::linorder) \<Rightarrow> 'a list \<Rightarrow> nat \<Rightarrow> bool" where
  "sinking k xs p \<longleftrightarrow>
     (\<forall>j < length xs. 0 < j \<longrightarrow> par j \<noteq> p \<longrightarrow> k (xs ! par j) \<le> k (xs ! j)) \<and>
     (\<forall>j < length xs. 0 < j \<longrightarrow> par j = p \<longrightarrow> 0 < p \<longrightarrow> k (xs ! par p) \<le> k (xs ! j))"

lemma min_child_min:
  "k (xs ! min_child k xs p) \<le> k (xs ! p)"
  "j < length xs \<Longrightarrow> 0 < j \<Longrightarrow> par j = p \<Longrightarrow> k (xs ! min_child k xs p) \<le> k (xs ! j)"
  using par_eq_iff [of j p] by (auto simp: min_child_def Let_def)

lemma min_child_par: "min_child k xs p \<noteq> p \<Longrightarrow> par (min_child k xs p) = p"
  by (auto simp: min_child_def Let_def par_def split: if_splits)

lemma sinking_swap:
  assumes s: "sinking k xs p" and p: "p < length xs" and m: "m = min_child k xs p" "m \<noteq> p"
  shows "sinking k (lswap xs p m) m"
proof -
  let ?ys = "lswap xs p m"
  have b: "p < m" "m < length xs" "par m = p"
    using min_child_bounds [of k xs p] min_child_par [of k xs p] m by auto
  have ys: "\<And>n. n < length xs \<Longrightarrow>
      ?ys ! n = (if n = m then xs ! p else if n = p then xs ! m else xs ! n)"
    using nth_lswap [OF p b(2)] by simp
  have s1: "\<And>j. j < length xs \<Longrightarrow> 0 < j \<Longrightarrow> par j \<noteq> p \<Longrightarrow> k (xs ! par j) \<le> k (xs ! j)"
    and s2: "0 < p \<Longrightarrow> k (xs ! par p) \<le> k (xs ! m)"
    using s b by (auto simp: sinking_def)
  have le: "k (xs ! m) \<le> k (xs ! p)"
    and mc: "\<And>j. j < length xs \<Longrightarrow> 0 < j \<Longrightarrow> par j = p \<Longrightarrow> k (xs ! m) \<le> k (xs ! j)"
    using min_child_min [where k = k and xs = xs] m by auto
  have a: "k (?ys ! par j) \<le> k (?ys ! j)" if j: "j < length xs" "0 < j" "par j \<noteq> m" for j
  proof (cases "j = m")
    case True
    with b le j show ?thesis by (simp add: ys)
  next
    case False
    have "par p \<noteq> p" if "0 < p" using par_less [OF that] by simp
    with False j b s1 [OF j(1,2)] s2 mc [OF j(1,2)] show ?thesis
      using par_bound [OF j(1)] by (auto simp: ys)
  qed
  have c: "k (?ys ! par m) \<le> k (?ys ! j)" if j: "j < length xs" "0 < j" "par j = m" for j
  proof -
    have "m < j" using par_less [OF j(2)] j(3) by simp
    then show ?thesis using s1 [OF j(1,2)] j b by (simp add: ys)
  qed
  show ?thesis using a c by (simp add: sinking_def)
qed

lemma down_is_heap: "sinking k xs p \<Longrightarrow> p < length xs \<Longrightarrow> is_heap k (down k xs p)"
proof (induction k xs p rule: down.induct)
  case (1 k xs p)
  show ?case
  proof (cases "min_child k xs p = p")
    case True
    have "is_heap k xs"
      using 1(2) min_child_min(2) [where k = k and xs = xs and p = p] True
      by (auto simp: is_heap_def sinking_def)
    with True show ?thesis by (subst down.simps) simp
  next
    case False
    with 1 sinking_swap [of k xs p] min_child_bounds [OF False] show ?thesis
      by (subst down.simps) (simp add: Let_def)
  qed
qed

lemma down_mset_root: "mset (down k xs 0) = mset xs"
  by (cases "xs = []") (auto simp: down_mset down.simps [of k "[]" 0] min_child_def)

lemma list_pop_length [simp]: "length (list_pop k xs) = length xs - 1"
  by (simp add: list_pop_def)

lemma list_pop_mset: "xs \<noteq> [] \<Longrightarrow> mset (list_pop k xs) = mset xs - {# xs ! 0 #}"
proof -
  assume ne: "xs \<noteq> []"
  let ?ys = "lswap xs (length xs - 1) 0"
  have "?ys \<noteq> []" "last ?ys = xs ! 0"
    using ne by (auto simp: lswap_def last_conv_nth nth_list_update)
  then have "mset ?ys = add_mset (xs ! 0) (mset (butlast ?ys))"
    by (metis append_butlast_last_id mset.simps(2) mset_append union_mset_add_mset_right
        mset.simps(1) add.right_neutral)
  moreover have "mset ?ys = mset xs" using ne by simp
  moreover have "mset (list_pop k xs) = mset (butlast ?ys)"
    by (simp add: list_pop_def down_mset_root)
  ultimately show ?thesis by (metis add_mset_remove_trivial)
qed

lemma list_pop_is_heap: "is_heap k xs \<Longrightarrow> is_heap k (list_pop k xs)"
proof (cases "length xs \<le> 1")
  case False
  assume h: "is_heap k xs"
  let ?zs = "butlast (lswap xs (length xs - 1) 0)"
  have zs: "?zs ! j = xs ! j" if "0 < j" "j < length xs - 1" for j
    using that nth_lswap [of "length xs - 1" xs 0 j] by (cases xs) (auto simp: nth_butlast)
  have "sinking k ?zs 0"
    using h zs by (auto simp: sinking_def is_heap_def)
  then show ?thesis
    unfolding list_pop_def using False by (intro down_is_heap) auto
next
  case True
  then have "length (list_pop k xs) = 0" by simp
  then show ?thesis by (auto simp: is_heap_def)
qed

section \<open>The C functions refine the list functions\<close>

text \<open>
  \<open>heap_holds w h xs\<close>: the heap \<open>h\<close> stores exactly pointers to the processes \<open>xs\<close>, in this
  order. The capacity bound keeps the index arithmetic of \<^verbatim>\<open>lchild\<close> within \<^verbatim>\<open>int\<close>.
\<close>

definition heap_holds :: "world \<Rightarrow> Heap \<Rightarrow> nat list \<Rightarrow> bool" where
  "heap_holds w h xs \<longleftrightarrow> holds (pq h) (map At xs) \<and> heap_size h = int (length xs) \<and>
     length (pq h) \<le> 1073741824 \<and> (\<forall>i \<in> set xs. i < length (procs w))"

lemma heap_holds_bound: "heap_holds w h xs \<Longrightarrow> length xs \<le> 1073741824"
  by (auto simp: heap_holds_def dest: holds_length)

lemma heap_element_lt_holds:
  assumes "holds (pq h) (map At xs)" "\<forall>i \<in> set xs. i < length (procs w)"
    "i < length xs" "j < length xs"
  shows "heap_element_lt w h (int i) (int j) = Inr (key_of w (xs ! i) < key_of w (xs ! j))"
  using assms holds_aread [OF assms(1), of i] holds_aread [OF assms(1), of j]
  by (simp add: heap_element_lt_def key_of_def less_job_key_def)

lemma heap_swap_holds:
  assumes "holds (pq h) (map At xs)" "i < length xs" "j < length xs"
  obtains a where "heap_swap h (int i) (int j) = Inr (h\<lparr>pq := a\<rparr>)"
    "holds a (map At (lswap xs i j))" "length a = length (pq h)"
proof
  let ?a = "(pq h)[i := Some (At (xs ! j)), j := Some (At (xs ! i))]"
  have len: "i < length (pq h)" "j < length (pq h)"
    using assms holds_length [OF assms(1)] by auto
  then show "heap_swap h (int i) (int j) = Inr (h\<lparr>pq := ?a\<rparr>)"
    using assms holds_aread [OF assms(1), of i] holds_aread [OF assms(1), of j]
    by (simp add: heap_swap_def awrite_Inr)
  show "holds ?a (map At (lswap xs i j))"
    using holds_update [OF holds_update [OF assms(1)]] assms(2,3)
    by (simp add: lswap_def map_update)
  show "length ?a = length (pq h)" by simp
qed

lemma cint_index: "i \<le> 2147483647 \<Longrightarrow> cint (int i) = Inr (int i)"
  by (simp add: cint_def in_int_def)

lemma int_par: "0 < i \<Longrightarrow> (int i - 1) sdiv 2 = int (par i)"
  by (simp add: sdiv_nonneg par_def zdiv_int of_nat_diff)

lemma upheap_refines:
  assumes "heap_holds w h xs" "i < length xs"
  obtains a where "upheap w h (int i) = Inr (h\<lparr>pq := a\<rparr>)"
    "heap_holds w (h\<lparr>pq := a\<rparr>) (up (key_of w) xs i)" "length a = length (pq h)"
  using assms
proof (induction "key_of w" xs i arbitrary: h thesis rule: up.induct)
  case (1 xs i)
  have c: "cint (int i - 1) = Inr (int i - 1)"
    using heap_holds_bound [OF 1(3)] 1(4) by (simp add: cint_def in_int_def)
  show ?case
  proof (cases "0 < i \<and> key_of w (xs ! i) < key_of w (xs ! par i)")
    case False
    then have "upheap w h (int i) = Inr (h\<lparr>pq := pq h\<rparr>)"
      using c 1(3,4) heap_element_lt_holds [of h xs w i "par i"]
      by (subst upheap.simps) (auto simp: int_par heap_holds_def Let_def)
    with False 1(3) show ?thesis using 1(2) [of "pq h"] by (auto simp: up.simps [of _ xs i])
  next
    case True
    obtain a where a: "heap_swap h (int (par i)) (int i) = Inr (h\<lparr>pq := a\<rparr>)"
      "holds a (map At (lswap xs (par i) i))" "length a = length (pq h)"
      using heap_swap_holds [of h xs "par i" i] 1(3,4) True by (auto simp: heap_holds_def)
    have hh: "heap_holds w (h\<lparr>pq := a\<rparr>) (lswap xs (par i) i)"
      using 1(3,4) a True by (auto simp: heap_holds_def)
    obtain a' where a': "upheap w (h\<lparr>pq := a\<rparr>) (int (par i)) = Inr (h\<lparr>pq := a'\<rparr>)"
      "heap_holds w (h\<lparr>pq := a'\<rparr>) (up (key_of w) (lswap xs (par i) i) (par i))"
      "length a' = length (pq h)"
      using 1(1) [OF True _ hh] 1(4) a(3) by auto
    have "upheap w h (int i) = upheap w (h\<lparr>pq := a\<rparr>) (int (par i))"
      using c True a(1) 1(3,4) heap_element_lt_holds [of h xs w i "par i"]
      by (subst upheap.simps) (simp add: int_par heap_holds_def)
    with a' True show ?thesis using 1(2) [of a'] by (simp add: up.simps [of _ xs i])
  qed
qed

lemma heap_insert_refines:
  assumes "heap_holds w h xs" "i < length (procs w)" "length xs < length (pq h)"
  obtains h' where "heap_insert w h (At i) = Inr h'"
    "heap_holds w h' (list_insert (key_of w) xs i)" "length (pq h') = length (pq h)"
proof -
  let ?n = "length xs" and ?g = "h\<lparr>pq := (pq h)[length xs := Some (At i)], heap_size := int (length xs) + 1\<rparr>"
  have c: "cint (int ?n + 1) = Inr (int ?n + 1)"
    using heap_holds_bound [OF assms(1)] by (simp add: cint_def in_int_def)
  have g: "heap_holds w ?g (xs @ [i])"
    using assms holds_append_one [of "pq h" "map At xs" "At i"] by (simp add: heap_holds_def)
  obtain a where a: "upheap w ?g (int ?n) = Inr (?g\<lparr>pq := a\<rparr>)"
    "heap_holds w (?g\<lparr>pq := a\<rparr>) (up (key_of w) (xs @ [i]) ?n)" "length a = length (pq ?g)"
    using upheap_refines [OF g, of ?n] by auto
  have "heap_insert w h (At i) = Inr (?g\<lparr>pq := a\<rparr>)"
    using a(1) assms c by (simp add: heap_insert_def heap_holds_def awrite_Inr)
  with a show ?thesis using that by (simp add: list_insert_def)
qed

lemma downheap_minIdx_refines:
  assumes "heap_holds w h xs" "2 * p + 1 < length xs"
  shows "downheap_minIdx w h (int p) = Inr (int (min_child (key_of w) xs p))"
proof -
  let ?l = "2 * p + 1" and ?r = "2 * p + 2"
  have b: "lchild (int p) = Inr (int ?l)" "rchild (int p) = Inr (int ?r)"
    using heap_holds_bound [OF assms(1)] assms(2)
    by (simp_all add: lchild_def rchild_def cint_def in_int_def)
  have lt: "\<And>i j. i < length xs \<Longrightarrow> j < length xs \<Longrightarrow>
      heap_element_lt w h (int i) (int j) = Inr (key_of w (xs ! i) < key_of w (xs ! j))"
    using assms(1) heap_element_lt_holds by (auto simp: heap_holds_def)
  have n: "heap_size h = int (length xs)" using assms(1) by (simp add: heap_holds_def)
  show ?thesis
    using assms(2) lt [of ?l p] lt [of ?r ?l] lt [of ?r p]
    by (auto simp: downheap_minIdx_def b min_child_def Let_def n simp del: of_nat_add of_nat_mult)
qed

lemma min_child_leaf: "length xs \<le> 2 * p + 1 \<Longrightarrow> min_child k xs p = p"
  by (simp add: min_child_def)

lemma downheap_refines:
  assumes "heap_holds w h xs" "p < length xs \<or> p = 0"
  obtains a where "downheap w h (int p) = Inr (h\<lparr>pq := a\<rparr>)"
    "heap_holds w (h\<lparr>pq := a\<rparr>) (down (key_of w) xs p)" "length a = length (pq h)"
  using assms
proof (induction "key_of w" xs p arbitrary: h thesis rule: down.induct)
  case (1 xs p)
  let ?m = "min_child (key_of w) xs p"
  have l: "lchild (int p) = Inr (int (2 * p + 1))"
    using heap_holds_bound [OF 1(3)] 1(4) by (auto simp: lchild_def cint_def in_int_def)
  have n: "heap_size h = int (length xs)" using 1(3) by (simp add: heap_holds_def)
  show ?case
  proof (cases "?m = p")
    case True
    then have "downheap w h (int p) = Inr (h\<lparr>pq := pq h\<rparr>)"
      using l n downheap_minIdx_refines [OF 1(3), of p]
      by (subst downheap.simps) (auto simp del: of_nat_add of_nat_mult)
    with True 1(3) show ?thesis using 1(2) [of "pq h"] by (simp add: down.simps [of _ xs p])
  next
    case False
    have m: "p < ?m" "?m < length xs" "2 * p + 1 < length xs"
      using min_child_bounds [OF False] False min_child_leaf [of xs p "key_of w"]
      by (auto simp: not_less [symmetric])
    obtain a where a: "heap_swap h (int p) (int ?m) = Inr (h\<lparr>pq := a\<rparr>)"
      "holds a (map At (lswap xs p ?m))" "length a = length (pq h)"
      using heap_swap_holds [of h xs p ?m] 1(3) m by (auto simp: heap_holds_def)
    have hh: "heap_holds w (h\<lparr>pq := a\<rparr>) (lswap xs p ?m)"
      using 1(3) a m by (auto simp: heap_holds_def)
    obtain a' where a': "downheap w (h\<lparr>pq := a\<rparr>) (int ?m) = Inr (h\<lparr>pq := a'\<rparr>)"
      "heap_holds w (h\<lparr>pq := a'\<rparr>) (down (key_of w) (lswap xs p ?m) ?m)"
      "length a' = length (pq h)"
      using 1(1) [OF refl False _ hh] m a(3) by auto
    have "downheap w h (int p) = downheap w (h\<lparr>pq := a\<rparr>) (int ?m)"
      using l n m a(1) False downheap_minIdx_refines [OF 1(3) m(3)]
      by (subst downheap.simps) (simp del: of_nat_add of_nat_mult)
    with a' False show ?thesis using 1(2) [of a'] by (simp add: down.simps [of _ xs p] Let_def)
  qed
qed

lemma heap_pop_refines:
  assumes "heap_holds w h xs" "xs \<noteq> []"
  obtains h' where "heap_pop w h = Inr h'" "heap_holds w h' (list_pop (key_of w) xs)"
    "length (pq h') = length (pq h)"
proof -
  let ?n = "length xs - 1" let ?ys = "lswap xs ?n 0" let ?g = "h\<lparr>heap_size := int ?n\<rparr>"
  have n: "heap_size h - 1 = int ?n" "cint (int ?n) = Inr (int ?n)"
    using assms heap_holds_bound [OF assms(1)]
    by (auto simp: heap_holds_def of_nat_diff Suc_leI cint_def in_int_def)
  obtain a where a: "heap_swap ?g (int ?n) (int 0) = Inr (?g\<lparr>pq := a\<rparr>)"
    "holds a (map At ?ys)" "length a = length (pq h)"
    using heap_swap_holds [of ?g xs ?n 0] assms by (auto simp: heap_holds_def)
  have g: "heap_holds w (?g\<lparr>pq := a\<rparr>) (butlast ?ys)"
    using assms a holds_butlast [OF a(2)]
    by (auto simp: heap_holds_def map_butlast dest!: in_set_butlastD)
  obtain a' where a': "downheap w (?g\<lparr>pq := a\<rparr>) (int 0) = Inr (?g\<lparr>pq := a'\<rparr>)"
    "heap_holds w (?g\<lparr>pq := a'\<rparr>) (down (key_of w) (butlast ?ys) 0)" "length a' = length a"
    using downheap_refines [OF g, of 0] by auto
  have "heap_pop w h = Inr (?g\<lparr>pq := a'\<rparr>)"
    using n a(1) a'(1) by (simp add: heap_pop_def)
  with a a' show ?thesis using that by (simp add: list_pop_def)
qed

lemma heap_top_refines:
  "heap_holds w h xs \<Longrightarrow> xs \<noteq> [] \<Longrightarrow> heap_top h = Inr (At (xs ! 0))"
  using holds_aread [of "pq h" "map At xs" 0] by (simp add: heap_top_def heap_holds_def)

section \<open>The contract of the priority queue\<close>

text \<open>
  What the schedulers rely on. The store is an argument of the operations that compare elements;
  \<open>valid\<close> says which elements may be inserted, \<open>room\<close> how many more fit.
\<close>

locale priority_queue =
  fixes insert :: "'w \<Rightarrow> 'q \<Rightarrow> 'a \<Rightarrow> 'q res"
    and top :: "'q \<Rightarrow> 'a res"
    and pop :: "'w \<Rightarrow> 'q \<Rightarrow> 'q res"
    and is_empty :: "'q \<Rightarrow> bool"
    and inv :: "'w \<Rightarrow> 'q \<Rightarrow> bool"
    and elems :: "'q \<Rightarrow> 'a multiset"
    and capacity :: "'q \<Rightarrow> nat"
    and valid :: "'w \<Rightarrow> 'a \<Rightarrow> bool"
    and key :: "'w \<Rightarrow> 'a \<Rightarrow> 'k::linorder"
  assumes insert_ok: "inv w q \<Longrightarrow> valid w x \<Longrightarrow> size (elems q) < capacity q \<Longrightarrow>
      \<exists>q'. insert w q x = Inr q' \<and> inv w q' \<and> elems q' = add_mset x (elems q) \<and>
           capacity q' = capacity q"
    and top_ok: "inv w q \<Longrightarrow> elems q \<noteq> {#} \<Longrightarrow>
      \<exists>x. top q = Inr x \<and> valid w x \<and> x \<in># elems q \<and> (\<forall>y \<in># elems q. key w x \<le> key w y)"
    and pop_ok: "inv w q \<Longrightarrow> elems q \<noteq> {#} \<Longrightarrow> top q = Inr x \<Longrightarrow>
      \<exists>q'. pop w q = Inr q' \<and> inv w q' \<and> elems q' = elems q - {#x#} \<and> capacity q' = capacity q"
    and is_empty_iff: "inv w q \<Longrightarrow> is_empty q \<longleftrightarrow> elems q = {#}"

text \<open>Taking the top out again and again, as a scheduler that runs one job after the other does.\<close>

fun drain :: "('q \<Rightarrow> 'a res) \<Rightarrow> ('w \<Rightarrow> 'q \<Rightarrow> 'q res) \<Rightarrow> nat \<Rightarrow> 'w \<Rightarrow> 'q \<Rightarrow> 'a list res" where
  "drain tp pp 0 w q = Inr []"
| "drain tp pp (Suc n) w q =
     bindR (tp q) (\<lambda>x. bindR (pp w q) (\<lambda>q'. bindR (drain tp pp n w q') (\<lambda>xs. Inr (x # xs))))"

text \<open>Inserting a list of elements.\<close>

fun insert_all :: "('w \<Rightarrow> 'q \<Rightarrow> 'a \<Rightarrow> 'q res) \<Rightarrow> 'w \<Rightarrow> 'q \<Rightarrow> 'a list \<Rightarrow> 'q res" where
  "insert_all ins w q [] = Inr q"
| "insert_all ins w q (x # xs) = bindR (ins w q x) (\<lambda>q'. insert_all ins w q' xs)"

context priority_queue
begin

lemma drain_sorted:
  assumes "inv w q" "n = size (elems q)"
  shows "\<exists>xs. drain top pop n w q = Inr xs \<and> mset xs = elems q \<and> sorted (map (key w) xs)"
  using assms
proof (induction n arbitrary: q)
  case 0
  then show ?case by simp
next
  case (Suc n)
  then have ne: "elems q \<noteq> {#}" by auto
  obtain x where x: "top q = Inr x" "x \<in># elems q" "\<forall>y \<in># elems q. key w x \<le> key w y"
    using top_ok [OF Suc.prems(1) ne] by auto
  obtain q' where q': "pop w q = Inr q'" "inv w q'" "elems q' = elems q - {#x#}"
    using pop_ok [OF Suc.prems(1) ne x(1)] by auto
  have "n = size (elems q')" using Suc.prems(2) q'(3) x(2) by (simp add: size_Diff_singleton)
  then obtain xs where xs: "drain top pop n w q' = Inr xs" "mset xs = elems q'"
    "sorted (map (key w) xs)" using Suc.IH [OF q'(2)] by auto
  have "\<forall>y \<in> set xs. key w x \<le> key w y"
    using xs(2) q'(3) x(3) by (metis in_diffD set_mset_mset)
  with x xs q' show ?case by simp
qed

lemma insert_all_ok:
  "inv w q \<Longrightarrow> \<forall>x \<in> set xs. valid w x \<Longrightarrow> size (elems q) + length xs \<le> capacity q \<Longrightarrow>
   \<exists>q'. insert_all insert w q xs = Inr q' \<and> inv w q' \<and> elems q' = mset xs + elems q \<and>
     capacity q' = capacity q"
proof (induction xs arbitrary: q)
  case (Cons x xs)
  then obtain q' where "insert w q x = Inr q'" "inv w q'" "elems q' = add_mset x (elems q)"
    "capacity q' = capacity q"
    using insert_ok [of w q x] by auto
  with Cons.IH [of q'] Cons.prems show ?case by auto
qed simp

lemma insert_drain_sorts:
  assumes "inv w q" "elems q = {#}" "\<forall>x \<in> set xs. valid w x" "length xs \<le> capacity q"
  shows "\<exists>q' ys. insert_all insert w q xs = Inr q' \<and> drain top pop (length xs) w q' = Inr ys \<and>
     mset ys = mset xs \<and> sorted (map (key w) ys)"
proof -
  obtain q' where q': "insert_all insert w q xs = Inr q'" "inv w q'" "elems q' = mset xs"
    using insert_all_ok [OF assms(1,3)] assms(2,4) by auto
  with drain_sorted [of w q' "length xs"] show ?thesis by auto
qed

end

section \<open>The heap of the program is a priority queue\<close>

definition heap_list :: "Heap \<Rightarrow> nat list" where
  "heap_list h = ptr_indices (pq h) (heap_size h)"

definition heap_inv :: "world \<Rightarrow> Heap \<Rightarrow> bool" where
  "heap_inv w h \<longleftrightarrow> heap_holds w h (heap_list h) \<and> is_heap (key_of w) (heap_list h)"

definition heap_elems :: "Heap \<Rightarrow> ptr multiset" where
  "heap_elems h = mset (map At (heap_list h))"

definition valid_ptr :: "world \<Rightarrow> ptr \<Rightarrow> bool" where
  "valid_ptr w p \<longleftrightarrow> (case p of Null \<Rightarrow> False | At i \<Rightarrow> i < length (procs w))"

definition ptr_key :: "world \<Rightarrow> ptr \<Rightarrow> job_key" where
  "ptr_key w p = (case p of Null \<Rightarrow> Key 0 0 | At i \<Rightarrow> key_of w i)"

lemma heap_list_mset: "heap_elems h = mset (map At xs) \<Longrightarrow> mset (heap_list h) = mset xs"
  unfolding heap_elems_def mset_map
  by (rule injD [OF multiset.inj_map]) (auto simp: inj_def)

lemma mset_map_At:
  assumes "mset ps = mset (map At xs)"
  obtains ys where "ps = map At ys" "mset ys = mset xs"
proof -
  define ys where "ys = map (\<lambda>p. case p of Null \<Rightarrow> 0 | At i \<Rightarrow> i) ps"
  have "set ps = At ` set xs" using mset_eq_setD [OF assms] by simp
  then have *: "ps = map At ys" unfolding ys_def by (auto simp: comp_def intro!: map_idI [symmetric])
  with assms have "image_mset At (mset ys) = image_mset At (mset xs)" by simp
  then have "mset ys = mset xs" by (rule injD [OF multiset.inj_map, rotated]) (simp add: inj_def)
  with * that show ?thesis by blast
qed

lemma heap_holds_list: "heap_holds w h xs \<Longrightarrow> heap_list h = xs"
  by (simp add: heap_holds_def heap_list_def ptr_indices_holds)

lemma heap_size_list: "heap_inv w h \<Longrightarrow> heap_size h = int (length (heap_list h))"
  by (simp add: heap_inv_def heap_holds_def)

lemma heap_invI: "heap_holds w h xs \<Longrightarrow> is_heap (key_of w) xs \<Longrightarrow> heap_inv w h"
  using heap_holds_list by (auto simp: heap_inv_def)

text \<open>The invariant only looks at the processes in the heap.\<close>

lemma is_heap_cong:
  assumes "\<And>i. i \<in> set xs \<Longrightarrow> k i = k' i"
  shows "is_heap k xs = is_heap k' xs"
  using assms by (auto simp: is_heap_def)

lemma heap_inv_cong:
  assumes "heap_inv w h" "length (procs w') = length (procs w)"
    "\<And>i. i \<in> set (heap_list h) \<Longrightarrow> procs w' ! i = procs w ! i"
  shows "heap_inv w' h"
  using assms is_heap_cong [of "heap_list h" "key_of w'" "key_of w"]
  by (simp add: heap_inv_def heap_holds_def key_of_def)

lemma heap_inv_prio [simp]: "heap_inv (w\<lparr>prio := f\<rparr>) h = heap_inv w h"
  by (auto intro: heap_inv_cong)

lemma heap_init_inv:
  "0 \<le> n \<Longrightarrow> n \<le> 1073741824 \<Longrightarrow> heap_inv w (heap_init n) \<and> heap_list (heap_init n) = []"
  by (simp add: heap_inv_def heap_list_def ptr_indices_def heap_init_def heap_holds_def is_heap_def)

interpretation heap: priority_queue heap_insert heap_top heap_pop heap_empty heap_inv heap_elems
  "\<lambda>h. length (pq h)" valid_ptr ptr_key
proof (unfold_locales, goal_cases)
  case (1 w h p)
  then obtain i where i: "p = At i" "i < length (procs w)"
    by (auto simp: valid_ptr_def split: ptr.splits)
  obtain h' where "heap_insert w h (At i) = Inr h'"
    "heap_holds w h' (list_insert (key_of w) (heap_list h) i)" "length (pq h') = length (pq h)"
    using heap_insert_refines [of w h "heap_list h" i] 1 i by (auto simp: heap_inv_def heap_elems_def)
  then show ?case
    using 1(1) i(1) heap_invI list_insert_is_heap heap_holds_list [of w h']
    by (auto simp: heap_inv_def heap_elems_def list_insert_mset)
next
  case (2 w h)
  then have ne: "heap_list h \<noteq> []" "heap_holds w h (heap_list h)" "is_heap (key_of w) (heap_list h)"
    by (auto simp: heap_inv_def heap_elems_def)
  then have "heap_list h ! 0 \<in> set (heap_list h)" by simp
  with ne heap_top_refines [OF ne(2,1)] show ?case
    by (auto simp: heap_elems_def valid_ptr_def ptr_key_def heap_holds_def in_set_conv_nth
        intro!: is_heap_root)
next
  case (3 w h x)
  then have ne: "heap_list h \<noteq> []" "heap_holds w h (heap_list h)" "is_heap (key_of w) (heap_list h)"
    by (auto simp: heap_inv_def heap_elems_def)
  obtain h' where h': "heap_pop w h = Inr h'" "heap_holds w h' (list_pop (key_of w) (heap_list h))"
    "length (pq h') = length (pq h)"
    using heap_pop_refines [OF ne(2,1)] .
  have "x = At (heap_list h ! 0)" using heap_top_refines [OF ne(2,1)] 3(3) by simp
  with h' ne show ?case
    using heap_invI [OF h'(2) list_pop_is_heap [OF ne(3)]] heap_holds_list [OF h'(2)]
    by (auto simp: heap_elems_def list_pop_mset image_mset_Diff)
next
  case (4 w h)
  then have "heap_size h = int (length (heap_list h))" by (auto simp: heap_inv_def heap_holds_def)
  then show ?case by (simp add: heap_empty_def heap_elems_def)
qed

text \<open>
  Lowering the key of the root alone keeps the order: the reason why a running job need not be
  taken out of the heap while its remaining time is deducted.
\<close>

lemma is_heap_decrease_root:
  assumes "is_heap k xs" "\<And>i. 0 < i \<Longrightarrow> i < length xs \<Longrightarrow> k' (xs ! i) = k (xs ! i)"
    "xs \<noteq> [] \<Longrightarrow> k' (xs ! 0) \<le> k (xs ! 0)"
  shows "is_heap k' xs"
  unfolding is_heap_def
proof (intro allI impI)
  fix i assume i: "i < length xs" "0 < i"
  then have "k (xs ! par i) \<le> k (xs ! i)" using assms(1) by (simp add: is_heap_def)
  moreover have "k' (xs ! par i) \<le> k (xs ! par i)"
    using assms(2) [of "par i"] assms(3) i by (cases "par i = 0"; cases xs) auto
  ultimately show "k' (xs ! par i) \<le> k' (xs ! i)" using assms(2) [OF i(2,1)] by simp
qed

end
