(* ===== verification/SJF_Sched.thy ===== *)
theory SJF_Sched
  imports Proc_Heap Sched_Interface
begin

text \<open>
  The non-preemptive shortest-job-first scheduler of \<^verbatim>\<open>SJF.c\<close>: the waiting jobs in a heap, the
  running one in a pointer. Its lemmas rest on the contract of the priority queue.
\<close>

section \<open>The C functions\<close>

record SJF_state =
  inactive_heap :: Heap
  sjf_active :: ptr

definition SJF_static :: SJF_state where
  "SJF_static = \<lparr>inactive_heap = \<lparr>pq = [], heap_size = 0\<rparr>, sjf_active = Null\<rparr>"

definition add_process_SJF :: "ptr \<Rightarrow> SJF_state \<Rightarrow> world \<Rightarrow> SJF_state res" where
  "add_process_SJF new_process s w =
     bindR (heap_insert w (inactive_heap s) new_process) (\<lambda>h. Inr (s\<lparr>inactive_heap := h\<rparr>))"

definition set_strategy_SJF :: "int \<Rightarrow> SJF_state \<Rightarrow> SJF_state" where
  "set_strategy_SJF num_process s = s\<lparr>inactive_heap := heap_init num_process\<rparr>"

definition remove_current_process_SJF :: "SJF_state \<Rightarrow> SJF_state" where
  "remove_current_process_SJF s = s\<lparr>sjf_active := Null\<rparr>"

definition context_switch_SJF :: "os \<Rightarrow> SJF_state \<Rightarrow> world \<Rightarrow> (SJF_state \<times> world) res" where
  "context_switch_SJF os s w =
     (if sjf_active s \<noteq> Null then Inr (s, w)
      else bindR (heap_top (inactive_heap s)) (\<lambda>p.
           bindR (heap_pop w (inactive_heap s)) (\<lambda>h.
           bindR (deref w p) (\<lambda>i.
           bindR (resume_process os (pid i) w) (\<lambda>w'.
           Inr (s\<lparr>inactive_heap := h, sjf_active := p\<rparr>, w'))))))"

definition scheduler_empty_SJF :: "SJF_state \<Rightarrow> bool" where
  "scheduler_empty_SJF s \<longleftrightarrow> heap_size_of (inactive_heap s) = 0 \<and> sjf_active s = Null"

section \<open>The invariant and the jobs\<close>

definition active_list :: "ptr \<Rightarrow> nat list" where
  "active_list p = (case p of Null \<Rightarrow> [] | At i \<Rightarrow> [i])"

definition sjf_jobs :: "SJF_state \<Rightarrow> nat list" where
  "sjf_jobs s = active_list (sjf_active s) @ heap_list (inactive_heap s)"

definition sjf_inv :: "world \<Rightarrow> SJF_state \<Rightarrow> bool" where
  "sjf_inv w s \<longleftrightarrow> heap_inv w (inactive_heap s) \<and> pids_ok w (sjf_jobs s)"

text \<open>
  \<open>sjf_quiet\<close>: every waiting job has the lowest priority. \<open>sjf_settled\<close>: besides, the active
  job has the running priority.
\<close>

definition sjf_quiet :: "os \<Rightarrow> SJF_state \<Rightarrow> world \<Rightarrow> bool" where
  "sjf_quiet os s w \<longleftrightarrow>
     (\<forall>j \<in> set (heap_list (inactive_heap s)). prio_of w j = Some (low_prio os))"

definition sjf_settled :: "os \<Rightarrow> SJF_state \<Rightarrow> world \<Rightarrow> bool" where
  "sjf_settled os s w \<longleftrightarrow> sjf_quiet os s w \<and>
     (case sjf_active s of Null \<Rightarrow> True | At i \<Rightarrow> prio_of w i = Some (run_prio os))"

lemma sjf_inv_init:
  "0 \<le> n \<Longrightarrow> n \<le> 1073741824 \<Longrightarrow>
   sjf_inv w (set_strategy_SJF n SJF_static) \<and> sjf_jobs (set_strategy_SJF n SJF_static) = []"
  using heap_init_inv [of n w]
  by (simp add: sjf_inv_def sjf_jobs_def set_strategy_SJF_def SJF_static_def active_list_def pids_ok_def)

lemma add_process_SJF_ok:
  assumes inv: "sjf_inv w s" and new: "pids_ok w (i # sjf_jobs s)"
    and room: "length (heap_list (inactive_heap s)) < length (pq (inactive_heap s))"
  obtains s' where "add_process_SJF (At i) s w = Inr s'" "sjf_inv w s'"
    "mset (sjf_jobs s') = add_mset i (mset (sjf_jobs s))" "sjf_active s' = sjf_active s"
    "mset (heap_list (inactive_heap s')) = add_mset i (mset (heap_list (inactive_heap s)))"
    "length (pq (inactive_heap s')) = length (pq (inactive_heap s))"
proof -
  let ?h = "inactive_heap s"
  have "heap_inv w ?h" "valid_ptr w (At i)" "size (heap_elems ?h) < length (pq ?h)"
    using inv new room by (auto simp: sjf_inv_def pids_ok_def valid_ptr_def heap_elems_def)
  from heap.insert_ok [OF this] obtain h' where h': "heap_insert w ?h (At i) = Inr h'"
    "heap_inv w h'" "heap_elems h' = add_mset (At i) (heap_elems ?h)" "length (pq h') = length (pq ?h)"
    by auto
  have m: "mset (heap_list h') = add_mset i (mset (heap_list ?h))"
    using heap_list_mset [of h' "i # heap_list ?h"] h'(3) by (simp add: heap_elems_def)
  let ?s' = "s\<lparr>inactive_heap := h'\<rparr>"
  have j: "mset (sjf_jobs ?s') = add_mset i (mset (sjf_jobs s))" using m by (simp add: sjf_jobs_def)
  have "pids_ok w (sjf_jobs ?s')" using pids_ok_perm [OF new] j by simp
  then show ?thesis
    using that [of ?s'] h' m j by (simp add: add_process_SJF_def sjf_inv_def)
qed

lemma remove_current_process_SJF_ok:
  assumes "sjf_inv w s" "sjf_active s = At a"
  shows "sjf_inv w (remove_current_process_SJF s)"
    "sjf_jobs s = a # sjf_jobs (remove_current_process_SJF s)"
  using assms
  by (auto simp: sjf_inv_def sjf_jobs_def remove_current_process_SJF_def active_list_def pids_ok_def)

text \<open>A context switch with nobody active starts a shortest waiting job.\<close>

lemma context_switch_SJF_starts:
  assumes inv: "sjf_inv w s" and os: "sched_ok os" and idle: "sjf_active s = Null"
    and ne: "heap_list (inactive_heap s) \<noteq> []"
  obtains s' i where
    "context_switch_SJF os s w = Inr (s', w\<lparr>prio := (prio w)(pid (procs w ! i) \<mapsto> run_prio os)\<rparr>)"
    "sjf_active s' = At i" "sjf_inv w s'" "mset (sjf_jobs s') = mset (sjf_jobs s)"
    "mset (heap_list (inactive_heap s')) = mset (heap_list (inactive_heap s)) - {#i#}"
    "i \<in> set (heap_list (inactive_heap s))"
    "\<forall>j \<in> set (heap_list (inactive_heap s)). key_of w i \<le> key_of w j"
    "length (pq (inactive_heap s')) = length (pq (inactive_heap s))"
proof -
  let ?h = "inactive_heap s"
  have hi: "heap_inv w ?h" "heap_elems ?h \<noteq> {#}"
    using inv ne by (auto simp: sjf_inv_def heap_elems_def)
  from heap.top_ok [OF this] obtain p where p: "heap_top ?h = Inr p" "p \<in># heap_elems ?h"
    "\<forall>y \<in># heap_elems ?h. ptr_key w p \<le> ptr_key w y" by auto
  then obtain i where i: "p = At i" "i \<in> set (heap_list ?h)" by (auto simp: heap_elems_def)
  from heap.pop_ok [OF hi p(1)] obtain h' where h': "heap_pop w ?h = Inr h'" "heap_inv w h'"
    "heap_elems h' = heap_elems ?h - {#p#}" "length (pq h') = length (pq ?h)" by auto
  have m: "mset (heap_list h') = mset (heap_list ?h) - {#i#}"
    using heap_list_mset [of h' "remove1 i (heap_list ?h)"] h'(3) i
    by (simp add: heap_elems_def image_mset_Diff)
  let ?s' = "s\<lparr>inactive_heap := h', sjf_active := At i\<rparr>"
  have jobs: "mset (sjf_jobs ?s') = mset (sjf_jobs s)"
    using m i(2) idle by (simp add: sjf_jobs_def active_list_def)
  have "i < length (procs w)" "0 < pid (procs w ! i)"
    using inv i(2) by (auto simp: sjf_inv_def pids_ok_def sjf_jobs_def)
  then have "context_switch_SJF os s w =
      Inr (?s', w\<lparr>prio := (prio w)(pid (procs w ! i) \<mapsto> run_prio os)\<rparr>)"
    using idle p(1) i(1) h'(1) by (simp add: context_switch_SJF_def resume_ok [OF os])
  moreover have "sjf_inv w ?s'"
    using h'(2) inv pids_ok_perm [of w "sjf_jobs s"] jobs by (simp add: sjf_inv_def)
  moreover have "\<forall>j \<in> set (heap_list ?h). key_of w i \<le> key_of w j"
    using p(3) i(1) by (simp add: heap_elems_def ptr_key_def)
  ultimately show ?thesis using that [of ?s' i] jobs m i(2) h'(4) by simp
qed

lemma context_switch_SJF_keeps:
  "sjf_active s \<noteq> Null \<Longrightarrow> context_switch_SJF os s w = Inr (s, w)"
  by (simp add: context_switch_SJF_def)

text \<open>With nobody active and nobody waiting, a context switch leaves the array.\<close>

lemma heap_pop_empty: "heap_size h = 0 \<Longrightarrow> heap_pop w h = Inl OutOfBounds"
  by (simp add: heap_pop_def cint_def in_int_def heap_swap_def aread_def)

lemma context_switch_SJF_idle:
  assumes "sjf_active s = Null" "heap_size (inactive_heap s) = 0"
  shows "context_switch_SJF os s w = Inl OutOfBounds \<or> context_switch_SJF os s w = Inl Uninitialised"
proof (cases "heap_top (inactive_heap s)")
  case (Inl e)
  then have "e = OutOfBounds \<or> e = Uninitialised"
    by (auto simp: heap_top_def aread_def split: if_splits option.splits)
  with Inl assms(1) show ?thesis by (auto simp: context_switch_SJF_def)
next
  case (Inr p)
  with assms show ?thesis by (simp add: context_switch_SJF_def heap_pop_empty)
qed

lemma scheduler_empty_SJF_iff: "sjf_inv w s \<Longrightarrow> scheduler_empty_SJF s \<longleftrightarrow> sjf_jobs s = []"
  using heap_holds_list
  by (auto simp: scheduler_empty_SJF_def heap_size_of_def sjf_jobs_def active_list_def sjf_inv_def
      heap_inv_def heap_holds_def split: ptr.splits)

lemma context_switch_SJF_settles:
  assumes inv: "sjf_inv w s" and os: "sched_ok os" and q: "sjf_quiet os s w"
    and idle: "sjf_active s = Null" and sw: "context_switch_SJF os s w = Inr (s', w')"
    and ne: "heap_list (inactive_heap s) \<noteq> []"
  shows "sjf_settled os s' w'"
proof -
  obtain t i where t: "context_switch_SJF os s w =
      Inr (t, w\<lparr>prio := (prio w)(pid (procs w ! i) \<mapsto> run_prio os)\<rparr>)" "sjf_active t = At i"
    "mset (heap_list (inactive_heap t)) = mset (heap_list (inactive_heap s)) - {#i#}"
    "i \<in> set (heap_list (inactive_heap s))" "sjf_inv w t"
    using context_switch_SJF_starts [OF inv os idle ne] by metis
  have s': "s' = t" "w' = w\<lparr>prio := (prio w)(pid (procs w ! i) \<mapsto> run_prio os)\<rparr>"
    using sw t(1) by simp_all
  have "prio_of w' j = Some (low_prio os)" if j: "j \<in> set (heap_list (inactive_heap t))" for j
  proof -
    have "j \<in> set (heap_list (inactive_heap s))"
      using j t(3) by (metis in_diffD set_mset_mset)
    moreover have "pid (procs w ! j) \<noteq> pid (procs w ! i)"
      using t(2,5) by (intro pids_ok_Cons_neq [OF _ j])
        (simp add: sjf_inv_def sjf_jobs_def active_list_def)
    ultimately show ?thesis using q s' by (simp add: sjf_quiet_def)
  qed
  then show ?thesis using s' t(2) by (simp add: sjf_settled_def sjf_quiet_def)
qed

section \<open>SJF as a scheduler\<close>

definition sjf_running :: "SJF_state \<Rightarrow> nat option" where
  "sjf_running s = (case sjf_active s of Null \<Rightarrow> None | At i \<Rightarrow> Some i)"

definition sjf_ok :: "os \<Rightarrow> SJF_state \<Rightarrow> world \<Rightarrow> bool" where
  "sjf_ok os s w \<longleftrightarrow> sched_ok os \<and> sjf_inv w s"

definition sjf_can_add :: "nat \<Rightarrow> SJF_state \<Rightarrow> world \<Rightarrow> bool" where
  "sjf_can_add i s w \<longleftrightarrow> pids_ok w (i # sjf_jobs s) \<and>
     length (heap_list (inactive_heap s)) < length (pq (inactive_heap s))"

definition sjf_can_switch :: "os \<Rightarrow> SJF_state \<Rightarrow> world \<Rightarrow> bool" where
  "sjf_can_switch os s w \<longleftrightarrow> sjf_settled os s w \<and> sjf_jobs s \<noteq> []"

text \<open>Every context switch with a job left, whether somebody is active or not.\<close>

lemma sjf_switch_ok:
  assumes "sjf_ok os s w" "sjf_can_switch os s w"
  obtains s' f where "context_switch_SJF os s w = Inr (s', w\<lparr>prio := f\<rparr>)"
    "sjf_ok os s' (w\<lparr>prio := f\<rparr>)" "sjf_settled os s' (w\<lparr>prio := f\<rparr>)"
    "mset (sjf_jobs s') = mset (sjf_jobs s)" "sjf_active s' \<noteq> Null"
proof (cases "sjf_active s")
  case (At a)
  with assms show ?thesis
    using that [of s "prio w"] by (simp add: context_switch_SJF_keeps sjf_can_switch_def)
next
  case Null
  have os: "sched_ok os" and inv: "sjf_inv w s" and q: "sjf_quiet os s w"
    and ne: "heap_list (inactive_heap s) \<noteq> []"
    using assms Null
    by (auto simp: sjf_ok_def sjf_can_switch_def sjf_settled_def sjf_jobs_def active_list_def)
  obtain s' i where s': "context_switch_SJF os s w =
      Inr (s', w\<lparr>prio := (prio w)(pid (procs w ! i) \<mapsto> run_prio os)\<rparr>)" "sjf_active s' = At i"
    "sjf_inv w s'" "mset (sjf_jobs s') = mset (sjf_jobs s)"
    using context_switch_SJF_starts [OF inv os Null ne] by metis
  from context_switch_SJF_settles [OF inv os q Null s'(1) ne] s' os show ?thesis
    using that [of s'] by (simp add: sjf_ok_def sjf_inv_def)
qed

interpretation sjf: one_runner "\<lambda>p s w. keep_world (add_process_SJF p s w) w"
  "\<lambda>s w. Inr (remove_current_process_SJF s, w)" "context_switch_SJF os"
  scheduler_empty_SJF "sjf_ok os" "\<lambda>s. length (sjf_jobs s)" sjf_can_add
  "\<lambda>s w. sjf_active s \<noteq> Null" "sjf_can_switch os" sjf_jobs sjf_running
  "low_prio os" "run_prio os" for os
proof (unfold_locales, goal_cases)
  case (1 s w i)
  then obtain s' where "add_process_SJF (At i) s w = Inr s'" "sjf_inv w s'"
    "mset (sjf_jobs s') = add_mset i (mset (sjf_jobs s))"
    using add_process_SJF_ok [of w s i] by (auto simp: sjf_ok_def sjf_can_add_def)
  with 1(1) show ?case by (simp add: sjf_ok_def) (metis size_add_mset size_mset)
next
  case (2 s w)
  then obtain a where "sjf_active s = At a" by (cases "sjf_active s") auto
  with 2(1) show ?case using remove_current_process_SJF_ok [of w s a] by (auto simp: sjf_ok_def)
next
  case (3 s w)
  from sjf_switch_ok [OF this] show ?case by (metis size_mset)
next
  case (4 s w)
  then show ?case using scheduler_empty_SJF_iff [of w s] by (simp add: sjf_ok_def)
next
  case (6 s w)
  then show ?case using run_low_neq [of os] by (simp add: sjf_ok_def)
next
  case (7 s w s' w' j)
  have st: "sjf_settled os s' w'" "sjf_inv w' s'"
    using sjf_switch_ok [OF 7(1,2)] 7(3) by (auto simp: sjf_ok_def)
  then have "distinct (sjf_jobs s')" by (auto simp: sjf_inv_def intro: pids_ok_distinct)
  with st(1) 7(4) show ?case
    by (cases "sjf_active s'")
      (auto simp: sjf_settled_def sjf_quiet_def sjf_running_def sjf_jobs_def active_list_def)
next
  case (8 s w s' w')
  then have "sjf_active s' \<noteq> Null" using sjf_switch_ok [OF 8(1,2)] by auto
  then show ?case by (cases "sjf_active s'") (auto simp: sjf_running_def sjf_jobs_def active_list_def)
qed simp

end
