(* ===== verification/PSJF_Sched.thy ===== *)
theory PSJF_Sched
  imports Proc_Heap Sched_Interface
begin

text \<open>
  The preemptive shortest-job-first scheduler of \<^verbatim>\<open>PSJF.c\<close>: all jobs in a heap, the running one
  also in a pointer, and a clock in time units that the scheduler keeps by itself. The remaining
  time of the running job is changed through the pointer while the heap still holds that job, so
  the process table is an explicit store here.
\<close>

section \<open>The C functions\<close>

record PSJF_state =
  psjf_pq :: Heap
  psjf_active :: ptr
  last_context_switch_time :: int
  current_time :: int

definition PSJF_static :: PSJF_state where
  "PSJF_static = \<lparr>psjf_pq = \<lparr>pq = [], heap_size = 0\<rparr>, psjf_active = Null,
     last_context_switch_time = 0, current_time = 0\<rparr>"

definition add_process_PSJF :: "ptr \<Rightarrow> PSJF_state \<Rightarrow> world \<Rightarrow> (PSJF_state \<times> world) res" where
  "add_process_PSJF new_process s w =
     bindR (heap_top (psjf_pq s)) (\<lambda>top.
     bindR (assertR (psjf_active s = top)) (\<lambda>_.
     bindR (deref w new_process) (\<lambda>new.
     let now = arrival_time new in
     bindR (cint (now - last_context_switch_time s)) (\<lambda>passed.
     bindR (deref w (psjf_active s)) (\<lambda>active.
     bindR (cint (remaining_time active - passed)) (\<lambda>remaining.
     bindR (assign w (psjf_active s) (\<lambda>i. i\<lparr>remaining_time := remaining\<rparr>)) (\<lambda>w'.
     bindR (heap_insert w' (psjf_pq s) new_process) (\<lambda>h.
     Inr (s\<lparr>psjf_pq := h, current_time := now\<rparr>, w')))))))))"

definition set_strategy_PSJF :: "int \<Rightarrow> PSJF_state \<Rightarrow> PSJF_state" where
  "set_strategy_PSJF num_process s = s\<lparr>psjf_pq := heap_init num_process\<rparr>"

definition remove_current_process_PSJF :: "PSJF_state \<Rightarrow> world \<Rightarrow> PSJF_state res" where
  "remove_current_process_PSJF s w =
     bindR (heap_top (psjf_pq s)) (\<lambda>top.
     bindR (assertR (psjf_active s = top)) (\<lambda>_.
     bindR (deref w (psjf_active s)) (\<lambda>active.
     let time_passed = remaining_time active in
     bindR (cint (current_time s + time_passed)) (\<lambda>now.
     bindR (heap_pop w (psjf_pq s)) (\<lambda>h.
     Inr (s\<lparr>psjf_pq := h, psjf_active := Null, current_time := now\<rparr>))))))"

definition context_switch_PSJF :: "os \<Rightarrow> PSJF_state \<Rightarrow> world \<Rightarrow> (PSJF_state \<times> world) res" where
  "context_switch_PSJF os s w =
     bindR
       (if heap_empty (psjf_pq s) then Inr (s, w)
        else bindR (heap_top (psjf_pq s)) (\<lambda>top.
          if psjf_active s = top then Inr (s, w)
          else bindR
            (if psjf_active s \<noteq> Null
             then bindR (deref w (psjf_active s)) (\<lambda>i. suspend_process os (pid i) w)
             else Inr w)
            (\<lambda>w'. bindR (deref w' top) (\<lambda>i.
               bindR (resume_process os (pid i) w') (\<lambda>w''.
               Inr (s\<lparr>psjf_active := top\<rparr>, w''))))))
       (\<lambda>(s', w'). Inr (s'\<lparr>last_context_switch_time := current_time s'\<rparr>, w'))"

definition scheduler_empty_PSJF :: "PSJF_state \<Rightarrow> bool" where
  "scheduler_empty_PSJF s \<longleftrightarrow> psjf_active s = Null \<and> heap_empty (psjf_pq s)"

section \<open>The invariant\<close>

abbreviation psjf_jobs :: "PSJF_state \<Rightarrow> nat list" where
  "psjf_jobs s \<equiv> heap_list (psjf_pq s)"

definition psjf_inv :: "world \<Rightarrow> PSJF_state \<Rightarrow> bool" where
  "psjf_inv w s \<longleftrightarrow> heap_inv w (psjf_pq s) \<and> pids_ok w (psjf_jobs s) \<and>
     (case psjf_active s of Null \<Rightarrow> True | At a \<Rightarrow> a \<in> set (psjf_jobs s))"

text \<open>
  The comment of the source: the top of the heap is the running process after every context switch.
\<close>

definition psjf_synced :: "PSJF_state \<Rightarrow> bool" where
  "psjf_synced s \<longleftrightarrow> (psjf_jobs s \<noteq> [] \<longrightarrow> psjf_active s = At (hd (psjf_jobs s)))"

definition psjf_quiet :: "os \<Rightarrow> PSJF_state \<Rightarrow> world \<Rightarrow> bool" where
  "psjf_quiet os s w \<longleftrightarrow>
     (\<forall>j \<in> set (psjf_jobs s). psjf_active s \<noteq> At j \<longrightarrow> prio_of w j = Some (low_prio os)) \<and>
     (\<forall>j. psjf_active s = At j \<longrightarrow> prio_of w j = Some (run_prio os))"

lemma psjf_top:
  assumes "psjf_inv w s" "psjf_jobs s \<noteq> []"
  shows "heap_top (psjf_pq s) = Inr (At (hd (psjf_jobs s)))"
  using assms heap_top_refines [of w "psjf_pq s" "psjf_jobs s"]
  by (simp add: psjf_inv_def heap_inv_def hd_conv_nth)

lemma psjf_empty_iff: "psjf_inv w s \<Longrightarrow> heap_empty (psjf_pq s) \<longleftrightarrow> psjf_jobs s = []"
  by (auto simp: psjf_inv_def heap_inv_def heap_holds_def heap_empty_def)

lemma scheduler_empty_PSJF_iff: "psjf_inv w s \<Longrightarrow> scheduler_empty_PSJF s \<longleftrightarrow> psjf_jobs s = []"
  using psjf_empty_iff [of w s]
  by (auto simp: scheduler_empty_PSJF_def psjf_inv_def split: ptr.splits)

lemma psjf_inv_init:
  "0 \<le> n \<Longrightarrow> n \<le> 1073741824 \<Longrightarrow> psjf_inv w (set_strategy_PSJF n PSJF_static)"
  using heap_init_inv [of n w]
  by (simp add: psjf_inv_def set_strategy_PSJF_def PSJF_static_def pids_ok_def)

section \<open>Deducting the time of the running job\<close>

abbreviation deduct :: "world \<Rightarrow> nat \<Rightarrow> int \<Rightarrow> world" where
  "deduct w a t \<equiv>
     w\<lparr>procs := (procs w)[a := (procs w ! a)\<lparr>remaining_time := remaining_time (procs w ! a) - t\<rparr>]\<rparr>"

lemma pid_deduct [simp]: "pid (procs (deduct w a t) ! j) = pid (procs w ! j)"
  by (cases "a < length (procs w)"; cases "a = j") (auto simp: list_update_beyond)

lemma pids_ok_deduct: "pids_ok w xs \<Longrightarrow> pids_ok (deduct w a t) xs"
  unfolding pids_ok_def pid_deduct by simp

text \<open>
  The heap keeps its order when the remaining time of its root goes down, as the comment in
  \<^verbatim>\<open>add_process_PSJF\<close> says.
\<close>

lemma heap_inv_deduct:
  assumes inv: "heap_inv w h" and p: "pids_ok w (heap_list h)" and ne: "heap_list h \<noteq> []"
    and t: "0 \<le> t"
  shows "heap_inv (deduct w (hd (heap_list h)) t) h"
proof -
  let ?xs = "heap_list h" let ?a = "hd ?xs" let ?w = "deduct w ?a t"
  have d: "distinct ?xs" using pids_ok_distinct [OF p] .
  have a: "?a = ?xs ! 0" "?a < length (procs w)"
    using ne p by (auto simp: hd_conv_nth pids_ok_def)
  have "is_heap (key_of ?w) ?xs"
  proof (rule is_heap_decrease_root)
    show "is_heap (key_of w) ?xs" using inv by (simp add: heap_inv_def)
    show "key_of ?w (?xs ! i) = key_of w (?xs ! i)" if "0 < i" "i < length ?xs" for i
      using that d a(1) ne nth_eq_iff_index_eq [OF d, of 0 i] by (simp add: key_of_def)
    show "key_of ?w (?xs ! 0) \<le> key_of w (?xs ! 0)"
      using a t by (auto simp: key_of_def less_eq_job_key_def less_job_key_def)
  qed
  then show ?thesis using inv by (simp add: heap_inv_def heap_holds_def)
qed

section \<open>The operations on the invariant\<close>

lemma add_process_PSJF_ok:
  assumes inv: "psjf_inv w s" and sync: "psjf_synced s" and ne: "psjf_jobs s \<noteq> []"
    and new: "pids_ok w (i # psjf_jobs s)"
    and room: "length (psjf_jobs s) < length (pq (psjf_pq s))"
    and time: "0 \<le> last_context_switch_time s" "last_context_switch_time s \<le> arrival_time (procs w ! i)"
      "in_int (arrival_time (procs w ! i))"
    and rem: "0 \<le> remaining_time (procs w ! hd (psjf_jobs s))"
      "in_int (remaining_time (procs w ! hd (psjf_jobs s)))"
  obtains s' where
    "add_process_PSJF (At i) s w = Inr (s', deduct w (hd (psjf_jobs s))
       (arrival_time (procs w ! i) - last_context_switch_time s))"
    "psjf_inv (deduct w (hd (psjf_jobs s))
       (arrival_time (procs w ! i) - last_context_switch_time s)) s'"
    "mset (psjf_jobs s') = add_mset i (mset (psjf_jobs s))" "psjf_active s' = psjf_active s"
    "current_time s' = arrival_time (procs w ! i)"
    "last_context_switch_time s' = last_context_switch_time s"
    "length (pq (psjf_pq s')) = length (pq (psjf_pq s))"
proof -
  let ?a = "hd (psjf_jobs s)" let ?t = "arrival_time (procs w ! i) - last_context_switch_time s"
  let ?w = "deduct w ?a ?t" let ?h = "psjf_pq s"
  have act: "psjf_active s = At ?a" using sync ne by (simp add: psjf_synced_def)
  have len: "i < length (procs w)" "?a < length (procs w)"
    using new ne by (auto simp: pids_ok_def)
  have ci: "in_int ?t" "in_int (remaining_time (procs w ! ?a) - ?t)"
    using time rem by (auto simp: in_int_def)
  have hi: "heap_inv ?w ?h"
    using heap_inv_deduct [of w ?h ?t] inv ne time(2) by (simp add: psjf_inv_def)
  have "valid_ptr ?w (At i)" "size (heap_elems ?h) < length (pq ?h)"
    using len(1) room by (auto simp: valid_ptr_def heap_elems_def)
  from heap.insert_ok [OF hi this] obtain h' where h': "heap_insert ?w ?h (At i) = Inr h'"
    "heap_inv ?w h'" "heap_elems h' = add_mset (At i) (heap_elems ?h)" "length (pq h') = length (pq ?h)"
    by auto
  have m: "mset (heap_list h') = add_mset i (mset (heap_list ?h))"
    using heap_list_mset [of h' "i # heap_list ?h"] h'(3) by (simp add: heap_elems_def)
  let ?s' = "s\<lparr>psjf_pq := h', current_time := arrival_time (procs w ! i)\<rparr>"
  have "add_process_PSJF (At i) s w = Inr (?s', ?w)"
    using psjf_top [OF inv ne] act len ci h'(1) by (simp add: add_process_PSJF_def Let_def)
  moreover have "psjf_inv ?w ?s'"
  proof -
    have "pids_ok w (heap_list h')" using pids_ok_perm [OF new] m by simp
    then have "pids_ok ?w (heap_list h')" by (rule pids_ok_deduct)
    moreover have "?a \<in> set (heap_list h')"
      using mset_eq_setD [of "heap_list h'" "i # heap_list ?h"] m ne by simp
    ultimately show ?thesis using h'(2) act by (simp add: psjf_inv_def)
  qed
  ultimately show ?thesis using that [of ?s'] m h'(4) by simp
qed

lemma remove_current_process_PSJF_ok:
  assumes inv: "psjf_inv w s" and sync: "psjf_synced s" and ne: "psjf_jobs s \<noteq> []"
    and time: "in_int (current_time s + remaining_time (procs w ! hd (psjf_jobs s)))"
  obtains s' where "remove_current_process_PSJF s w = Inr s'" "psjf_inv w s'"
    "mset (psjf_jobs s) = add_mset (hd (psjf_jobs s)) (mset (psjf_jobs s'))" "psjf_active s' = Null"
    "current_time s' = current_time s + remaining_time (procs w ! hd (psjf_jobs s))"
    "length (pq (psjf_pq s')) = length (pq (psjf_pq s))"
proof -
  let ?a = "hd (psjf_jobs s)" let ?h = "psjf_pq s"
  have act: "psjf_active s = At ?a" using sync ne by (simp add: psjf_synced_def)
  have hi: "heap_inv w ?h" "heap_elems ?h \<noteq> {#}" using inv ne by (auto simp: psjf_inv_def heap_elems_def)
  have len: "?a < length (procs w)" using inv ne by (auto simp: psjf_inv_def pids_ok_def)
  from heap.pop_ok [OF hi psjf_top [OF inv ne]] obtain h' where h': "heap_pop w ?h = Inr h'"
    "heap_inv w h'" "heap_elems h' = heap_elems ?h - {#At ?a#}" "length (pq h') = length (pq ?h)" by auto
  have m: "mset (heap_list h') = mset (heap_list ?h) - {#?a#}"
    using heap_list_mset [of h' "remove1 ?a (heap_list ?h)"] h'(3) ne
    by (simp add: heap_elems_def image_mset_Diff)
  then have m': "mset (heap_list ?h) = add_mset ?a (mset (heap_list h'))" using ne by simp
  let ?s' = "s\<lparr>psjf_pq := h', psjf_active := Null,
      current_time := current_time s + remaining_time (procs w ! ?a)\<rparr>"
  have "pids_ok w (?a # heap_list h')" using pids_ok_perm [of w "psjf_jobs s"] inv m'
    by (simp add: psjf_inv_def)
  then have "psjf_inv w ?s'" using h'(2) by (simp add: psjf_inv_def pids_ok_def)
  moreover have "remove_current_process_PSJF s w = Inr ?s'"
    using psjf_top [OF inv ne] act len time h'(1) by (simp add: remove_current_process_PSJF_def)
  ultimately show ?thesis using that [of ?s'] m' h'(4) by simp
qed

lemma context_switch_PSJF_ok:
  assumes inv: "psjf_inv w s" and os: "sched_ok os" and q: "psjf_quiet os s w"
  obtains s' f where "context_switch_PSJF os s w = Inr (s', w\<lparr>prio := f\<rparr>)"
    "psjf_inv (w\<lparr>prio := f\<rparr>) s'" "psjf_synced s'" "psjf_quiet os s' (w\<lparr>prio := f\<rparr>)"
    "psjf_pq s' = psjf_pq s" "last_context_switch_time s' = current_time s"
    "current_time s' = current_time s"
proof (cases "psjf_jobs s = [] \<or> psjf_active s = At (hd (psjf_jobs s))")
  case True
  let ?s' = "s\<lparr>last_context_switch_time := current_time s\<rparr>"
  have "context_switch_PSJF os s w = Inr (?s', w\<lparr>prio := prio w\<rparr>)"
    using True psjf_top [OF inv] psjf_empty_iff [OF inv] by (auto simp: context_switch_PSJF_def)
  with True inv q show ?thesis
    using that [of ?s' "prio w"]
    by (cases "psjf_active s") (auto simp: psjf_inv_def psjf_synced_def psjf_quiet_def)
next
  case False
  let ?t = "hd (psjf_jobs s)" and ?xs = "psjf_jobs s"
  have t: "?t \<in> set ?xs" "psjf_active s \<noteq> At ?t" using False by auto
  have ok: "pids_ok w ?xs" using inv by (simp add: psjf_inv_def)
  have job: "j < length (procs w)" "0 < pid (procs w ! j)" if "j \<in> set ?xs" for j
    using ok that by (auto simp: pids_ok_def)
  define g where "g = (case psjf_active s of Null \<Rightarrow> prio w
      | At a \<Rightarrow> (prio w)(pid (procs w ! a) \<mapsto> low_prio os))"
  let ?f = "g(pid (procs w ! ?t) \<mapsto> run_prio os)"
  let ?s' = "s\<lparr>psjf_active := At ?t, last_context_switch_time := current_time s\<rparr>"
  have act: "a \<in> set ?xs" if "psjf_active s = At a" for a
    using inv that by (simp add: psjf_inv_def)
  have "context_switch_PSJF os s w = Inr (?s', w\<lparr>prio := ?f\<rparr>)"
    using False psjf_top [OF inv] psjf_empty_iff [OF inv] job [OF t(1)] job [OF act]
    by (auto simp: context_switch_PSJF_def g_def suspend_ok [OF os] resume_ok [OF os] split: ptr.splits)
  moreover have "psjf_quiet os ?s' (w\<lparr>prio := ?f\<rparr>)"
  proof -
    have "prio_of (w\<lparr>prio := ?f\<rparr>) j = Some (low_prio os)" if j: "j \<in> set ?xs" "j \<noteq> ?t" for j
      using pids_ok_neq [OF ok j(1) t(1) j(2)] q j(1)
      by (cases "psjf_active s") (auto simp: g_def prio_of_def psjf_quiet_def)
    then show ?thesis by (auto simp: psjf_quiet_def prio_of_def)
  qed
  ultimately show ?thesis
    using that [of ?s' ?f] inv t(1) by (simp add: psjf_inv_def psjf_synced_def)
qed

section \<open>Where the operations fail\<close>

text \<open>
  With no running job \<^verbatim>\<open>add_process_PSJF\<close> never returns: the assertion compares \<^verbatim>\<open>NULL\<close> with
  the first cell of the array, and if that is \<^verbatim>\<open>NULL\<close> too, the next statement dereferences it.
\<close>

lemma add_process_PSJF_no_active:
  assumes "psjf_active s = Null"
  shows "\<exists>e \<in> {OutOfBounds, Uninitialised, AssertFail, NullDeref, SignedOverflow}.
     add_process_PSJF (At i) s w = Inl e"
proof (cases "heap_top (psjf_pq s)")
  case (Inl e)
  then have "e = OutOfBounds \<or> e = Uninitialised"
    by (auto simp: heap_top_def aread_def split: if_splits option.splits)
  with Inl show ?thesis by (auto simp: add_process_PSJF_def)
next
  case (Inr p)
  with assms show ?thesis
    by (cases p; cases "i < length (procs w)")
      (auto simp: add_process_PSJF_def Let_def cint_def)
qed

lemma add_process_PSJF_not_synced:
  "heap_top (psjf_pq s) = Inr p \<Longrightarrow> psjf_active s \<noteq> p \<Longrightarrow>
   add_process_PSJF q s w = Inl AssertFail"
  by (simp add: add_process_PSJF_def)

section \<open>PSJF as a scheduler\<close>

definition psjf_running :: "PSJF_state \<Rightarrow> nat option" where
  "psjf_running s = (case psjf_active s of Null \<Rightarrow> None | At i \<Rightarrow> Some i)"

definition psjf_ok :: "os \<Rightarrow> PSJF_state \<Rightarrow> world \<Rightarrow> bool" where
  "psjf_ok os s w \<longleftrightarrow> sched_ok os \<and> psjf_inv w s"

text \<open>
  An arrival is handled when a job is running, it is the top of the heap, and the new job arrives
  after the last context switch; a termination when the clock does not overflow.
\<close>

definition psjf_can_add :: "nat \<Rightarrow> PSJF_state \<Rightarrow> world \<Rightarrow> bool" where
  "psjf_can_add i s w \<longleftrightarrow> psjf_synced s \<and> psjf_jobs s \<noteq> [] \<and> pids_ok w (i # psjf_jobs s) \<and>
     length (psjf_jobs s) < length (pq (psjf_pq s)) \<and>
     0 \<le> last_context_switch_time s \<and> last_context_switch_time s \<le> arrival_time (procs w ! i) \<and>
     in_int (arrival_time (procs w ! i)) \<and>
     0 \<le> remaining_time (procs w ! hd (psjf_jobs s)) \<and>
     in_int (remaining_time (procs w ! hd (psjf_jobs s)))"

definition psjf_can_remove :: "PSJF_state \<Rightarrow> world \<Rightarrow> bool" where
  "psjf_can_remove s w \<longleftrightarrow> psjf_synced s \<and> psjf_jobs s \<noteq> [] \<and>
     in_int (current_time s + remaining_time (procs w ! hd (psjf_jobs s)))"

lemma psjf_add_ok:
  assumes "psjf_inv w s" "psjf_can_add i s w"
  shows "\<exists>s' w'. add_process_PSJF (At i) s w = Inr (s', w') \<and> psjf_inv w' s' \<and>
    mset (psjf_jobs s') = add_mset i (mset (psjf_jobs s)) \<and> psjf_active s' = psjf_active s"
  using assms unfolding psjf_can_add_def by (metis add_process_PSJF_ok)

interpretation psjf: one_runner add_process_PSJF
  "\<lambda>s w. keep_world (remove_current_process_PSJF s w) w" "context_switch_PSJF os"
  scheduler_empty_PSJF "psjf_ok os" "\<lambda>s. length (psjf_jobs s)" psjf_can_add psjf_can_remove
  "psjf_quiet os" "\<lambda>s. psjf_jobs s" psjf_running "low_prio os" "run_prio os" for os
proof (unfold_locales, goal_cases)
  case (1 s w i)
  then obtain s' w' where "add_process_PSJF (At i) s w = Inr (s', w')" "psjf_inv w' s'"
    "mset (psjf_jobs s') = add_mset i (mset (psjf_jobs s))"
    using psjf_add_ok [of w s i] by (auto simp: psjf_ok_def)
  with 1(1) show ?case by (simp add: psjf_ok_def) (metis size_add_mset size_mset)
next
  case (2 s w)
  then have "psjf_inv w s" "psjf_can_remove s w" by (simp_all add: psjf_ok_def)
  then obtain s' where "remove_current_process_PSJF s w = Inr s'" "psjf_inv w s'"
    "mset (psjf_jobs s) = add_mset (hd (psjf_jobs s)) (mset (psjf_jobs s'))"
    unfolding psjf_can_remove_def by (metis remove_current_process_PSJF_ok)
  with 2(1) show ?case by (simp add: psjf_ok_def) (metis size_add_mset size_mset)
next
  case (3 s w)
  then have "psjf_inv w s" "sched_ok os" "psjf_quiet os s w" by (simp_all add: psjf_ok_def)
  from context_switch_PSJF_ok [OF this] 3(1) show ?case by (metis psjf_ok_def)
next
  case (4 s w)
  then show ?case using scheduler_empty_PSJF_iff [of w s] by (simp add: psjf_ok_def)
next
  case (6 s w)
  then show ?case using run_low_neq [of os] by (simp add: psjf_ok_def)
next
  case (7 s w s' w' j)
  then have "psjf_quiet os s' w'" using context_switch_PSJF_ok [of w s os] by (auto simp: psjf_ok_def)
  with 7(4) show ?case
    by (cases "psjf_active s'") (auto simp: psjf_quiet_def psjf_running_def)
next
  case (8 s w s' w')
  then have "psjf_synced s'" using context_switch_PSJF_ok [of w s os] by (auto simp: psjf_ok_def)
  with 8(4) show ?case by (auto simp: psjf_synced_def psjf_running_def)
qed simp


section \<open>Who runs, and simultaneous arrivals\<close>

text \<open>After a context switch the running job is one with the shortest remaining time.\<close>

lemma psjf_synced_shortest:
  assumes "psjf_inv w s" "psjf_synced s" "j \<in> set (psjf_jobs s)"
  obtains a where "psjf_active s = At a" "a \<in> set (psjf_jobs s)" "key_of w a \<le> key_of w j"
proof -
  let ?xs = "psjf_jobs s"
  have "?xs \<noteq> []" using assms(3) by auto
  moreover obtain i where "i < length ?xs" "j = ?xs ! i" using assms(3) by (auto simp: in_set_conv_nth)
  moreover have "is_heap (key_of w) ?xs" using assms(1) by (simp add: psjf_inv_def heap_inv_def)
  ultimately show ?thesis
    using that [of "hd ?xs"] is_heap_root [of "key_of w" ?xs i] assms(2)
    by (simp add: psjf_synced_def hd_conv_nth)
qed

text \<open>What a successful call of \<^verbatim>\<open>add_process_PSJF\<close> does to the variables other than the heap.\<close>

lemma add_process_PSJF_InrD:
  assumes "add_process_PSJF (At i) s w = Inr (s', w')"
  obtains a h where "psjf_active s = At a" "heap_top (psjf_pq s) = Inr (At a)" "a < length (procs w)"
    "s' = s\<lparr>psjf_pq := h, current_time := arrival_time (procs w ! i)\<rparr>"
    "w' = deduct w a (arrival_time (procs w ! i) - last_context_switch_time s)"
    "heap_insert w' (psjf_pq s) (At i) = Inr h"
  using assms
  by (cases "psjf_active s")
    (auto simp: add_process_PSJF_def Let_def cint_Inr_iff deref_def assign_def split: if_splits)

text \<open>
  Two arrivals without a context switch between them: the time since the last one is deducted
  twice.
\<close>

lemma add_process_PSJF_twice:
  assumes "add_process_PSJF (At i) s w = Inr (s1, w1)" "add_process_PSJF (At j) s1 w1 = Inr (s2, w2)"
    "psjf_active s = At a" "arrival_time (procs w ! i) = t" "arrival_time (procs w ! j) = t"
  shows "remaining_time (procs w2 ! a) =
     remaining_time (procs w ! a) - 2 * (t - last_context_switch_time s)"
proof -
  obtain h where 1: "a < length (procs w)" "w1 = deduct w a (t - last_context_switch_time s)"
    "s1 = s\<lparr>psjf_pq := h, current_time := t\<rparr>"
    using add_process_PSJF_InrD [OF assms(1)] assms(3,4) by (metis ptr.inject)
  have "arrival_time (procs w1 ! j) = t"
    using 1(1,2) assms(5) by (cases "j = a") auto
  moreover obtain a' where "psjf_active s1 = At a'"
    "w2 = deduct w1 a' (arrival_time (procs w1 ! j) - last_context_switch_time s1)"
    using add_process_PSJF_InrD [OF assms(2)] by metis
  ultimately have "w2 = deduct w1 a (t - last_context_switch_time s)"
    using 1(3) assms(3) by simp
  with 1(1,2) show ?thesis by simp
qed

text \<open>
  If the first of two simultaneous arrivals is shorter than what is left of the running job, the
  assertion of the second call fails.
\<close>

lemma add_process_PSJF_after_shorter:
  assumes "psjf_inv w1 s1" "psjf_active s1 = At a" "i \<in> set (psjf_jobs s1)" "key_of w1 i < key_of w1 a"
  shows "add_process_PSJF p s1 w1 = Inl AssertFail"
proof -
  have ne: "psjf_jobs s1 \<noteq> []" using assms(3) by auto
  obtain n where "n < length (psjf_jobs s1)" "i = psjf_jobs s1 ! n"
    using assms(3) by (auto simp: in_set_conv_nth)
  then have "key_of w1 (hd (psjf_jobs s1)) \<le> key_of w1 i"
    using assms(1) ne is_heap_root [of "key_of w1"] by (simp add: psjf_inv_def heap_inv_def hd_conv_nth)
  then have "hd (psjf_jobs s1) \<noteq> a" using assms(4) by auto
  with psjf_top [OF assms(1) ne] assms(2) show ?thesis
    by (intro add_process_PSJF_not_synced) auto
qed

end
