(* ===== verification/Timer.thy ===== *)
theory Timer
  imports FIFO_Sched RR_Sched SJF_Sched PSJF_Sched
begin

text \<open>
  The global variables of \<^verbatim>\<open>main.c\<close>, the queue of arrivals over the process table
  (\<^verbatim>\<open>arrival_queue_init\<close> to \<^verbatim>\<open>arrival_queue_empty\<close>), and the timer (\<^verbatim>\<open>TimerInfo\<close> and the functions
  from \<^verbatim>\<open>init_arrival_remaining\<close> to \<^verbatim>\<open>update_timeslice_remaining\<close>), which simulates the two timers
  of the round-robin policy, next arrival and end of the time slice, with a single one.
\<close>

section \<open>The state of the program\<close>

text \<open>
  \<^verbatim>\<open>struct TimerInfo\<close> without its \<^verbatim>\<open>timer_id\<close>: the program has one timer, and only hands the id that
  \<^verbatim>\<open>timer_create\<close> stored there back to \<^verbatim>\<open>timer_settime\<close>.
\<close>

record TimerInfo =
  time_unit :: timespec
  arrival_remaining :: timespec
  timeslice_remaining :: timespec

text \<open>
  The globals of \<^verbatim>\<open>main.c\<close> and of the four schedulers, the local \<^verbatim>\<open>timer_info\<close> of \<^verbatim>\<open>main\<close>, and what
  the kernel keeps for the process: the value of its timer (zero when it is not armed) and the two
  signals that may be pending. \<open>arrival_ptr\<close> is the index of the element it points to.
\<close>

record globals =
  world_of :: world
  current_strategy :: ScheduleStrategy
  num_process :: int
  arrival_ptr :: nat
  event_type :: EventType
  fifo_of :: FIFO_state
  rr_of :: RR_state
  sjf_of :: SJF_state
  psjf_of :: PSJF_state
  timer_info :: TimerInfo
  it_value :: timespec
  alrm_pending :: bool
  chld_pending :: bool

section \<open>The arrival queue\<close>

definition arrival_queue_init :: "globals \<Rightarrow> globals" where
  "arrival_queue_init g = g\<lparr>arrival_ptr := 0\<rparr>"

definition arrival_queue_empty :: "globals \<Rightarrow> bool" where
  "arrival_queue_empty g \<longleftrightarrow> int (arrival_ptr g) = num_process g"

definition timeunits_until_next_arrival :: "globals \<Rightarrow> int res" where
  "timeunits_until_next_arrival g =
     bindR (assertR (\<not> arrival_queue_empty g)) (\<lambda>_.
     bindR (deref (world_of g) (At (arrival_ptr g))) (\<lambda>this.
     if arrival_ptr g = 0 then Inr (arrival_time this)
     else bindR (deref (world_of g) (At (arrival_ptr g - 1))) (\<lambda>prev_process.
          cint (arrival_time this - arrival_time prev_process))))"

definition get_arrived_process :: "globals \<Rightarrow> ptr \<times> globals" where
  "get_arrived_process g = (At (arrival_ptr g), g\<lparr>arrival_ptr := arrival_ptr g + 1\<rparr>)"

text \<open>The comparison function for \<^verbatim>\<open>qsort\<close>, which the program never calls.\<close>

definition processinfo_ptr_cmp :: "world \<Rightarrow> ptr \<Rightarrow> ptr \<Rightarrow> int res" where
  "processinfo_ptr_cmp w lhs rhs =
     bindR (deref w lhs) (\<lambda>l. bindR (deref w rhs) (\<lambda>r. cint (arrival_time l - arrival_time r)))"

section \<open>The timer\<close>

definition RR_TIMES_OF_UNIT :: int where
  "RR_TIMES_OF_UNIT = 500"

definition UNIT_MEASURE_REPEAT :: int where
  "UNIT_MEASURE_REPEAT = 1000"

abbreviation ts_zero :: timespec where
  "ts_zero \<equiv> \<lparr>tv_sec = 0, tv_nsec = 0\<rparr>"

text \<open>\<^verbatim>\<open>measure_time_unit\<close>, given the two readings of the monotonic clock.\<close>

definition measure_time_unit :: "timespec \<Rightarrow> timespec \<Rightarrow> timespec res" where
  "measure_time_unit begin' end' =
     bindR (timespec_subtract end' begin') (\<lambda>res. timespec_divide res UNIT_MEASURE_REPEAT)"

text \<open>\<^verbatim>\<open>raise(SIGALRM)\<close> while the signal is blocked makes it pending.\<close>

definition init_arrival_remaining :: "globals \<Rightarrow> globals res" where
  "init_arrival_remaining g =
     bindR (timeunits_until_next_arrival g) (\<lambda>n.
     bindR (timespec_multiply (time_unit (timer_info g)) n) (\<lambda>r.
     let g' = g\<lparr>timer_info := (timer_info g)\<lparr>arrival_remaining := r\<rparr>\<rparr> in
     bindR (timeunits_until_next_arrival g') (\<lambda>n'.
     Inr (if n' = 0 then g'\<lparr>alrm_pending := True\<rparr> else g'))))"

definition init_timeslice_remaining :: "globals \<Rightarrow> globals res" where
  "init_timeslice_remaining g =
     (if current_strategy g \<noteq> RR then Inr g
      else bindR (timespec_multiply (time_unit (timer_info g)) RR_TIMES_OF_UNIT) (\<lambda>r.
           Inr (g\<lparr>timer_info := (timer_info g)\<lparr>timeslice_remaining := r\<rparr>\<rparr>)))"

definition get_expire_reason :: "globals \<Rightarrow> EventType res" where
  "get_expire_reason g =
     (if current_strategy g \<noteq> RR then Inr PROCESS_ARRIVAL
      else if arrival_queue_empty g then Inr TIMESLICE_OVER
      else bindR (min_timespecp (arrival_remaining (timer_info g)) (timeslice_remaining (timer_info g)))
             (\<lambda>min'. case min' of Lhs \<Rightarrow> Inr PROCESS_ARRIVAL | Rhs \<Rightarrow> Inr TIMESLICE_OVER))"

definition subtract_time_passed :: "globals \<Rightarrow> globals res" where
  "subtract_time_passed g =
     (if current_strategy g = RR \<and> \<not> arrival_queue_empty g
      then let ti = timer_info g in
        bindR (min_timespecp (arrival_remaining ti) (timeslice_remaining ti)) (\<lambda>min'. case min' of
          Lhs \<Rightarrow> bindR (timespec_subtract (timeslice_remaining ti) (arrival_remaining ti)) (\<lambda>d.
                 Inr (g\<lparr>timer_info := ti\<lparr>timeslice_remaining := d, arrival_remaining := ts_zero\<rparr>\<rparr>))
        | Rhs \<Rightarrow> bindR (timespec_subtract (arrival_remaining ti) (timeslice_remaining ti)) (\<lambda>d.
                 Inr (g\<lparr>timer_info := ti\<lparr>arrival_remaining := d, timeslice_remaining := ts_zero\<rparr>\<rparr>)))
      else Inr g)"

definition timer_value :: "globals \<Rightarrow> timespec res" where
  "timer_value g =
     (let ti = timer_info g in
      if current_strategy g \<noteq> RR then Inr (arrival_remaining ti)
      else if arrival_queue_empty g then Inr (timeslice_remaining ti)
      else bindR (min_timespecp (arrival_remaining ti) (timeslice_remaining ti)) (\<lambda>min'.
           Inr (case min' of Lhs \<Rightarrow> arrival_remaining ti | Rhs \<Rightarrow> timeslice_remaining ti)))"

definition set_timer :: "os \<Rightarrow> globals \<Rightarrow> globals res" where
  "set_timer os g =
     bindR (timer_value g) (\<lambda>v.
     let err = timer_settime os v in
     if err = -1 then scheduler_exit err
     else Inr (g\<lparr>it_value := v\<rparr>))"

definition create_timer_and_init_timespec :: "os \<Rightarrow> globals \<Rightarrow> globals res" where
  "create_timer_and_init_timespec os g =
     (let err = timer_create os in
      if err = -1 then scheduler_exit err
      else bindR (init_arrival_remaining g) (\<lambda>g1.
           bindR (init_timeslice_remaining g1) (\<lambda>g2.
           set_timer os g2)))"

definition update_arrival_remaining :: "int \<Rightarrow> globals \<Rightarrow> globals res" where
  "update_arrival_remaining time_units g =
     bindR (assert_nonnegetive_remaining (arrival_remaining (timer_info g))) (\<lambda>_.
     bindR (timespec_multiply (time_unit (timer_info g)) time_units) (\<lambda>r.
     Inr (g\<lparr>timer_info := (timer_info g)\<lparr>arrival_remaining := r\<rparr>\<rparr>)))"

definition update_timeslice_remaining :: "globals \<Rightarrow> globals res" where
  "update_timeslice_remaining g =
     (if current_strategy g \<noteq> RR then Inr g
      else bindR (assert_nonnegetive_remaining (timeslice_remaining (timer_info g))) (\<lambda>_.
           bindR (timespec_multiply (time_unit (timer_info g)) RR_TIMES_OF_UNIT) (\<lambda>r.
           Inr (g\<lparr>timer_info := (timer_info g)\<lparr>timeslice_remaining := r\<rparr>\<rparr>))))"

section \<open>What the timer calls of the kernel are relied on for\<close>

text \<open>
  As documented, \<^verbatim>\<open>timer_settime\<close> accepts every normalised value that is not negative, and creating
  a timer succeeds.
\<close>

definition timer_ok :: "os \<Rightarrow> bool" where
  "timer_ok os \<longleftrightarrow> timer_create os = 0 \<and> (\<forall>ts. duration ts \<longrightarrow> timer_settime os ts = 0)"

text \<open>A time unit is a duration whose product with every \<^verbatim>\<open>int\<close> is representable.\<close>

definition unit_ok :: "timespec \<Rightarrow> bool" where
  "unit_ok u \<longleftrightarrow> duration u \<and> in_long ((tv_sec u + 1) * 2147483647)"

lemma unit_multiply:
  assumes "unit_ok u" "0 \<le> n" "in_int n"
  obtains r where "timespec_multiply u n = Inr r" "duration r" "nanos r = nanos u * n"
proof (rule timespec_multiply_ok)
  show "duration u" "0 \<le> n" "in_int n" using assms by (simp_all add: unit_ok_def)
  have "0 \<le> tv_sec u" using assms(1) by (simp add: unit_ok_def duration_def)
  moreover have "n \<le> 2147483647" using assms(3) by (simp add: in_int_def)
  ultimately have "0 \<le> (tv_sec u + 1) * n" "(tv_sec u + 1) * n \<le> (tv_sec u + 1) * 2147483647"
    using assms(2) mult_left_mono [of n 2147483647 "tv_sec u + 1"] by simp_all
  then show "in_long ((tv_sec u + 1) * n)" using assms(1) by (simp add: unit_ok_def in_long_def)
qed

lemma duration_zero [simp]: "duration ts_zero"
  by (simp add: duration_def normal_def BILLION_def in_long_def)

lemma nanos_zero [simp]: "nanos ts_zero = 0"
  by (simp add: nanos_def)

definition timer_inv :: "globals \<Rightarrow> bool" where
  "timer_inv g \<longleftrightarrow> unit_ok (time_unit (timer_info g)) \<and>
     duration (arrival_remaining (timer_info g)) \<and> duration (timeslice_remaining (timer_info g))"

lemma timspec_is_zero_nanos: "duration v \<Longrightarrow> timspec_is_zero v \<longleftrightarrow> nanos v = 0"
  by (auto simp: timspec_is_zero_def duration_def nanos_eq_0_iff)

section \<open>One timer for two\<close>

lemma get_expire_reason_RR:
  assumes "timer_inv g" "current_strategy g = RR"
  shows "get_expire_reason g =
    Inr (if arrival_queue_empty g then TIMESLICE_OVER
         else if nanos (arrival_remaining (timer_info g)) < nanos (timeslice_remaining (timer_info g))
         then PROCESS_ARRIVAL else TIMESLICE_OVER)"
  using assms by (simp add: get_expire_reason_def timer_inv_def min_timespecp_duration)

lemma timer_value_RR:
  assumes "timer_inv g" "current_strategy g = RR" "\<not> arrival_queue_empty g"
  shows "timer_value g =
    Inr (if nanos (arrival_remaining (timer_info g)) < nanos (timeslice_remaining (timer_info g))
         then arrival_remaining (timer_info g) else timeslice_remaining (timer_info g))"
  using assms by (simp add: timer_value_def timer_inv_def min_timespecp_duration Let_def)

text \<open>
  After the timer has expired, both remaining times have gone down by exactly the time it was set
  to, and the one that expired is zero.
\<close>

lemma subtract_time_passed_RR:
  assumes inv: "timer_inv g" and rr: "current_strategy g = RR" "\<not> arrival_queue_empty g"
  obtains ti v where "subtract_time_passed g = Inr (g\<lparr>timer_info := ti\<rparr>)" "timer_value g = Inr v"
    "time_unit ti = time_unit (timer_info g)" "duration (arrival_remaining ti)"
    "duration (timeslice_remaining ti)"
    "nanos (arrival_remaining ti) = nanos (arrival_remaining (timer_info g)) - nanos v"
    "nanos (timeslice_remaining ti) = nanos (timeslice_remaining (timer_info g)) - nanos v"
proof -
  let ?ti = "timer_info g" let ?a = "arrival_remaining ?ti" let ?s = "timeslice_remaining ?ti"
  have d: "duration ?a" "duration ?s" using inv by (simp_all add: timer_inv_def)
  note m = min_timespecp_duration [OF d]
  show ?thesis
  proof (cases "nanos ?a < nanos ?s")
    case True
    obtain r where r: "timespec_subtract ?s ?a = Inr r" "duration r" "nanos r = nanos ?s - nanos ?a"
      using timespec_subtract_le_duration [OF d(2,1)] True by auto
    show ?thesis
      using True rr m r timer_value_RR [OF inv rr]
      by (intro that [of "?ti\<lparr>timeslice_remaining := r, arrival_remaining := ts_zero\<rparr>" ?a])
        (simp_all add: subtract_time_passed_def Let_def)
  next
    case False
    obtain r where r: "timespec_subtract ?a ?s = Inr r" "duration r" "nanos r = nanos ?a - nanos ?s"
      using timespec_subtract_le_duration [OF d] False by auto
    show ?thesis
      using False rr m r timer_value_RR [OF inv rr]
      by (intro that [of "?ti\<lparr>arrival_remaining := r, timeslice_remaining := ts_zero\<rparr>" ?s])
        (simp_all add: subtract_time_passed_def Let_def)
  qed
qed

text \<open>The event does not matter for the timer.\<close>

lemma subtract_time_passed_event:
  "subtract_time_passed g = Inr (g\<lparr>timer_info := ti\<rparr>) \<Longrightarrow>
   subtract_time_passed (g\<lparr>event_type := r\<rparr>) = Inr (g\<lparr>event_type := r, timer_info := ti\<rparr>)"
  by (cases g) (auto simp: subtract_time_passed_def arrival_queue_empty_def Let_def
      split: if_splits arg_ptr.splits)

lemma timer_inv_event: "timer_inv (g\<lparr>event_type := r, timer_info := ti\<rparr>) = timer_inv (g\<lparr>timer_info := ti\<rparr>)"
  by (simp add: timer_inv_def)

lemma subtract_timer_cases:
  assumes "timer_inv g" "current_strategy g = RR"
  obtains ti where "subtract_time_passed g = Inr (g\<lparr>timer_info := ti\<rparr>)"
    "timer_inv (g\<lparr>timer_info := ti\<rparr>)" "time_unit ti = time_unit (timer_info g)"
    "\<not> arrival_queue_empty g \<Longrightarrow> nanos (arrival_remaining ti) =
       (if nanos (arrival_remaining (timer_info g)) < nanos (timeslice_remaining (timer_info g)) then 0
        else nanos (arrival_remaining (timer_info g)) - nanos (timeslice_remaining (timer_info g)))"
    "\<not> arrival_queue_empty g \<Longrightarrow> nanos (timeslice_remaining ti) =
       (if nanos (arrival_remaining (timer_info g)) < nanos (timeslice_remaining (timer_info g))
        then nanos (timeslice_remaining (timer_info g)) - nanos (arrival_remaining (timer_info g)) else 0)"
proof (cases "arrival_queue_empty g")
  case True
  then show ?thesis using that [of "timer_info g"] assms by (simp add: subtract_time_passed_def)
next
  case False
  obtain ti v where ti: "subtract_time_passed g = Inr (g\<lparr>timer_info := ti\<rparr>)" "timer_value g = Inr v"
    "time_unit ti = time_unit (timer_info g)" "duration (arrival_remaining ti)"
    "duration (timeslice_remaining ti)"
    "nanos (arrival_remaining ti) = nanos (arrival_remaining (timer_info g)) - nanos v"
    "nanos (timeslice_remaining ti) = nanos (timeslice_remaining (timer_info g)) - nanos v"
    using subtract_time_passed_RR [OF assms False] .
  then show ?thesis
    using that [of ti] assms(1) timer_value_RR [OF assms False]
    by (auto simp: timer_inv_def Let_def split: if_splits)
qed

lemma update_timeslice_remaining_ok:
  assumes "timer_inv g" "current_strategy g = RR"
  obtains ti where "update_timeslice_remaining g = Inr (g\<lparr>timer_info := ti\<rparr>)"
    "timer_inv (g\<lparr>timer_info := ti\<rparr>)" "arrival_remaining ti = arrival_remaining (timer_info g)"
    "nanos (timeslice_remaining ti) = nanos (time_unit (timer_info g)) * RR_TIMES_OF_UNIT"
    "time_unit ti = time_unit (timer_info g)"
proof -
  have u: "unit_ok (time_unit (timer_info g))" "0 \<le> RR_TIMES_OF_UNIT" "in_int RR_TIMES_OF_UNIT"
    using assms(1) by (simp_all add: timer_inv_def RR_TIMES_OF_UNIT_def in_int_def)
  obtain r where r: "timespec_multiply (time_unit (timer_info g)) RR_TIMES_OF_UNIT = Inr r"
    "duration r" "nanos r = nanos (time_unit (timer_info g)) * RR_TIMES_OF_UNIT"
    using unit_multiply [OF u] .
  then show ?thesis
    using assms by (intro that [of "(timer_info g)\<lparr>timeslice_remaining := r\<rparr>"])
      (auto simp: update_timeslice_remaining_def assert_nonnegetive_remaining_def timer_inv_def
        duration_def normal_def)
qed

lemma set_timer_ok:
  assumes "timer_inv g" "timer_ok os"
  obtains v where "set_timer os g = Inr (g\<lparr>it_value := v\<rparr>)" "timer_value g = Inr v" "duration v"
proof -
  have "\<exists>v. timer_value g = Inr v \<and> duration v"
    using assms(1) by (simp add: timer_value_def timer_inv_def min_timespecp_duration Let_def)
  then obtain v where v: "timer_value g = Inr v" "duration v" by auto
  then show ?thesis using that [of v] assms(2) by (simp add: set_timer_def timer_ok_def)
qed


text \<open>
  Two clock readings in order, less than 292 years apart, give a unit: a thousandth of the time
  between them.
\<close>

lemma measure_time_unit_ok:
  assumes "duration t0" "duration t1" "nanos t0 \<le> nanos t1" "in_long (nanos t1 - nanos t0)"
  obtains u where "measure_time_unit t0 t1 = Inr u" "unit_ok u"
    "nanos u = (nanos t1 - nanos t0) div UNIT_MEASURE_REPEAT"
proof -
  obtain d where d: "timespec_subtract t1 t0 = Inr d" "duration d" "nanos d = nanos t1 - nanos t0"
    using timespec_subtract_le_duration [OF assms(2,1,3)] .
  have R: "0 < UNIT_MEASURE_REPEAT" by (simp add: UNIT_MEASURE_REPEAT_def)
  obtain u where u: "timespec_divide d UNIT_MEASURE_REPEAT = Inr u" "duration u"
    "nanos u = nanos d div UNIT_MEASURE_REPEAT"
    using timespec_divide_ok [OF d(2) R] d(3) assms(4) by auto
  have "nanos u \<le> 9223372036854775"
    using zdiv_mono1 [of "nanos d" 9223372036854775807 1000] u(3) d(3) assms(4)
    by (simp add: UNIT_MEASURE_REPEAT_def in_long_def)
  then have "tv_sec u \<le> 9223372" using u(2) by (simp add: nanos_def duration_def normal_def BILLION_def)
  with u(2) have "unit_ok u" by (simp add: unit_ok_def duration_def in_long_def)
  with that u d show ?thesis by (simp add: measure_time_unit_def)
qed

text \<open>The initialisation of the timer: the first alarm is raised at once if it is due at once.\<close>

lemma create_timer_ok:
  assumes os: "timer_ok os" and rr: "current_strategy g = RR" and u: "unit_ok (time_unit (timer_info g))"
    and n: "timeunits_until_next_arrival g = Inr n" "0 \<le> n" "in_int n"
  obtains ti v where "create_timer_and_init_timespec os g =
      Inr (g\<lparr>timer_info := ti, it_value := v, alrm_pending := (n = 0 \<or> alrm_pending g)\<rparr>)"
    "timer_inv (g\<lparr>timer_info := ti\<rparr>)" "duration v"
    "nanos (arrival_remaining ti) = nanos (time_unit (timer_info g)) * n"
    "nanos (timeslice_remaining ti) = nanos (time_unit (timer_info g)) * RR_TIMES_OF_UNIT"
    "time_unit ti = time_unit (timer_info g)" "timer_value (g\<lparr>timer_info := ti\<rparr>) = Inr v"
proof -
  let ?u = "time_unit (timer_info g)"
  obtain a where a: "timespec_multiply ?u n = Inr a" "duration a" "nanos a = nanos ?u * n"
    using unit_multiply [OF u n(2,3)] .
  obtain s where s: "timespec_multiply ?u RR_TIMES_OF_UNIT = Inr s" "duration s"
    "nanos s = nanos ?u * RR_TIMES_OF_UNIT"
    using unit_multiply [OF u, of RR_TIMES_OF_UNIT] by (auto simp: RR_TIMES_OF_UNIT_def in_int_def)
  let ?ti = "(timer_info g)\<lparr>arrival_remaining := a, timeslice_remaining := s\<rparr>"
  let ?g = "g\<lparr>timer_info := ?ti, alrm_pending := (n = 0 \<or> alrm_pending g)\<rparr>"
  have t: "timeunits_until_next_arrival (g\<lparr>timer_info := ti\<rparr>) = Inr n" for ti
    using n(1) by (simp add: timeunits_until_next_arrival_def arrival_queue_empty_def cong: if_cong)
  have i: "timer_inv ?g" using u a s by (simp add: timer_inv_def)
  obtain v where v: "set_timer os ?g = Inr (?g\<lparr>it_value := v\<rparr>)" "timer_value ?g = Inr v" "duration v"
    using set_timer_ok [OF i os] .
  have e: "(if n = 0 then g\<lparr>timer_info := t, alrm_pending := True\<rparr> else g\<lparr>timer_info := t\<rparr>) =
      g\<lparr>timer_info := t, alrm_pending := (n = 0 \<or> alrm_pending g)\<rparr>" for t by simp
  have c: "g\<lparr>alrm_pending := b, timer_info := t\<rparr> = g\<lparr>timer_info := t, alrm_pending := b\<rparr>" for b t by simp
  have "create_timer_and_init_timespec os g = set_timer os ?g"
    using os n(1) a(1) s(1) t rr
    by (simp add: create_timer_and_init_timespec_def init_arrival_remaining_def timer_ok_def
        init_timeslice_remaining_def Let_def e c)
  moreover have "timer_value (g\<lparr>timer_info := ?ti\<rparr>) = Inr v"
    using v(2) by (simp add: timer_value_def arrival_queue_empty_def Let_def cong: if_cong)
  ultimately show ?thesis using that [where ti = ?ti and v = v] v i a s by (simp add: timer_inv_def)
qed

end
