(* ===== verification/Input.thy ===== *)
theory Input
  imports Sched_Types
begin

text \<open>
  Reading the input: \<^verbatim>\<open>str_to_strategy\<close>, \<^verbatim>\<open>read_single_entry\<close> and \<^verbatim>\<open>read_process_info\<close> of \<^verbatim>\<open>main.c\<close>
  on the text of standard input, with the conversions \<^verbatim>\<open>%s\<close> and \<^verbatim>\<open>%d\<close> of \<^verbatim>\<open>scanf\<close> that they use.
  The main result is a round trip: a well-formed table, written in the format of the test files, is
  read back exactly.
\<close>

section \<open>scanf\<close>

definition isspace :: "char \<Rightarrow> bool" where
  "isspace c \<longleftrightarrow> of_char c = (32::nat) \<or> 9 \<le> (of_char c :: nat) \<and> of_char c \<le> (13::nat)"

definition isdigit :: "char \<Rightarrow> bool" where
  "isdigit c \<longleftrightarrow> 48 \<le> (of_char c :: nat) \<and> of_char c \<le> (57::nat)"

definition digit_val :: "char \<Rightarrow> int" where
  "digit_val c = of_char c - 48"

definition skip_space :: "string \<Rightarrow> string" where
  "skip_space s = dropWhile isspace s"

text \<open>\<^verbatim>\<open>%s\<close>: the next word, or nothing at the end of the input.\<close>

definition scanf_s :: "string \<Rightarrow> (string \<times> string) option" where
  "scanf_s s =
     (let t = skip_space s; word = takeWhile (\<lambda>c. \<not> isspace c) t
      in if word = [] then None else Some (word, dropWhile (\<lambda>c. \<not> isspace c) t))"

fun digits_val :: "int \<Rightarrow> string \<Rightarrow> int" where
  "digits_val acc [] = acc"
| "digits_val acc (c # cs) = digits_val (acc * 10 + digit_val c) cs"

definition scanf_unsigned :: "string \<Rightarrow> (int \<times> string) option" where
  "scanf_unsigned t =
     (let ds = takeWhile isdigit t
      in if ds = [] then None else Some (digits_val 0 ds, dropWhile isdigit t))"

text \<open>\<^verbatim>\<open>%d\<close>: an optional sign and decimal digits, or nothing if there is no number.\<close>

definition scanf_d :: "string \<Rightarrow> (int \<times> string) option" where
  "scanf_d s = (case skip_space s of [] \<Rightarrow> None
     | c # t \<Rightarrow>
         if c = CHR ''-'' then map_option (\<lambda>(v, r). (- v, r)) (scanf_unsigned t)
         else if c = CHR ''+'' then scanf_unsigned t
         else scanf_unsigned (c # t))"

section \<open>The functions of main.c\<close>

definition PROCESS_NAME_MAX :: nat where
  "PROCESS_NAME_MAX = 100"

definition str_to_strategy :: "string \<Rightarrow> ScheduleStrategy res" where
  "str_to_strategy strat =
     (if strat = ''RR'' then Inr RR
      else if strat = ''FIFO'' then Inr FIFO
      else if strat = ''SJF'' then Inr SJF
      else if strat = ''PSJF'' then Inr PSJF
      else Inl AssertFail)"

text \<open>
  \<^verbatim>\<open>scanf("%s", buf)\<close> into a buffer of \<^verbatim>\<open>PROCESS_NAME_MAX\<close> characters, the terminating zero
  included. At the end of the input the buffer keeps its indeterminate contents.
\<close>

definition scan_name :: "string \<Rightarrow> (string \<times> string) res" where
  "scan_name s = (case scanf_s s of None \<Rightarrow> Inl Uninitialised
     | Some (word, rest) \<Rightarrow>
         if length word < PROCESS_NAME_MAX then Inr (word, rest) else Inl BufferOverflow)"

text \<open>\<^verbatim>\<open>scanf("%d", &x)\<close>; a number that does not fit is undefined behaviour.\<close>

definition scan_int :: "string \<Rightarrow> (int \<times> string) option res" where
  "scan_int s = (case scanf_d s of None \<Rightarrow> Inr None
     | Some (v, rest) \<Rightarrow> if in_int v then Inr (Some (v, rest)) else Inl SignedOverflow)"

text \<open>
  If a number is missing, \<^verbatim>\<open>p->time_needed\<close> is not written, and the next statement reads it.
\<close>

definition read_single_entry :: "string \<Rightarrow> (ProcessInfo \<times> string) res" where
  "read_single_entry s =
     bindR (scan_name s) (\<lambda>(process_name, s1).
     bindR (scan_int s1) (\<lambda>r1. case r1 of None \<Rightarrow> Inl Uninitialised | Some (arrival, s2) \<Rightarrow>
     bindR (scan_int s2) (\<lambda>r2. case r2 of None \<Rightarrow> Inl Uninitialised | Some (needed, s3) \<Rightarrow>
     Inr (\<lparr>arrival_time = arrival, time_needed = needed, remaining_time = needed, pid = 0,
           status = NOT_STARTED, name = process_name\<rparr>, s3))))"

fun read_entries :: "nat \<Rightarrow> string \<Rightarrow> (ProcessInfo list \<times> string) res" where
  "read_entries 0 s = Inr ([], s)"
| "read_entries (Suc n) s =
     bindR (read_single_entry s) (\<lambda>(p, s').
     bindR (read_entries n s') (\<lambda>(ps, s''). Inr (p # ps, s'')))"

text \<open>
  \<^verbatim>\<open>num_process\<close> is static, so it is 0 if the first number is missing. The result is
  \<^verbatim>\<open>num_process\<close> and the contents of \<^verbatim>\<open>all_process_info\<close>.
\<close>

definition read_process_info :: "string \<Rightarrow> (int \<times> ProcessInfo list \<times> string) res" where
  "read_process_info s =
     bindR (scan_int s) (\<lambda>r.
     let (num_process, s') = (case r of None \<Rightarrow> (0, s) | Some x \<Rightarrow> x) in
     bindR (read_entries (nat num_process) s') (\<lambda>(ps, s'').
     Inr (num_process, ps, s'')))"

section \<open>The format of the input files\<close>

function show_nat :: "nat \<Rightarrow> string" where
  "show_nat n = (if n < 10 then [char_of (48 + n)]
     else show_nat (n div 10) @ [char_of (48 + n mod 10)])"
  by pat_completeness auto
termination
  by (relation "measure id") auto

declare show_nat.simps [simp del]

definition show_int :: "int \<Rightarrow> string" where
  "show_int i = (if i < 0 then CHR ''-'' # show_nat (nat (- i)) else show_nat (nat i))"

definition newline :: string where
  "newline = [CHR 0x0A]"

definition show_entry :: "ProcessInfo \<Rightarrow> string" where
  "show_entry p = name p @ '' '' @ show_int (arrival_time p) @ '' '' @ show_int (time_needed p) @ newline"

definition show_table :: "ProcessInfo list \<Rightarrow> string" where
  "show_table ps = show_int (int (length ps)) @ newline @ concat (map show_entry ps)"

text \<open>An entry as the reader leaves it: a name of at most 99 printing characters, fresh fields.\<close>

definition wf_entry :: "ProcessInfo \<Rightarrow> bool" where
  "wf_entry p \<longleftrightarrow> name p \<noteq> [] \<and> list_all (\<lambda>c. \<not> isspace c) (name p) \<and> length (name p) < PROCESS_NAME_MAX \<and>
     in_int (arrival_time p) \<and> in_int (time_needed p) \<and> remaining_time p = time_needed p \<and>
     pid p = 0 \<and> status p = NOT_STARTED"

section \<open>The round trip\<close>

lemma isdigit_char_of [simp]: "n < 10 \<Longrightarrow> isdigit (char_of (48 + n :: nat))"
  by (simp add: isdigit_def)

lemma digit_val_char_of [simp]: "n < 10 \<Longrightarrow> digit_val (char_of (48 + n :: nat)) = int n"
proof -
  assume "n < 10"
  then have "(of_char (char_of (48 + n) :: char) :: nat) = 48 + n" by simp
  then have "(of_char (char_of (48 + n) :: char) :: int) = int (48 + n)"
    by (metis of_nat_of_char)
  then show ?thesis by (simp add: digit_val_def)
qed

lemma digits_val_append: "digits_val a (xs @ [c]) = digits_val a xs * 10 + digit_val c"
  by (induction xs arbitrary: a) auto

lemma show_nat_digits: "show_nat n \<noteq> [] \<and> list_all isdigit (show_nat n)"
  by (induction n rule: show_nat.induct) (subst (1 2) show_nat.simps, auto)

lemma digits_val_show_nat: "digits_val 0 (show_nat n) = int n"
proof (induction n rule: show_nat.induct)
  case (1 n)
  show ?case
  proof (cases "n < 10")
    case True
    then show ?thesis by (subst show_nat.simps) simp
  next
    case False
    have "int (n div 10) * 10 + int (n mod 10) = int n"
      by (metis div_mult_mod_eq of_nat_add of_nat_mult of_nat_numeral)
    with False 1 show ?thesis by (subst show_nat.simps) (simp add: digits_val_append)
  qed
qed

text \<open>A rest of the input at which a number, or a word, ends.\<close>

definition ends_word :: "string \<Rightarrow> bool" where
  "ends_word r \<longleftrightarrow> (case r of [] \<Rightarrow> True | c # _ \<Rightarrow> isspace c)"

lemma isspace_not_digit: "isspace c \<Longrightarrow> \<not> isdigit c"
  by (auto simp: isspace_def isdigit_def)

lemma takeWhile_word:
  assumes "list_all P xs" "case r of [] \<Rightarrow> True | c # _ \<Rightarrow> \<not> P c"
  shows "takeWhile P (xs @ r) = xs" "dropWhile P (xs @ r) = r"
  using assms by (induction xs) (auto split: list.splits)

lemma scanf_unsigned_show_nat:
  assumes "ends_word r"
  shows "scanf_unsigned (show_nat n @ r) = Some (int n, r)"
proof -
  have "case r of [] \<Rightarrow> True | c # _ \<Rightarrow> \<not> isdigit c"
    using assms by (auto simp: ends_word_def isspace_not_digit split: list.splits)
  with show_nat_digits [of n] takeWhile_word [of isdigit "show_nat n" r] show ?thesis
    by (simp add: scanf_unsigned_def digits_val_show_nat)
qed

lemma show_nat_Cons:
  obtains c cs where "show_nat n = c # cs" "isdigit c"
  using show_nat_digits [of n] by (cases "show_nat n") auto

lemma not_isspace_digit: "isdigit c \<Longrightarrow> \<not> isspace c" "isdigit c \<Longrightarrow> c \<noteq> CHR ''-''" "isdigit c \<Longrightarrow> c \<noteq> CHR ''+''"
  using isspace_not_digit by (auto simp: isdigit_def)

lemma scanf_d_show_int:
  assumes "ends_word r" "list_all isspace sp"
  shows "scanf_d (sp @ show_int i @ r) = Some (i, r)"
proof -
  obtain c cs where c: "show_nat (nat \<bar>i\<bar>) = c # cs" "isdigit c" by (rule show_nat_Cons)
  have u: "scanf_unsigned (c # cs @ r) = Some (\<bar>i\<bar>, r)"
    using scanf_unsigned_show_nat [OF assms(1), of "nat \<bar>i\<bar>"] c(1) by simp
  have m: "\<not> isspace CHR ''-''" by (simp add: isspace_def)
  have "skip_space (sp @ show_int i @ r) = show_int i @ r"
    unfolding skip_space_def
    using assms(2) c m not_isspace_digit [OF c(2)]
    by (intro takeWhile_word(2)) (auto simp: show_int_def split: list.splits)
  then show ?thesis
    using u c not_isspace_digit [OF c(2)] by (auto simp: scanf_d_def show_int_def)
qed

lemma scan_int_show_int:
  "ends_word r \<Longrightarrow> list_all isspace sp \<Longrightarrow> in_int i \<Longrightarrow>
   scan_int (sp @ show_int i @ r) = Inr (Some (i, r))"
  by (simp add: scan_int_def scanf_d_show_int)

lemma scan_name_word:
  assumes "xs \<noteq> []" "list_all (\<lambda>c. \<not> isspace c) xs" "length xs < PROCESS_NAME_MAX" "ends_word r"
    "list_all isspace sp"
  shows "scan_name (sp @ xs @ r) = Inr (xs, r)"
proof -
  have "skip_space (sp @ xs @ r) = xs @ r"
    unfolding skip_space_def using assms(1,2,5)
    by (intro takeWhile_word(2); cases xs) auto
  moreover have "takeWhile (\<lambda>c. \<not> isspace c) (xs @ r) = xs" "dropWhile (\<lambda>c. \<not> isspace c) (xs @ r) = r"
    using takeWhile_word [OF assms(2), of r] assms(4) by (auto simp: ends_word_def split: list.splits)
  ultimately show ?thesis using assms(1,3) by (simp add: scan_name_def scanf_s_def)
qed

lemma isspace_newline: "list_all isspace newline" "list_all isspace '' ''"
  by (simp_all add: newline_def isspace_def)

lemma ends_word_simps [simp]: "ends_word (newline @ r)" "ends_word (CHR '' '' # r)"
  by (simp_all add: newline_def ends_word_def isspace_def)

lemma read_single_entry_show:
  assumes "wf_entry p" "list_all isspace sp"
  shows "read_single_entry (sp @ show_entry p @ r) = Inr (p, newline @ r)"
proof -
  let ?s2 = "'' '' @ show_int (time_needed p) @ newline @ r"
  let ?s1 = "'' '' @ show_int (arrival_time p) @ ?s2"
  have "scan_name (sp @ name p @ ?s1) = Inr (name p, ?s1)"
    using assms by (intro scan_name_word) (auto simp: wf_entry_def)
  moreover have "scan_int ?s1 = Inr (Some (arrival_time p, ?s2))"
    using assms(1) isspace_newline(2) by (intro scan_int_show_int) (auto simp: wf_entry_def)
  moreover have "scan_int ?s2 = Inr (Some (time_needed p, newline @ r))"
    using assms(1) isspace_newline(2) by (intro scan_int_show_int) (auto simp: wf_entry_def)
  ultimately show ?thesis using assms(1) by (simp add: read_single_entry_def show_entry_def wf_entry_def)
qed

lemma read_entries_show:
  assumes "list_all wf_entry ps" "list_all isspace sp" "ps \<noteq> []"
  shows "read_entries (length ps) (sp @ concat (map show_entry ps)) = Inr (ps, newline)"
  using assms
proof (induction ps arbitrary: sp)
  case (Cons p ps)
  have p: "read_single_entry (sp @ show_entry p @ concat (map show_entry ps)) =
      Inr (p, newline @ concat (map show_entry ps))"
    using Cons.prems by (intro read_single_entry_show) simp_all
  show ?case
  proof (cases "ps = []")
    case True
    then show ?thesis using p by simp
  next
    case False
    with Cons.IH [of newline] Cons.prems p isspace_newline(1) show ?thesis by simp
  qed
qed simp


definition strategy_name :: "ScheduleStrategy \<Rightarrow> string" where
  "strategy_name s = (case s of FIFO \<Rightarrow> ''FIFO'' | RR \<Rightarrow> ''RR'' | SJF \<Rightarrow> ''SJF'' | PSJF \<Rightarrow> ''PSJF'')"

lemma str_to_strategy_name [simp]: "str_to_strategy (strategy_name s) = Inr s"
  by (cases s) (simp_all add: strategy_name_def str_to_strategy_def)

lemma scan_name_strategy: "scan_name (strategy_name s @ newline @ r) = Inr (strategy_name s, newline @ r)"
  using scan_name_word [of "strategy_name s" "newline @ r" "[]"]
  by (cases s) (simp_all add: strategy_name_def isspace_def PROCESS_NAME_MAX_def)

text \<open>Reading a printed table gives it back, and leaves the last line end unread.\<close>

lemma read_process_info_show:
  assumes "list_all wf_entry ps" "ps \<noteq> []" "in_int (int (length ps))" "list_all isspace sp"
  shows "read_process_info (sp @ show_table ps) = Inr (int (length ps), ps, newline)"
proof -
  have "scan_int (sp @ show_int (int (length ps)) @ newline @ concat (map show_entry ps)) =
      Inr (Some (int (length ps), newline @ concat (map show_entry ps)))"
    using assms(3,4) by (intro scan_int_show_int) simp_all
  then show ?thesis
    using read_entries_show [OF assms(1) isspace_newline(1) assms(2)]
    by (simp add: read_process_info_def show_table_def)
qed

text \<open>The whole input file: the strategy, then the table.\<close>

definition show_input :: "ScheduleStrategy \<Rightarrow> ProcessInfo list \<Rightarrow> string" where
  "show_input s ps = strategy_name s @ newline @ show_table ps"

text \<open>As many entries are read as were announced.\<close>

lemma read_entries_length: "read_entries n s = Inr (ps, r) \<Longrightarrow> length ps = n"
  by (induction n arbitrary: s ps r) auto

lemma read_process_info_length:
  "read_process_info s = Inr (n, ps, r) \<Longrightarrow> length ps = nat n"
  by (auto simp: read_process_info_def split: option.splits prod.splits dest!: read_entries_length)

end
