(* ===== verification/Event_Loop.thy ===== *)
theory Event_Loop
  imports Timer Input
begin

text \<open>
  The rest of \<^verbatim>\<open>main.c\<close>: the functions that dispatch to the scheduler of the current strategy,
  forking, the signal handler, the initialisation and the event loop of \<^verbatim>\<open>main\<close>.
\<close>

section \<open>Dispatch to the schedulers\<close>

definition set_strategy :: "ScheduleStrategy \<Rightarrow> int \<Rightarrow> globals \<Rightarrow> globals" where
  "set_strategy s max_process g = (case s of
       FIFO \<Rightarrow> g\<lparr>fifo_of := set_strategy_FIFO max_process (fifo_of g)\<rparr>
     | RR \<Rightarrow> g\<lparr>rr_of := set_strategy_RR max_process (rr_of g)\<rparr>
     | SJF \<Rightarrow> g\<lparr>sjf_of := set_strategy_SJF max_process (sjf_of g)\<rparr>
     | PSJF \<Rightarrow> g\<lparr>psjf_of := set_strategy_PSJF max_process (psjf_of g)\<rparr>)"

text \<open>
  \<^verbatim>\<open>my_fork\<close> and the parent's side of \<^verbatim>\<open>fork_a_child\<close>: the new process inherits the scheduling
  policy and priority of its parent, which \<^verbatim>\<open>set_parent_priority\<close> has set to the highest. A failed
  fork returns -1 and makes no process.
\<close>

definition fork_a_child :: "os \<Rightarrow> int \<Rightarrow> world \<Rightarrow> int \<times> world" where
  "fork_a_child os child_run_time w =
     (let child_pid = fork os (forks w); w' = w\<lparr>forks := forks w + 1\<rparr> in
      (child_pid,
       if child_pid > 0 then w'\<lparr>prio := (prio w')(child_pid \<mapsto> sched_get_priority_max os)\<rparr> else w'))"

text \<open>The call of the scheduler's \<^verbatim>\<open>add_process\<close> at the end of \<^verbatim>\<open>add_process\<close>.\<close>

definition sched_add :: "os \<Rightarrow> ptr \<Rightarrow> globals \<Rightarrow> globals res" where
  "sched_add os p g = (let w = world_of g in case current_strategy g of
       FIFO \<Rightarrow> bindR (add_process_FIFO os p (fifo_of g) w) (\<lambda>(s, w'). Inr (g\<lparr>fifo_of := s, world_of := w'\<rparr>))
     | RR \<Rightarrow> bindR (add_process_RR p (rr_of g)) (\<lambda>s. Inr (g\<lparr>rr_of := s\<rparr>))
     | SJF \<Rightarrow> bindR (add_process_SJF p (sjf_of g) w) (\<lambda>s. Inr (g\<lparr>sjf_of := s\<rparr>))
     | PSJF \<Rightarrow> bindR (add_process_PSJF p (psjf_of g) w) (\<lambda>(s, w'). Inr (g\<lparr>psjf_of := s, world_of := w'\<rparr>)))"

definition add_process :: "os \<Rightarrow> ptr \<Rightarrow> globals \<Rightarrow> globals res" where
  "add_process os p g =
     bindR (deref (world_of g) p) (\<lambda>info.
     let (child, w1) = fork_a_child os (time_needed info) (world_of g) in
     bindR (assign w1 p (\<lambda>i. i\<lparr>pid := child\<rparr>)) (\<lambda>w2.
     bindR (suspend_process os child w2) (\<lambda>w3.
     sched_add os p (g\<lparr>world_of := w3\<rparr>))))"

definition remove_current_process :: "globals \<Rightarrow> globals res" where
  "remove_current_process g = (case current_strategy g of
       FIFO \<Rightarrow> bindR (remove_current_process_FIFO (fifo_of g)) (\<lambda>s. Inr (g\<lparr>fifo_of := s\<rparr>))
     | RR \<Rightarrow> bindR (remove_current_process_RR (rr_of g)) (\<lambda>s. Inr (g\<lparr>rr_of := s\<rparr>))
     | SJF \<Rightarrow> Inr (g\<lparr>sjf_of := remove_current_process_SJF (sjf_of g)\<rparr>)
     | PSJF \<Rightarrow> bindR (remove_current_process_PSJF (psjf_of g) (world_of g)) (\<lambda>s. Inr (g\<lparr>psjf_of := s\<rparr>)))"

definition timeslice_over :: "globals \<Rightarrow> globals res" where
  "timeslice_over g =
     bindR (assertR (current_strategy g = RR)) (\<lambda>_.
     bindR (timeslice_over_RR (rr_of g)) (\<lambda>s. Inr (g\<lparr>rr_of := s\<rparr>)))"

definition context_switch :: "os \<Rightarrow> globals \<Rightarrow> globals res" where
  "context_switch os g = (let w = world_of g in case current_strategy g of
       FIFO \<Rightarrow> bindR (context_switch_FIFO (fifo_of g) w) (\<lambda>w'. Inr (g\<lparr>world_of := w'\<rparr>))
     | RR \<Rightarrow> bindR (context_switch_RR os (rr_of g) w) (\<lambda>w'. Inr (g\<lparr>world_of := w'\<rparr>))
     | SJF \<Rightarrow> bindR (context_switch_SJF os (sjf_of g) w) (\<lambda>(s, w'). Inr (g\<lparr>sjf_of := s, world_of := w'\<rparr>))
     | PSJF \<Rightarrow> bindR (context_switch_PSJF os (psjf_of g) w) (\<lambda>(s, w'). Inr (g\<lparr>psjf_of := s, world_of := w'\<rparr>)))"

definition scheduler_empty :: "globals \<Rightarrow> bool" where
  "scheduler_empty g = (case current_strategy g of
       FIFO \<Rightarrow> scheduler_empty_FIFO (fifo_of g)
     | RR \<Rightarrow> scheduler_empty_RR (rr_of g)
     | SJF \<Rightarrow> scheduler_empty_SJF (sjf_of g)
     | PSJF \<Rightarrow> scheduler_empty_PSJF (psjf_of g))"

section \<open>Priorities of the program's own processes\<close>

definition set_my_priority :: "os \<Rightarrow> int \<Rightarrow> world \<Rightarrow> world res" where
  "set_my_priority os priority w = set_priority os (getpid os) priority w"

definition set_parent_priority :: "os \<Rightarrow> world \<Rightarrow> world res" where
  "set_parent_priority os w = set_my_priority os (sched_get_priority_max os) w"

text \<open>Executed by a child, whose own pid is an argument.\<close>

definition set_child_priority :: "os \<Rightarrow> int \<Rightarrow> world \<Rightarrow> world res" where
  "set_child_priority os self w = set_priority os self (sched_get_priority_max os - 1) w"

section \<open>Signals\<close>

text \<open>The signals that the program names, and those that are blocked and pending between two wake-ups.\<close>

datatype signal = SIGALRM | SIGCHLD | SIGINT

definition signal_handler :: "signal \<Rightarrow> globals \<Rightarrow> globals" where
  "signal_handler signo g =
     (if signo = SIGCHLD then g\<lparr>event_type := CHILD_TERMINATED\<rparr>
      else if signo = SIGALRM then g\<lparr>event_type := TIMER_EXPIRED\<rparr>
      else g)"

text \<open>
  \<^verbatim>\<open>sigsuspend\<close> returns after the handlers of all signals that were pending have run; \<open>sigs\<close> is
  the order in which they run.
\<close>

definition pending :: "globals \<Rightarrow> signal set" where
  "pending g = (if alrm_pending g then {SIGALRM} else {}) \<union> (if chld_pending g then {SIGCHLD} else {})"

definition sigsuspend :: "signal list \<Rightarrow> globals \<Rightarrow> globals" where
  "sigsuspend sigs g = fold signal_handler sigs (g\<lparr>alrm_pending := False, chld_pending := False\<rparr>)"

text \<open>
  \<^verbatim>\<open>wait(NULL)\<close> reaps one terminated child. If none has terminated, it blocks as long as there is a child
  that lives; without any child it returns an error, which is ignored. The children that live are the
  processes of the table whose pid has a priority.
\<close>

definition has_child :: "world \<Rightarrow> bool" where
  "has_child w \<longleftrightarrow> list_ex (\<lambda>p. prio w (pid p) \<noteq> None) (procs w)"

definition wait_null :: "globals \<Rightarrow> globals res" where
  "wait_null g = (case zombies (world_of g) of
       [] \<Rightarrow> if has_child (world_of g) then Inl Blocks else Inr g
     | z # zs \<Rightarrow> Inr (g\<lparr>world_of := (world_of g)\<lparr>zombies := zs\<rparr>\<rparr>))"

lemma wait_null_reaps:
  "zombies (world_of g) = z # zs \<Longrightarrow> wait_null g = Inr (g\<lparr>world_of := (world_of g)\<lparr>zombies := zs\<rparr>\<rparr>)"
  by (simp add: wait_null_def)

text \<open>Whatever it does, only the list of terminated children changes.\<close>

lemma wait_null_InrD:
  "wait_null g = Inr h \<Longrightarrow> h = g\<lparr>world_of := (world_of g)\<lparr>zombies := tl (zombies (world_of g))\<rparr>\<rparr>"
  by (auto simp: wait_null_def split: list.splits if_splits)

section \<open>The event loop\<close>

lemma sched_add_frame:
  assumes "sched_add os p g = Inr g'"
  shows "arrival_ptr g' = arrival_ptr g \<and> length (procs (world_of g')) = length (procs (world_of g))"
  using assms
  by (auto simp: sched_add_def Let_def add_process_FIFO_def add_process_PSJF_def assign_def
      resume_process_def set_priority_def scheduler_exit_def
      split: ScheduleStrategy.splits ptr.splits if_splits)

lemma add_process_frame:
  assumes "add_process os p g = Inr g'"
  shows "arrival_ptr g' = arrival_ptr g \<and> length (procs (world_of g')) = length (procs (world_of g))"
  using assms
  by (auto simp: add_process_def fork_a_child_def Let_def assign_def suspend_process_def
      set_priority_def scheduler_exit_def split: ptr.splits if_splits dest!: sched_add_frame)

lemma timeunits_InrD: "timeunits_until_next_arrival g = Inr t \<Longrightarrow> arrival_ptr g < length (procs (world_of g))"
  by (auto simp: timeunits_until_next_arrival_def dest!: deref_InrD)

text \<open>\<^verbatim>\<open>while(!arrival_queue_empty() && (arrival_time = timeunits_until_next_arrival()) == 0)\<close>\<close>

function add_simultaneous :: "os \<Rightarrow> int \<Rightarrow> globals \<Rightarrow> (int \<times> globals) res" where
  "add_simultaneous os arrival g =
     (if arrival_queue_empty g then Inr (arrival, g)
      else bindR (timeunits_until_next_arrival g) (\<lambda>t.
        if t = 0
        then let (p, g1) = get_arrived_process g in
             bindR (add_process os p g1) (\<lambda>g2. add_simultaneous os t g2)
        else Inr (t, g)))"
  by pat_completeness auto
termination
  by (relation "measure (\<lambda>(os, t, g). length (procs (world_of g)) - arrival_ptr g)")
    (auto simp: get_arrived_process_def dest!: add_process_frame timeunits_InrD)

declare add_simultaneous.simps [simp del]

definition handle_arrival :: "os \<Rightarrow> globals \<Rightarrow> globals res" where
  "handle_arrival os g =
     (let (p, g1) = get_arrived_process g in
      bindR (add_process os p g1) (\<lambda>g2.
      bindR (add_simultaneous os 0 g2) (\<lambda>(arrival, g3).
      update_arrival_remaining arrival g3)))"

definition handle_timer :: "os \<Rightarrow> globals \<Rightarrow> globals res" where
  "handle_timer os g =
     bindR (get_expire_reason g) (\<lambda>reason.
     bindR (subtract_time_passed (g\<lparr>event_type := reason\<rparr>)) (\<lambda>g1.
     bindR
       (if event_type g1 = TIMESLICE_OVER
        then bindR (timeslice_over g1) update_timeslice_remaining
        else if event_type g1 = PROCESS_ARRIVAL then handle_arrival os g1
        else Inr g1)
       (set_timer os)))"

text \<open>The body of the loop after \<^verbatim>\<open>sigsuspend\<close>; the flag says that the loop is left.\<close>

definition handle_event :: "os \<Rightarrow> globals \<Rightarrow> (bool \<times> globals) res" where
  "handle_event os g =
     bindR
       (if event_type g = TIMER_EXPIRED then handle_timer os g
        else if event_type g = CHILD_TERMINATED then bindR (wait_null g) remove_current_process
        else Inr g)
       (\<lambda>g'. if arrival_queue_empty g' \<and> scheduler_empty g' then Inr (True, g')
             else bindR (context_switch os g') (\<lambda>g''. Inr (False, g'')))"

definition loop_iteration :: "os \<Rightarrow> signal list \<Rightarrow> globals \<Rightarrow> (bool \<times> globals) res" where
  "loop_iteration os sigs g = handle_event os (sigsuspend sigs g)"

section \<open>Initialisation and output\<close>

definition world_init :: "ProcessInfo list \<Rightarrow> world" where
  "world_init ps = \<lparr>procs = ps, prio = (\<lambda>_. None), forks = 0, zombies = []\<rparr>"

text \<open>
  The globals before \<^verbatim>\<open>main\<close> sets them; \<open>junk\<close> is the indeterminate contents of the local
  \<^verbatim>\<open>timer_info\<close>.
\<close>

definition globals_static :: "TimerInfo \<Rightarrow> globals" where
  "globals_static junk = \<lparr>world_of = world_init [], current_strategy = FIFO, num_process = 0,
     arrival_ptr = 0, event_type = TIMER_EXPIRED, fifo_of = FIFO_static, rr_of = RR_static,
     sjf_of = SJF_static, psjf_of = PSJF_static, timer_info = junk, it_value = ts_zero,
     alrm_pending = False, chld_pending = False\<rparr>"

text \<open>
  \<^verbatim>\<open>main\<close> up to the loop: \<open>input\<close> is the standard input, \<open>t0\<close> and \<open>t1\<close> are the clock before and
  after the thousand time units of \<^verbatim>\<open>measure_time_unit\<close>.
\<close>

definition main_init :: "os \<Rightarrow> string \<Rightarrow> timespec \<Rightarrow> timespec \<Rightarrow> TimerInfo \<Rightarrow> globals res" where
  "main_init os input t0 t1 junk =
     bindR (set_parent_priority os (world_init [])) (\<lambda>w.
     bindR (scan_name input) (\<lambda>(strat, s1).
     bindR (str_to_strategy strat) (\<lambda>strategy.
     bindR (read_process_info s1) (\<lambda>(n, ps, s2).
     let g = arrival_queue_init ((globals_static junk)
               \<lparr>world_of := w\<lparr>procs := ps\<rparr>, current_strategy := strategy, num_process := n\<rparr>);
         g1 = set_strategy strategy n g in
     bindR (measure_time_unit t0 t1) (\<lambda>unit.
     create_timer_and_init_timespec os (g1\<lparr>timer_info := (timer_info g1)\<lparr>time_unit := unit\<rparr>\<rparr>))))))"

text \<open>The lines printed after the loop: the name and the pid of every process.\<close>

definition main_output :: "globals \<Rightarrow> (string \<times> int) list" where
  "main_output g = map (\<lambda>p. (name p, pid p)) (take (nat (num_process g)) (procs (world_of g)))"

end
