(* ===== verification/System.thy ===== *)
theory System
  imports Event_Loop
begin

text \<open>
  The program together with its environment, as a step relation: the timer fires, the running child
  terminates, the event loop wakes up and handles what is pending. The lemmas on the process table
  and on arrivals are shared by the invariants of the strategies.
\<close>

section \<open>The step relation\<close>

text \<open>
  The children in the kernel are those processes of the table whose pid has a priority. The kernel
  runs a child of the highest priority, so only such a child can terminate.
\<close>

definition runs :: "world \<Rightarrow> nat \<Rightarrow> bool" where
  "runs w i \<longleftrightarrow> i < length (procs w) \<and> (\<exists>m. prio_of w i = Some m \<and>
     (\<forall>j < length (procs w). \<forall>m'. prio_of w j = Some m' \<longrightarrow> m' \<le> m))"

definition child_exits :: "nat \<Rightarrow> world \<Rightarrow> world" where
  "child_exits i w = (let p = pid (procs w ! i) in
     w\<lparr>prio := (prio w)(p := None), zombies := zombies w @ [p]\<rparr>)"

text \<open>
  Signals arrive one at a time: the environment acts while no signal is pending, so each wake-up
  handles one event. (What happens otherwise is stated separately.)
\<close>

inductive step :: "os \<Rightarrow> globals \<Rightarrow> globals \<Rightarrow> bool" for os where
  timer_fires: "pending g = {} \<Longrightarrow> \<not> timspec_is_zero (it_value g) \<Longrightarrow>
     step os g (g\<lparr>alrm_pending := True, it_value := ts_zero\<rparr>)"
| child_terminates: "pending g = {} \<Longrightarrow> runs (world_of g) i \<Longrightarrow>
     step os g (g\<lparr>chld_pending := True, world_of := child_exits i (world_of g)\<rparr>)"
| wakes_up: "pending g = {sig} \<Longrightarrow> loop_iteration os [sig] g = Inr (False, g') \<Longrightarrow> step os g g'"

inductive reachable :: "os \<Rightarrow> globals \<Rightarrow> globals \<Rightarrow> bool" for os g0 where
  reach_start: "reachable os g0 g0"
| reach_step: "reachable os g0 g \<Longrightarrow> step os g g' \<Longrightarrow> reachable os g0 g'"

inductive_cases step_cases: "step os g g'"

text \<open>A turn that leaves the loop is still to come, in some continuation.\<close>

definition can_finish :: "os \<Rightarrow> globals \<Rightarrow> bool" where
  "can_finish os g \<longleftrightarrow> (\<exists>h sig g'. reachable os g h \<and> pending h = {sig} \<and>
     loop_iteration os [sig] h = Inr (True, g'))"

lemma reachable_converse: "reachable os g' h \<Longrightarrow> step os g g' \<Longrightarrow> reachable os g h"
  by (induction rule: reachable.induct) (auto intro: reachable.intros)

lemma can_finish_step: "step os g g' \<Longrightarrow> can_finish os g' \<Longrightarrow> can_finish os g"
  unfolding can_finish_def using reachable_converse by blast

lemma can_finish_turn:
  assumes "pending g = {sig}" "loop_iteration os [sig] g = Inr (b, g')" "\<not> b \<Longrightarrow> can_finish os g'"
  shows "can_finish os g"
proof (cases b)
  case True
  then have "reachable os g g \<and> pending g = {sig} \<and> loop_iteration os [sig] g = Inr (True, g')"
    using assms(1,2) reach_start by simp
  then show ?thesis unfolding can_finish_def by (intro exI)
next
  case False
  with assms(2) have "step os g g'" by (intro wakes_up [OF assms(1)]) simp
  from can_finish_step [OF this assms(3) [OF False]] show ?thesis .
qed

text \<open>
  A run along which a measure decreases is no longer than the measure at its start, and two steps
  for each step at which it increases, by at most one.
\<close>

lemma card_less_Suc_if: "card {i. i < Suc k \<and> P i} = card {i. i < k \<and> P i} + (if P k then 1 else 0)"
proof -
  have "{i. i < Suc k \<and> P i} = (if P k then insert k {i. i < k \<and> P i} else {i. i < k \<and> P i})"
    by (auto simp: less_Suc_eq)
  then show ?thesis by simp
qed

lemma bounded_run:
  assumes "\<And>g g'. I g \<Longrightarrow> step os g g' \<Longrightarrow> I g' \<and> (if B g g' then m g' \<le> m g + 1 else m g' < (m g :: nat))" "I (f 0)"
    "\<forall>i < k. step os (f i) (f (Suc i))"
  shows "I (f k) \<and> k + m (f k) \<le> m (f 0) + 2 * card {i. i < k \<and> B (f i) (f (Suc i))}"
  using assms(3)
proof (induction k)
  case (Suc k)
  then have "I (f k)" "k + m (f k) \<le> m (f 0) + 2 * card {i. i < k \<and> B (f i) (f (Suc i))}" by simp_all
  with assms(1) [of "f k" "f (Suc k)"] Suc.prems show ?case by (auto simp: card_less_Suc_if split: if_splits)
qed (use assms(2) in simp)

lemma pending_simps [simp]:
  "pending g = {} \<longleftrightarrow> \<not> alrm_pending g \<and> \<not> chld_pending g"
  "pending g = {SIGALRM} \<longleftrightarrow> alrm_pending g \<and> \<not> chld_pending g"
  "pending g = {SIGCHLD} \<longleftrightarrow> \<not> alrm_pending g \<and> chld_pending g"
  "pending g \<noteq> {SIGINT}"
  by (auto simp: pending_def)

lemma child_exits_simps [simp]:
  "procs (child_exits i w) = procs w" "forks (child_exits i w) = forks w"
  "zombies (child_exits i w) = zombies w @ [pid (procs w ! i)]"
  "prio_of (child_exits i w) j = (if pid (procs w ! j) = pid (procs w ! i) then None else prio_of w j)"
  "pids_ok (child_exits i w) = pids_ok w"
  by (auto simp: child_exits_def Let_def prio_of_def pids_ok_def fun_eq_iff)

section \<open>The process table\<close>

text \<open>
  Behaviour of \<^verbatim>\<open>fork\<close> when it succeeds: the pid of the new child is positive and differs from those of
  the children before, for as many children as an \<^verbatim>\<open>int\<close> can count. POSIX promises this only against the
  children that have not been waited for; that the kernel does not give out the pid of a reaped child again
  during the run is an assumption.
\<close>

definition fork_ok :: "os \<Rightarrow> bool" where
  "fork_ok os \<longleftrightarrow> (\<forall>k. 0 < fork os k) \<and> inj_on (fork os) {..<2147483647}"

definition os_ok :: "os \<Rightarrow> bool" where
  "os_ok os \<longleftrightarrow> sched_ok os \<and> fork_ok os \<and> timer_ok os"

text \<open>
  The arrival times of the input are sorted, the first \<open>arrival_ptr\<close> processes have been forked in
  order, the others not.
\<close>

definition arrivals_sorted :: "ProcessInfo list \<Rightarrow> bool" where
  "arrivals_sorted ps \<longleftrightarrow> sorted (map arrival_time ps) \<and>
     (\<forall>p \<in> set ps. 0 \<le> arrival_time p \<and> in_int (arrival_time p))"

definition table_inv :: "os \<Rightarrow> globals \<Rightarrow> bool" where
  "table_inv os g \<longleftrightarrow> (let ps = procs (world_of g); n = arrival_ptr g in
     num_process g = int (length ps) \<and> in_int (num_process g) \<and> n \<le> length ps \<and>
     forks (world_of g) = n \<and> arrivals_sorted ps \<and>
     (\<forall>i < length ps. pid (ps ! i) = (if i < n then fork os i else 0)))"

lemma table_inv_queue: "table_inv os g \<Longrightarrow> arrival_queue_empty g \<longleftrightarrow> arrival_ptr g = length (procs (world_of g))"
  by (auto simp: table_inv_def arrival_queue_empty_def Let_def)

lemma timeunits_ok:
  assumes "table_inv os g" "\<not> arrival_queue_empty g"
  obtains t where "timeunits_until_next_arrival g = Inr t" "0 \<le> t" "in_int t"
proof -
  let ?ps = "procs (world_of g)" let ?n = "arrival_ptr g"
  have n: "?n < length ?ps" using assms table_inv_queue [OF assms(1)]
    by (auto simp: table_inv_def Let_def)
  have s: "arrivals_sorted ?ps" using assms(1) by (simp add: table_inv_def Let_def)
  have r: "0 \<le> arrival_time (?ps ! i) \<and> in_int (arrival_time (?ps ! i))" if "i < length ?ps" for i
    using s that by (simp add: arrivals_sorted_def)
  have le: "arrival_time (?ps ! (?n - 1)) \<le> arrival_time (?ps ! ?n)"
    using s n sorted_nth_mono [of "map arrival_time ?ps" "?n - 1" ?n] by (simp add: arrivals_sorted_def)
  show ?thesis
  proof (cases "?n = 0")
    case True
    then show ?thesis
      using that [of "arrival_time (?ps ! ?n)"] r [OF n] n assms(2)
      by (simp add: timeunits_until_next_arrival_def)
  next
    case False
    let ?t = "arrival_time (?ps ! ?n) - arrival_time (?ps ! (?n - 1))"
    have "?n - 1 < length ?ps" using n by simp
    from r [OF this] r [OF n] le have "in_int ?t" "0 \<le> ?t" by (auto simp: in_int_def)
    then show ?thesis
      using that [of ?t] False n assms(2) by (simp add: timeunits_until_next_arrival_def)
  qed
qed

text \<open>The pids of the table: those of the children in the order of arrival, then zeros.\<close>

lemma table_pids:
  assumes "table_inv os g"
  shows "map pid (procs (world_of g)) =
    map (fork os) [0..<arrival_ptr g] @ replicate (length (procs (world_of g)) - arrival_ptr g) 0"
  using assms by (intro nth_equalityI) (auto simp: table_inv_def Let_def nth_append)

lemma fork_eq_iff:
  assumes "os_ok os" "table_inv os g" "i < length (procs (world_of g))" "j < length (procs (world_of g))"
  shows "fork os i = fork os j \<longleftrightarrow> i = j"
proof -
  have "inj_on (fork os) {..<2147483647}" "length (procs (world_of g)) \<le> 2147483647"
    using assms(1,2) by (simp_all add: os_ok_def fork_ok_def table_inv_def in_int_def Let_def)
  then show ?thesis using assms(3,4) by (simp add: inj_on_eq_iff)
qed

text \<open>The pids of the children are distinct, and differ from the zeros of the other entries.\<close>

lemma table_pid_unique:
  assumes "os_ok os" "table_inv os g" "i < arrival_ptr g" "j < length (procs (world_of g))"
    "pid (procs (world_of g) ! j) = pid (procs (world_of g) ! i)"
  shows "j = i"
proof -
  have p: "\<And>k. k < length (procs (world_of g)) \<Longrightarrow>
      pid (procs (world_of g) ! k) = (if k < arrival_ptr g then fork os k else 0)"
    and l: "arrival_ptr g \<le> length (procs (world_of g))"
    using assms(2) by (simp_all add: table_inv_def Let_def)
  have o: "0 < fork os i" using assms(1) by (simp add: os_ok_def fork_ok_def)
  have "fork os j = fork os i" using p [OF assms(4)] p [of i] l assms(3,5) o by (auto split: if_splits)
  then show ?thesis using fork_eq_iff [OF assms(1,2,4), of i] assms(3) l by simp
qed

section \<open>Admitting a process\<close>

text \<open>
  What \<^verbatim>\<open>add_process\<close> does before it calls the scheduler: the next process of the table gets its
  pid, and its child the lowest priority.
\<close>

definition admit :: "os \<Rightarrow> nat \<Rightarrow> world \<Rightarrow> world" where
  "admit os i w = w\<lparr>forks := forks w + 1,
     procs := (procs w)[i := (procs w ! i)\<lparr>pid := fork os (forks w)\<rparr>],
     prio := (prio w)(fork os (forks w) \<mapsto> low_prio os)\<rparr>"

lemma add_process_admits:
  assumes "os_ok os" "i < length (procs (world_of g))"
  shows "add_process os (At i) g = sched_add os (At i) (g\<lparr>world_of := admit os i (world_of g)\<rparr>)"
proof -
  have f: "0 < fork os (forks (world_of g))" using assms(1) by (simp add: os_ok_def fork_ok_def)
  have s: "sched_ok os" using assms(1) by (simp add: os_ok_def)
  show ?thesis
    using f assms(2)
    by (simp add: add_process_def fork_a_child_def Let_def suspend_ok [OF s f] admit_def)
qed

lemma admit_simps [simp]:
  "length (procs (admit os i w)) = length (procs w)"
  "forks (admit os i w) = Suc (forks w)"
  "zombies (admit os i w) = zombies w"
  "j \<noteq> i \<Longrightarrow> procs (admit os i w) ! j = procs w ! j"
  "i < length (procs w) \<Longrightarrow> pid (procs (admit os i w) ! i) = fork os (forks w)"
  "i < length (procs w) \<Longrightarrow> prio_of (admit os i w) i = Some (low_prio os)"
  by (simp_all add: admit_def prio_of_def)

lemma admit_map_arrival: "map arrival_time (procs (admit os i w)) = map arrival_time (procs w)"
  by (cases "i < length (procs w)") (auto simp: admit_def map_update list_update_beyond
      intro: list_update_same_conv [THEN iffD2])

lemma admit_arrivals: "arrivals_sorted (procs (admit os i w)) = arrivals_sorted (procs w)"
proof -
  have "arrivals_sorted ps \<longleftrightarrow> sorted (map arrival_time ps) \<and>
      (\<forall>t \<in> set (map arrival_time ps). 0 \<le> t \<and> in_int t)" for ps
    by (auto simp: arrivals_sorted_def)
  then show ?thesis by (simp only: admit_map_arrival)
qed

text \<open>The next process of the table has a fresh pid; no other job is affected.\<close>

lemma admit_others:
  assumes "os_ok os" "table_inv os g" "i = arrival_ptr g" "j < arrival_ptr g" "i < length (procs (world_of g))"
  shows "pid (procs (admit os i (world_of g)) ! j) = pid (procs (world_of g) ! j)"
    "pid (procs (world_of g) ! j) \<noteq> fork os (forks (world_of g))"
    "prio_of (admit os i (world_of g)) j = prio_of (world_of g) j"
proof -
  let ?w = "world_of g"
  have p: "pid (procs ?w ! j) = fork os j" "forks ?w = i"
    using assms(2-4) by (auto simp: table_inv_def Let_def)
  show *: "pid (procs (admit os i ?w) ! j) = pid (procs ?w ! j)" using assms(3,4) by simp
  show "pid (procs ?w ! j) \<noteq> fork os (forks ?w)"
    using p fork_eq_iff [OF assms(1,2,5), of j] assms(3-5) by auto
  with * show "prio_of (admit os i ?w) j = prio_of ?w j"
    using assms(3,4) by (simp add: prio_of_def admit_def)
qed

lemma admit_later:
  assumes "os_ok os" "table_inv os g" "i = arrival_ptr g" "i < j" "j < length (procs (world_of g))"
  shows "prio_of (admit os i (world_of g)) j = prio_of (world_of g) j"
proof -
  have "pid (procs (world_of g) ! j) = 0" using assms(2-5) by (simp add: table_inv_def Let_def)
  moreover have "0 < fork os (forks (world_of g))" using assms(1) by (simp add: os_ok_def fork_ok_def)
  ultimately show ?thesis using assms(4) by (simp add: prio_of_def admit_def)
qed

lemma table_inv_admit:
  assumes "table_inv os g" "arrival_ptr g < length (procs (world_of g))"
  shows "table_inv os (g\<lparr>arrival_ptr := Suc (arrival_ptr g),
     world_of := admit os (arrival_ptr g) (world_of g)\<rparr>)"
  using assms admit_arrivals [of os "arrival_ptr g" "world_of g"]
  by (auto simp: table_inv_def Let_def nth_list_update admit_def less_Suc_eq)

lemma pids_ok_admit:
  assumes "os_ok os" "table_inv os g" "i = arrival_ptr g" "i < length (procs (world_of g))"
    "pids_ok (world_of g) xs" "set xs \<subseteq> {..<i}"
  shows "pids_ok (admit os i (world_of g)) (i # xs)" "pids_ok (admit os i (world_of g)) xs"
proof -
  let ?w = "world_of g"
  have eq: "map (\<lambda>j. pid (procs (admit os i ?w) ! j)) xs = map (\<lambda>j. pid (procs ?w ! j)) xs"
    using assms(6) by (intro map_cong) auto
  have new: "fork os (forks ?w) \<notin> set (map (\<lambda>j. pid (procs ?w ! j)) xs)"
    using admit_others(2) [OF assms(1-3) _ assms(4)] assms(3,6) by fastforce
  have pos: "0 < fork os (forks ?w)" using assms(1) by (simp add: os_ok_def fork_ok_def)
  have old: "\<forall>j \<in> set xs. j < length (procs ?w) \<and> 0 < pid (procs (admit os i ?w) ! j)"
    using assms(5,6) by (auto simp: pids_ok_def)
  show "pids_ok (admit os i ?w) xs"
    using assms(5) old by (simp add: pids_ok_def eq)
  then show "pids_ok (admit os i ?w) (i # xs)"
    using assms(4) new pos by (auto simp: pids_ok_def eq [unfolded o_def] simp flip: eq)
qed


section \<open>The state after initialisation\<close>

text \<open>
  An input table: at least one entry, as many as an \<^verbatim>\<open>int\<close> counts, in order of arrival.
\<close>

definition wf_table :: "ProcessInfo list \<Rightarrow> bool" where
  "wf_table ps \<longleftrightarrow> ps \<noteq> [] \<and> list_all wf_entry ps \<and> in_int (int (length ps)) \<and> arrivals_sorted ps"

text \<open>Clock readings around the measurement: in order and less than 292 years apart.\<close>

definition clock_ok :: "timespec \<Rightarrow> timespec \<Rightarrow> bool" where
  "clock_ok t0 t1 \<longleftrightarrow> duration t0 \<and> duration t1 \<and> nanos t0 \<le> nanos t1 \<and> in_long (nanos t1 - nanos t0)"

text \<open>The globals just before the timer is created.\<close>

definition loaded :: "os \<Rightarrow> ScheduleStrategy \<Rightarrow> ProcessInfo list \<Rightarrow> timespec \<Rightarrow> TimerInfo \<Rightarrow> globals" where
  "loaded os s ps u junk = set_strategy s (int (length ps))
     ((globals_static junk)\<lparr>world_of := (world_init ps)\<lparr>prio := [getpid os \<mapsto> sched_get_priority_max os]\<rparr>,
        current_strategy := s, num_process := int (length ps), timer_info := junk\<lparr>time_unit := u\<rparr>\<rparr>)"

lemma loaded_simps [simp]:
  "current_strategy (loaded os s ps u junk) = s"
  "num_process (loaded os s ps u junk) = int (length ps)"
  "arrival_ptr (loaded os s ps u junk) = 0"
  "time_unit (timer_info (loaded os s ps u junk)) = u"
  "world_of (loaded os s ps u junk) = (world_init ps)\<lparr>prio := [getpid os \<mapsto> sched_get_priority_max os]\<rparr>"
  "\<not> alrm_pending (loaded os s ps u junk)" "\<not> chld_pending (loaded os s ps u junk)"
  "rr_of (loaded os RR ps u junk) = set_strategy_RR (int (length ps)) RR_static"
  by (cases s; simp add: loaded_def set_strategy_def globals_static_def)+

lemma main_init_show:
  assumes os: "sched_ok os" "0 < getpid os" and ps: "wf_table ps" and t: "clock_ok t0 t1"
  obtains u where "main_init os (show_input s ps) t0 t1 junk =
      create_timer_and_init_timespec os (loaded os s ps u junk)" "unit_ok u"
    "nanos u = (nanos t1 - nanos t0) div UNIT_MEASURE_REPEAT"
proof -
  obtain u where u: "measure_time_unit t0 t1 = Inr u" "unit_ok u"
    "nanos u = (nanos t1 - nanos t0) div UNIT_MEASURE_REPEAT"
    using measure_time_unit_ok [of t0 t1] t by (auto simp: clock_ok_def)
  have p: "set_parent_priority os (world_init []) =
      Inr ((world_init [])\<lparr>prio := [getpid os \<mapsto> sched_get_priority_max os]\<rparr>)"
    using os by (simp add: set_parent_priority_def set_my_priority_def set_priority_def sched_ok_def
        world_init_def fun_upd_def)
  have r: "read_process_info (newline @ show_table ps) = Inr (int (length ps), ps, newline)"
    using ps isspace_newline(1) by (intro read_process_info_show) (auto simp: wf_table_def)
  have "main_init os (show_input s ps) t0 t1 junk =
      create_timer_and_init_timespec os (loaded os s ps u junk)"
    using p scan_name_strategy [of s "show_table ps"] r u(1)
    by (cases s) (simp_all add: main_init_def show_input_def loaded_def arrival_queue_init_def
        set_strategy_def globals_static_def world_init_def Let_def)
  with u show ?thesis using that by blast
qed

lemma table_inv_loaded:
  assumes "wf_table ps"
  shows "table_inv os (loaded os s ps u junk)" "\<not> arrival_queue_empty (loaded os s ps u junk)"
  using assms
  by (auto simp: table_inv_def Let_def world_init_def wf_table_def wf_entry_def list_all_iff
      arrival_queue_empty_def)


section \<open>What no operation changes\<close>

text \<open>
  The name, the arrival time and the execution time of a process are those of the input, for every
  strategy; only \<open>pid\<close> and \<open>remaining_time\<close> are ever assigned.
\<close>

definition table_data :: "world \<Rightarrow> (string \<times> int \<times> int) list" where
  "table_data w = map (\<lambda>p. (name p, arrival_time p, time_needed p)) (procs w)"

lemma table_data_upd [simp]:
  "table_data (w\<lparr>prio := f\<rparr>) = table_data w" "table_data (w\<lparr>forks := n\<rparr>) = table_data w"
  "table_data (w\<lparr>zombies := z\<rparr>) = table_data w" "table_data (child_exits i w) = table_data w"
  by (simp_all add: table_data_def child_exits_def Let_def)

lemma table_data_assign:
  assumes "assign w p f = Inr w'" "\<And>x. (name (f x), arrival_time (f x), time_needed (f x)) =
     (name x, arrival_time x, time_needed x)"
  shows "table_data w' = table_data w"
  using assms by (auto simp: assign_def table_data_def map_update split: ptr.splits if_splits
      intro!: list_update_same_conv [THEN iffD2])

lemma set_priority_table [simp]: "set_priority os p m w = Inr w' \<Longrightarrow> table_data w' = table_data w"
  by (auto simp: set_priority_def scheduler_exit_def Let_def split: if_splits)

lemmas process_control_defs = suspend_process_def resume_process_def

lemma sched_add_table: "sched_add os p g = Inr g' \<Longrightarrow> table_data (world_of g') = table_data (world_of g)"
  by (auto simp: sched_add_def add_process_FIFO_def add_process_PSJF_def process_control_defs Let_def
      split: ScheduleStrategy.splits ptr.splits if_splits dest!: table_data_assign)

lemma add_process_table: "add_process os p g = Inr g' \<Longrightarrow> table_data (world_of g') = table_data (world_of g)"
  by (auto simp: add_process_def fork_a_child_def process_control_defs Let_def
      split: if_splits dest!: sched_add_table table_data_assign)

lemma context_switch_table: "context_switch os g = Inr g' \<Longrightarrow> table_data (world_of g') = table_data (world_of g)"
  by (auto simp: context_switch_def context_switch_FIFO_def context_switch_RR_def context_switch_SJF_def
      context_switch_PSJF_def process_control_defs Let_def
      split: ScheduleStrategy.splits if_splits ptr.splits)


lemma add_simultaneous_table:
  "add_simultaneous os a g = Inr (t, g') \<Longrightarrow> table_data (world_of g') = table_data (world_of g)"
proof (induction os a g arbitrary: t g' rule: add_simultaneous.induct)
  case (1 os a g)
  from 1(2) consider "g' = g"
    | n g2 where "\<not> arrival_queue_empty g" "timeunits_until_next_arrival g = Inr n" "n = 0"
        "add_process os (At (arrival_ptr g)) (g\<lparr>arrival_ptr := Suc (arrival_ptr g)\<rparr>) = Inr g2"
        "add_simultaneous os n g2 = Inr (t, g')"
    by (subst (asm) add_simultaneous.simps)
      (auto simp: get_arrived_process_def split: if_splits)
  then show ?case
  proof cases
    case 2
    have "table_data (world_of g') = table_data (world_of g2)"
      using 1(1) [OF 2(1,2,3) _ _ 2(4,5)] by (simp add: get_arrived_process_def)
    with add_process_table [OF 2(4)] show ?thesis by simp
  qed simp
qed

lemma set_timer_world: "set_timer os g = Inr g' \<Longrightarrow> world_of g' = world_of g"
  by (auto simp: set_timer_def scheduler_exit_def Let_def split: if_splits)

lemma subtract_time_passed_world: "subtract_time_passed g = Inr g' \<Longrightarrow> world_of g' = world_of g"
  by (auto simp: subtract_time_passed_def Let_def split: if_splits arg_ptr.splits)

lemma handle_arrival_table:
  "handle_arrival os g = Inr g' \<Longrightarrow> table_data (world_of g') = table_data (world_of g)"
  by (auto simp: handle_arrival_def get_arrived_process_def update_arrival_remaining_def
      dest!: add_process_table add_simultaneous_table)

lemma handle_timer_table:
  "handle_timer os g = Inr g' \<Longrightarrow> table_data (world_of g') = table_data (world_of g)"
  by (auto simp: handle_timer_def timeslice_over_def update_timeslice_remaining_def
      split: if_splits dest!: set_timer_world subtract_time_passed_world handle_arrival_table)

lemma remove_current_process_world: "remove_current_process g = Inr g' \<Longrightarrow> world_of g' = world_of g"
  by (auto simp: remove_current_process_def split: ScheduleStrategy.splits)

lemma handle_event_table:
  "handle_event os g = Inr (b, g') \<Longrightarrow> table_data (world_of g') = table_data (world_of g)"
  by (auto simp: handle_event_def split: if_splits
      dest!: context_switch_table handle_timer_table remove_current_process_world wait_null_InrD)

lemma sigsuspend_world [simp]: "world_of (sigsuspend sigs g) = world_of g"
proof -
  have "world_of (fold signal_handler sigs h) = world_of h" for h
    by (induction sigs arbitrary: h) (auto simp: signal_handler_def)
  then show ?thesis by (simp add: sigsuspend_def)
qed

lemma loop_iteration_table:
  "loop_iteration os sigs g = Inr (b, g') \<Longrightarrow> table_data (world_of g') = table_data (world_of g)"
  by (auto simp: loop_iteration_def dest!: handle_event_table)

lemma step_table: "step os g g' \<Longrightarrow> table_data (world_of g') = table_data (world_of g)"
  by (induction rule: step.induct) (simp_all add: loop_iteration_table)

lemma reachable_table: "reachable os g0 g \<Longrightarrow> table_data (world_of g) = table_data (world_of g0)"
  by (induction rule: reachable.induct) (simp_all add: step_table)

lemma table_data_cong:
  assumes "table_data v = table_data w"
  shows "map name (procs v) = map name (procs w)" "length (procs v) = length (procs w)"
    "map arrival_time (procs v) = map arrival_time (procs w)"
proof -
  have "map fst (table_data w) = map name (procs w)" "length (table_data w) = length (procs w)"
    "map (fst \<circ> snd) (table_data w) = map arrival_time (procs w)" for w
    by (simp_all add: table_data_def)
  with assms show "map name (procs v) = map name (procs w)" "length (procs v) = length (procs w)"
    "map arrival_time (procs v) = map arrival_time (procs w)"
    by metis+
qed

text \<open>What the ends of a turn leave of the timer.\<close>

lemma context_switch_timer:
  "context_switch os g = Inr g' \<Longrightarrow> timer_info g' = timer_info g \<and> it_value g' = it_value g \<and>
     arrival_ptr g' = arrival_ptr g \<and> num_process g' = num_process g"
  by (auto simp: context_switch_def Let_def split: ScheduleStrategy.splits)

lemma remove_current_process_timer:
  "remove_current_process g = Inr g' \<Longrightarrow> timer_info g' = timer_info g \<and> it_value g' = it_value g \<and>
     arrival_ptr g' = arrival_ptr g \<and> num_process g' = num_process g"
  by (auto simp: remove_current_process_def split: ScheduleStrategy.splits)

lemma remove_current_process_strategy:
  "remove_current_process g = Inr g' \<Longrightarrow> current_strategy g' = current_strategy g"
  by (auto simp: remove_current_process_def split: ScheduleStrategy.splits)

text \<open>What the event of a terminated child leaves as it was: it reaps one child and tells the scheduler.\<close>

lemma reap_frame:
  assumes "bindR (wait_null g) remove_current_process = Inr g'"
  shows "world_of g' = (world_of g)\<lparr>zombies := tl (zombies (world_of g))\<rparr>" "timer_info g' = timer_info g"
    "it_value g' = it_value g" "arrival_ptr g' = arrival_ptr g" "num_process g' = num_process g"
    "current_strategy g' = current_strategy g"
proof -
  obtain h where h: "wait_null g = Inr h" "remove_current_process h = Inr g'" using assms by auto
  show "world_of g' = (world_of g)\<lparr>zombies := tl (zombies (world_of g))\<rparr>" "timer_info g' = timer_info g"
    "it_value g' = it_value g" "arrival_ptr g' = arrival_ptr g" "num_process g' = num_process g"
    "current_strategy g' = current_strategy g"
    using wait_null_InrD [OF h(1)] remove_current_process_world [OF h(2)] remove_current_process_timer [OF h(2)]
      remove_current_process_strategy [OF h(2)]
    by simp_all
qed

section \<open>Which arrivals are simultaneous\<close>

abbreviation arrival_times :: "globals \<Rightarrow> int list" where
  "arrival_times g \<equiv> map arrival_time (procs (world_of g))"

lemma timeunits_until_next_arrival_eq:
  assumes "timeunits_until_next_arrival g = Inr t" "0 < arrival_ptr g"
  shows "t = arrival_times g ! arrival_ptr g - arrival_times g ! (arrival_ptr g - 1)"
  using assms by (auto simp: timeunits_until_next_arrival_def cint_def split: if_splits dest!: deref_InrD)

text \<open>The processes that \<open>add_simultaneous\<close> takes are due when the one before them was.\<close>

lemma add_simultaneous_due:
  assumes "add_simultaneous os a g = Inr (t, g')" "0 < arrival_ptr g"
  shows "arrival_times g ! (arrival_ptr g' - 1) = arrival_times g ! (arrival_ptr g - 1)"
  using assms
proof (induction os a g arbitrary: t g' rule: add_simultaneous.induct)
  case (1 os a g)
  from 1(2) consider "g' = g"
    | g2 where "\<not> arrival_queue_empty g" "timeunits_until_next_arrival g = Inr 0"
        "add_process os (At (arrival_ptr g)) (g\<lparr>arrival_ptr := Suc (arrival_ptr g)\<rparr>) = Inr g2"
        "add_simultaneous os 0 g2 = Inr (t, g')"
    by (subst (asm) add_simultaneous.simps)
      (auto simp: get_arrived_process_def split: if_splits)
  then show ?case
  proof cases
    case 2
    have p: "arrival_ptr g2 = Suc (arrival_ptr g)" using add_process_frame [OF 2(3)] by simp
    have "arrival_times g2 ! (arrival_ptr g' - 1) = arrival_times g2 ! arrival_ptr g"
      using 1(1) [OF 2(1,2) refl _ _ 2(3,4)] p by (simp add: get_arrived_process_def)
    moreover have "arrival_times g2 = arrival_times g"
      using table_data_cong(3) [OF add_process_table [OF 2(3)]] by simp
    ultimately show ?thesis using timeunits_until_next_arrival_eq [OF 2(2) 1(3)] by simp
  qed simp
qed

lemma handle_arrival_due:
  assumes "handle_arrival os g = Inr g'"
  shows "arrival_times g ! (arrival_ptr g' - 1) = arrival_times g ! arrival_ptr g"
proof -
  obtain g2 t g3 where
    g2: "add_process os (At (arrival_ptr g)) (g\<lparr>arrival_ptr := Suc (arrival_ptr g)\<rparr>) = Inr g2" and
    g3: "add_simultaneous os 0 g2 = Inr (t, g3)" "arrival_ptr g' = arrival_ptr g3"
    using assms by (auto simp: handle_arrival_def get_arrived_process_def update_arrival_remaining_def)
  have "arrival_times g2 = arrival_times g" "arrival_ptr g2 = Suc (arrival_ptr g)"
    using table_data_cong(3) [OF add_process_table [OF g2]] add_process_frame [OF g2] by simp_all
  then show ?thesis using add_simultaneous_due [OF g3(1)] g3(2) by simp
qed


section \<open>Where the loop fails\<close>

text \<open>
  Under PSJF no arrival can be handled while no job is running, so the first one of every input
  fails.
\<close>

lemma add_process_PSJF_idle:
  assumes "current_strategy g = PSJF" "psjf_active (psjf_of g) = Null"
  shows "\<exists>e. add_process os (At i) g = Inl e"
proof (cases "add_process os (At i) g")
  case (Inr g')
  then obtain w where "sched_add os (At i) (g\<lparr>world_of := w\<rparr>) = Inr g'"
    by (auto simp: add_process_def fork_a_child_def Let_def)
  with assms add_process_PSJF_no_active [of "psjf_of g" i w] show ?thesis
    by (auto simp: sched_add_def Let_def)
qed blast

lemma loop_iteration_PSJF_idle:
  assumes "current_strategy g = PSJF" "psjf_active (psjf_of g) = Null"
  shows "\<exists>e. loop_iteration os [SIGALRM] g = Inl e"
proof -
  let ?h = "sigsuspend [SIGALRM] g" let ?k = "?h\<lparr>event_type := PROCESS_ARRIVAL\<rparr>"
  have h: "current_strategy ?h = PSJF" "event_type ?h = TIMER_EXPIRED" "psjf_of ?h = psjf_of g"
    using assms by (simp_all add: sigsuspend_def signal_handler_def)
  then obtain e where "add_process os (At (arrival_ptr ?k)) (?k\<lparr>arrival_ptr := arrival_ptr ?k + 1\<rparr>) = Inl e"
    using add_process_PSJF_idle [of "?k\<lparr>arrival_ptr := arrival_ptr ?k + 1\<rparr>" os "arrival_ptr ?k"] assms by auto
  with h show ?thesis
    by (simp add: loop_iteration_def handle_event_def handle_timer_def get_expire_reason_def
        subtract_time_passed_def handle_arrival_def get_arrived_process_def)
qed

text \<open>
  Under SJF the loop does not survive the termination of the last waiting job while another process
  is still to arrive.
\<close>

lemma loop_iteration_SJF_gap:
  assumes "current_strategy g = SJF" "heap_size (inactive_heap (sjf_of g)) = 0" "\<not> arrival_queue_empty g"
    "zombies (world_of g) = z # zs"
  shows "loop_iteration os [SIGCHLD] g \<in> {Inl OutOfBounds, Inl Uninitialised}"
proof -
  let ?s = "(sjf_of g)\<lparr>sjf_active := Null\<rparr>"
  let ?w = "(world_of g)\<lparr>zombies := zs\<rparr>"
  have "context_switch_SJF os ?s ?w = Inl OutOfBounds \<or> context_switch_SJF os ?s ?w = Inl Uninitialised"
    using context_switch_SJF_idle [of ?s os ?w] assms(2) by simp
  then show ?thesis
    using assms
    by (auto simp: loop_iteration_def handle_event_def sigsuspend_def signal_handler_def wait_null_def
        remove_current_process_def remove_current_process_SJF_def arrival_queue_empty_def
        context_switch_def Let_def)
qed


lemma main_init_psjf_idle: "main_init os input t0 t1 junk = Inr g \<Longrightarrow> psjf_active (psjf_of g) = Null"
  by (auto simp: main_init_def set_strategy_def globals_static_def arrival_queue_init_def
      PSJF_static_def set_strategy_PSJF_def create_timer_and_init_timespec_def init_arrival_remaining_def
      init_timeslice_remaining_def set_timer_def scheduler_exit_def Let_def
      split: ScheduleStrategy.splits if_splits)

lemma create_timer_empty:
  "timer_ok os \<Longrightarrow> arrival_queue_empty g \<Longrightarrow> create_timer_and_init_timespec os g = Inl AssertFail"
  by (simp add: create_timer_and_init_timespec_def timer_ok_def init_arrival_remaining_def
      timeunits_until_next_arrival_def)

lemma read_process_info_none:
  "scanf_d s = None \<or> (\<exists>r. scanf_d s = Some (0, r)) \<Longrightarrow> \<exists>r. read_process_info s = Inr (0, [], r)"
  by (auto simp: read_process_info_def scan_int_def in_int_def)

lemma main_init_asserts:
  assumes os: "sched_ok os" "0 < getpid os" "timer_ok os" and t: "clock_ok t0 t1"
    and input: "scan_name input = Inr (word, rest)"
    and bad: "word \<notin> {''RR'', ''FIFO'', ''SJF'', ''PSJF''} \<or>
      scanf_d rest = None \<or> (\<exists>rest'. scanf_d rest = Some (0, rest'))"
  shows "main_init os input t0 t1 junk = Inl AssertFail"
proof -
  obtain w where w: "set_parent_priority os (world_init []) = Inr w"
    using os by (simp add: set_parent_priority_def set_my_priority_def set_priority_def sched_ok_def)
  obtain u where u: "measure_time_unit t0 t1 = Inr u"
    using measure_time_unit_ok [of t0 t1] t by (auto simp: clock_ok_def)
  show ?thesis
  proof (cases "str_to_strategy word")
    case (Inl e)
    then have "e = AssertFail" by (auto simp: str_to_strategy_def split: if_splits)
    with Inl w input show ?thesis by (simp add: main_init_def)
  next
    case (Inr s)
    then have "word \<in> {''RR'', ''FIFO'', ''SJF'', ''PSJF''}"
      by (auto simp: str_to_strategy_def split: if_splits)
    then obtain r where "read_process_info rest = Inr (0, [], r)" using bad read_process_info_none by blast
    with Inr w u input show ?thesis
      by (cases s) (simp_all add: main_init_def Let_def create_timer_empty [OF os(3)] arrival_queue_empty_def
          set_strategy_def arrival_queue_init_def globals_static_def)
  qed
qed


text \<open>
  The priorities after a process has been admitted and its child has then been given priority \<open>v\<close>.
\<close>

lemma admitted_prio:
  assumes "os_ok os" "table_inv os g" "i = arrival_ptr g" "i < length (procs (world_of g))"
    "j < length (procs (world_of g))"
  shows "prio_of ((admit os i (world_of g))\<lparr>prio := (prio (admit os i (world_of g)))
       (fork os (forks (world_of g)) \<mapsto> v)\<rparr>) j = (if j = i then Some v else prio_of (world_of g) j)"
proof (cases "j = i")
  case True
  then show ?thesis using assms(4) by (simp add: prio_of_def)
next
  case False
  have f: "forks (world_of g) = i" "pid (procs (world_of g) ! j) = (if j < i then fork os j else 0)"
    using assms(2,3,5) by (simp_all add: table_inv_def Let_def)
  have o: "0 < fork os i" using assms(1) by (simp add: os_ok_def fork_ok_def)
  have "pid (procs (world_of g) ! j) \<noteq> fork os i"
    using f(2) o False fork_eq_iff [OF assms(1,2,5,4)] by auto
  with False f(1) show ?thesis by (simp add: prio_of_def admit_def)
qed


text \<open>What is printed once every process has arrived.\<close>

lemma table_output:
  assumes "table_inv os g" "arrival_queue_empty g"
  shows "main_output g = zip (map name (procs (world_of g))) (map (fork os) [0..<length (procs (world_of g))])"
proof -
  let ?ps = "procs (world_of g)"
  have "arrival_ptr g = length ?ps" using table_inv_queue [OF assms(1)] assms(2) by simp
  then have p: "num_process g = int (length ?ps)" "\<And>i. i < length ?ps \<Longrightarrow> pid (?ps ! i) = fork os i"
    using assms(1) by (auto simp: table_inv_def Let_def)
  then show ?thesis by (intro nth_equalityI) (simp_all add: main_output_def)
qed

section \<open>When the kernel refuses\<close>

lemma set_priority_refused:
  "sched_setscheduler os p m = r \<Longrightarrow> r \<noteq> 0 \<Longrightarrow> set_priority os p m w = Inl (Exit r)"
  by (simp add: set_priority_def scheduler_exit_def Let_def)

text \<open>The program may not raise its own priority.\<close>

lemma main_init_unprivileged:
  "sched_setscheduler os (getpid os) (sched_get_priority_max os) = r \<Longrightarrow> r \<noteq> 0 \<Longrightarrow>
   main_init os input t0 t1 junk = Inl (Exit r)"
  by (simp add: main_init_def set_parent_priority_def set_my_priority_def set_priority_refused)

text \<open>There is no timer for it.\<close>

lemma main_init_no_timer:
  assumes "sched_ok os" "0 < getpid os" "wf_table ps" "clock_ok t0 t1" "timer_create os = -1"
  shows "main_init os (show_input s ps) t0 t1 junk = Inl (Exit (-1))"
proof -
  obtain u where "main_init os (show_input s ps) t0 t1 junk = create_timer_and_init_timespec os (loaded os s ps u junk)"
    using main_init_show [OF assms(1-4)] by blast
  then show ?thesis using assms(5) by (simp add: create_timer_and_init_timespec_def scheduler_exit_def)
qed

text \<open>
  A child cannot be forked. The result of \<^verbatim>\<open>fork\<close> is not tested; the kernel is then asked to change the
  priority of a process that there is not.
\<close>

lemma add_process_refused:
  assumes "i < length (procs (world_of g))" "sched_setscheduler os (fork os (forks (world_of g))) (low_prio os) = r" "r \<noteq> 0"
  shows "add_process os (At i) g = Inl (Exit r)"
  using assms by (simp add: add_process_def fork_a_child_def suspend_process_def set_priority_refused Let_def)

lemma arrival_refused:
  assumes "current_strategy g \<noteq> RR" "arrival_ptr g < length (procs (world_of g))"
    "sched_setscheduler os (fork os (forks (world_of g))) (low_prio os) = r" "r \<noteq> 0"
  shows "loop_iteration os [SIGALRM] g = Inl (Exit r)"
proof -
  let ?h = "(sigsuspend [SIGALRM] g)\<lparr>event_type := PROCESS_ARRIVAL\<rparr>"
  have "add_process os (At (arrival_ptr g)) (?h\<lparr>arrival_ptr := Suc (arrival_ptr g)\<rparr>) = Inl (Exit r)"
    using assms(2-4) by (intro add_process_refused) simp_all
  then show ?thesis
    using assms(1)
    by (simp add: loop_iteration_def handle_event_def handle_timer_def sigsuspend_def signal_handler_def
        get_expire_reason_def subtract_time_passed_def handle_arrival_def get_arrived_process_def)
qed

end
