(* ===== verification/Clock.thy ===== *)
theory Clock
  imports System
begin

text \<open>
  The arrivals against the clock. Runs of the program are measured by the time its timer has run, and
  the interface \<open>punctual\<close> says what a strategy must keep for every process to be forked when that
  time reaches its arrival time.
\<close>

section \<open>The time that has passed\<close>

text \<open>
  When the timer expires, the time it was armed for has passed. Only this time is counted: how long
  the handlers take is not part of the model.
\<close>

definition timer_ran :: "globals \<Rightarrow> globals \<Rightarrow> int" where
  "timer_ran g g' = (if \<not> alrm_pending g \<and> alrm_pending g' then nanos (it_value g) else 0)"

inductive timed :: "os \<Rightarrow> globals \<Rightarrow> int \<Rightarrow> globals \<Rightarrow> bool" for os g0 where
  timed_start: "timed os g0 0 g0"
| timed_step: "timed os g0 E g \<Longrightarrow> step os g g' \<Longrightarrow> timed os g0 (E + timer_ran g g') g'"

lemma timed_reachable: "timed os g0 E g \<Longrightarrow> reachable os g0 g"
  by (induction rule: timed.induct) (auto intro: reachable.intros)

lemma reachable_timed: "reachable os g0 g \<Longrightarrow> \<exists>E. timed os g0 E g"
  by (induction rule: reachable.induct) (auto intro: timed.intros)

section \<open>The time until the next arrival\<close>

text \<open>
  \<open>T\<close> is the number of time units from the start to the last alarm that was handled: the processes
  that have arrived were due by then, and \<^verbatim>\<open>arrival_remaining\<close> counts to the next one.
\<close>

definition arrival_clock :: "globals \<Rightarrow> int \<Rightarrow> bool" where
  "arrival_clock g T \<longleftrightarrow> (let u = nanos (time_unit (timer_info g)); a = arrival_times g ! arrival_ptr g in
     0 \<le> T \<and> 0 < u \<and> (\<forall>j < arrival_ptr g. arrival_times g ! j \<le> T) \<and>
     (\<not> arrival_queue_empty g \<longrightarrow> T \<le> a \<and> nanos (arrival_remaining (timer_info g)) = u * (a - T)))"

lemma arrival_clock_cong:
  assumes "timer_info g' = timer_info g" "arrival_times g' = arrival_times g" "arrival_ptr g' = arrival_ptr g"
    "num_process g' = num_process g"
  shows "arrival_clock g' T = arrival_clock g T"
  using assms by (simp add: arrival_clock_def arrival_queue_empty_def)

lemma arrival_clock_upd [simp]:
  "arrival_clock (g\<lparr>event_type := e\<rparr>) T = arrival_clock g T"
  "arrival_clock (g\<lparr>it_value := v\<rparr>) T = arrival_clock g T"
  "arrival_clock (g\<lparr>alrm_pending := a\<rparr>) T = arrival_clock g T"
  "arrival_clock (g\<lparr>chld_pending := c\<rparr>) T = arrival_clock g T"
  "arrival_clock (g\<lparr>chld_pending := c, world_of := child_exits i (world_of g)\<rparr>) T = arrival_clock g T"
  by (rule arrival_clock_cong; simp)+

text \<open>The processes up to the last one that arrived are due, as the table is sorted.\<close>

lemma arrived_due:
  assumes "table_inv os g" "0 < arrival_ptr g" "j < arrival_ptr g"
  shows "arrival_times g ! j \<le> arrival_times g ! (arrival_ptr g - 1)"
  using assms by (intro sorted_nth_mono) (auto simp: table_inv_def Let_def arrivals_sorted_def)

lemma later_due:
  assumes "table_inv os g" "arrival_ptr g \<le> j" "j < length (procs (world_of g))"
  shows "arrival_times g ! arrival_ptr g \<le> arrival_times g ! j"
  using assms by (intro sorted_nth_mono) (auto simp: table_inv_def Let_def arrivals_sorted_def)

text \<open>When processes arrive, the clock advances to the time at which they were due.\<close>

lemma arrival_clock_arrives:
  assumes c: "arrival_clock g T" and ne: "\<not> arrival_queue_empty g" and tab: "table_inv os g'"
    and at: "arrival_times g' = arrival_times g" and ptr: "arrival_ptr g < arrival_ptr g'"
    and u: "time_unit (timer_info g') = time_unit (timer_info g)"
    and last: "arrival_times g ! (arrival_ptr g' - 1) = arrival_times g ! arrival_ptr g"
    and "next": "arrival_queue_empty g' \<or> 0 < t \<and> timeunits_until_next_arrival g' = Inr t \<and>
      nanos (arrival_remaining (timer_info g')) = nanos (time_unit (timer_info g)) * t"
  shows "arrival_clock g' (arrival_times g ! arrival_ptr g) \<and>
    (\<not> arrival_queue_empty g' \<longrightarrow> arrival_times g ! arrival_ptr g < arrival_times g' ! arrival_ptr g')"
proof -
  let ?a = "arrival_times g ! arrival_ptr g"
  have "0 \<le> ?a" "0 < nanos (time_unit (timer_info g))" using c ne by (auto simp: arrival_clock_def Let_def)
  moreover have "arrival_times g' ! j \<le> ?a" if "j < arrival_ptr g'" for j
    using arrived_due [OF tab _ that] ptr last at by simp
  moreover have "arrival_times g' ! arrival_ptr g' = ?a + t" "0 < t"
    "nanos (arrival_remaining (timer_info g')) = nanos (time_unit (timer_info g)) * t" if "\<not> arrival_queue_empty g'"
    using timeunits_until_next_arrival_eq [of g' t] "next" ptr last at that by auto
  ultimately show ?thesis using u by (auto simp: arrival_clock_def Let_def)
qed

section \<open>What the handling of an event leaves in the timer\<close>

lemma timer_value_cong:
  assumes "timer_info g' = timer_info g" "current_strategy g' = current_strategy g"
    "arrival_ptr g' = arrival_ptr g" "num_process g' = num_process g"
  shows "timer_value g' = timer_value g"
  using assms by (simp add: timer_value_def arrival_queue_empty_def Let_def)

lemma set_timer_value: "set_timer os g = Inr g' \<Longrightarrow> timer_value g' = Inr (it_value g')"
  using timer_value_cong [of g' g]
  by (auto simp: set_timer_def scheduler_exit_def Let_def split: if_splits)

lemma context_switch_strategy: "context_switch os g = Inr g' \<Longrightarrow> current_strategy g' = current_strategy g"
  by (auto simp: context_switch_def Let_def split: ScheduleStrategy.splits)

text \<open>Both kinds of turn, for every strategy.\<close>

lemma alarm_turn_timer:
  assumes "loop_iteration os [SIGALRM] g = Inr (b, g')"
  obtains k where "handle_timer os (sigsuspend [SIGALRM] g) = Inr k" "timer_info g' = timer_info k"
    "arrival_ptr g' = arrival_ptr k" "num_process g' = num_process k" "arrival_times g' = arrival_times k"
    "timer_value g' = Inr (it_value g')"
proof -
  obtain k where k: "handle_timer os (sigsuspend [SIGALRM] g) = Inr k" "g' = k \<or> context_switch os k = Inr g'"
    using assms by (auto simp: loop_iteration_def handle_event_def sigsuspend_def signal_handler_def split: if_splits)
  have "timer_value k = Inr (it_value k)" using k(1) set_timer_value by (auto simp: handle_timer_def)
  then have "timer_value g' = Inr (it_value g')"
    using k(2) context_switch_timer context_switch_strategy timer_value_cong [of g' k] by auto
  moreover have "arrival_times g' = arrival_times k"
    using k(2) table_data_cong(3) [OF context_switch_table] by auto
  ultimately show ?thesis using that [OF k(1)] k(2) context_switch_timer by auto
qed

lemma exit_turn_timer:
  assumes "loop_iteration os [SIGCHLD] g = Inr (b, g')"
  shows "timer_info g' = timer_info g" "it_value g' = it_value g" "arrival_ptr g' = arrival_ptr g"
    "num_process g' = num_process g" "current_strategy g' = current_strategy g"
    "arrival_times g' = arrival_times g" "timer_value g' = timer_value g"
proof -
  obtain k where k: "bindR (wait_null (sigsuspend [SIGCHLD] g)) remove_current_process = Inr k"
    "g' = k \<or> context_switch os k = Inr g'"
    using assms by (auto simp: loop_iteration_def handle_event_def sigsuspend_def signal_handler_def split: if_splits)
  have "timer_info k = timer_info g \<and> it_value k = it_value g \<and> arrival_ptr k = arrival_ptr g \<and>
      num_process k = num_process g \<and> current_strategy k = current_strategy g"
    using reap_frame [OF k(1)] by (simp add: sigsuspend_def signal_handler_def)
  with k(2) show t: "timer_info g' = timer_info g" "it_value g' = it_value g" "arrival_ptr g' = arrival_ptr g"
    "num_process g' = num_process g" "current_strategy g' = current_strategy g"
    using context_switch_timer [of os k g'] context_switch_strategy [of os k g'] by auto
  show "arrival_times g' = arrival_times g" using table_data_cong(3) [OF loop_iteration_table [OF assms]] .
  show "timer_value g' = timer_value g" using t by (intro timer_value_cong)
qed

section \<open>The interface\<close>

text \<open>
  A strategy keeps a clock: a relation of the state to the number of time units that have passed
  when its last alarm was handled, which an alarm advances by what the timer was set to.
\<close>

locale punctual =
  fixes os :: os
    and clock :: "globals \<Rightarrow> int \<Rightarrow> bool"
  assumes clock_arrivals: "clock g T \<Longrightarrow> table_inv os g \<and> arrival_clock g T"
    and clock_fires: "clock g T \<Longrightarrow> pending g = {} \<Longrightarrow> \<not> timspec_is_zero (it_value g) \<Longrightarrow>
      clock (g\<lparr>alrm_pending := True, it_value := ts_zero\<rparr>) T"
    and clock_exits: "clock g T \<Longrightarrow> pending g = {} \<Longrightarrow> runs (world_of g) i \<Longrightarrow>
      clock (g\<lparr>chld_pending := True, world_of := child_exits i (world_of g)\<rparr>) T"
    and clock_exit_turn: "clock g T \<Longrightarrow> pending g = {SIGCHLD} \<Longrightarrow>
      loop_iteration os [SIGCHLD] g = Inr (False, g') \<Longrightarrow> clock g' T \<and> pending g' = {}"
    and clock_alarm_turn: "clock g T \<Longrightarrow> pending g = {SIGALRM} \<Longrightarrow>
      loop_iteration os [SIGALRM] g = Inr (False, g') \<Longrightarrow> timer_value g = Inr v \<Longrightarrow>
      \<exists>T'. clock g' T' \<and> pending g' = {} \<and> time_unit (timer_info g') = time_unit (timer_info g) \<and>
        nanos (time_unit (timer_info g)) * T' = nanos (time_unit (timer_info g)) * T + nanos v \<and>
        (\<not> arrival_queue_empty g' \<longrightarrow> T' < arrival_times g' ! arrival_ptr g')"
begin

text \<open>The time \<open>E\<close> that has passed, against the clock.\<close>

definition on_time :: "globals \<Rightarrow> int \<Rightarrow> bool" where
  "on_time g E \<longleftrightarrow> (\<exists>T v. clock g T \<and> timer_value g = Inr v \<and>
     (let u = nanos (time_unit (timer_info g)) in
      if alrm_pending g then E = u * T + nanos v
      else E = u * T \<and> it_value g = v \<and> (\<not> arrival_queue_empty g \<longrightarrow> T < arrival_times g ! arrival_ptr g)))"

lemma on_time_start:
  assumes "clock g 0" "timer_value g = Inr (it_value g)" "alrm_pending g \<Longrightarrow> nanos (it_value g) = 0"
    "\<not> alrm_pending g \<Longrightarrow> 0 < arrival_times g ! arrival_ptr g"
  shows "on_time g 0"
  using assms by (auto simp: on_time_def Let_def)

lemma on_time_step:
  assumes "step os g g'" "on_time g E"
  shows "on_time g' (E + timer_ran g g') \<and> time_unit (timer_info g') = time_unit (timer_info g)"
  using assms
proof (induction rule: step.induct)
  case (timer_fires g)
  let ?h = "g\<lparr>alrm_pending := True, it_value := ts_zero\<rparr>"
  have "timer_value ?h = timer_value g" by (rule timer_value_cong) simp_all
  then show ?case
    using timer_fires clock_fires [of g] by (auto simp: on_time_def timer_ran_def Let_def)
next
  case (child_terminates g i)
  let ?h = "g\<lparr>chld_pending := True, world_of := child_exits i (world_of g)\<rparr>"
  have "timer_value ?h = timer_value g" by (rule timer_value_cong) simp_all
  then show ?case
    using child_terminates clock_exits [of g _ i]
    by (auto simp: on_time_def timer_ran_def Let_def arrival_queue_empty_def)
next
  case (wakes_up g sig g')
  obtain T v where T: "clock g T" "timer_value g = Inr v"
    "let u = nanos (time_unit (timer_info g)) in if alrm_pending g then E = u * T + nanos v
      else E = u * T \<and> it_value g = v \<and> (\<not> arrival_queue_empty g \<longrightarrow> T < arrival_times g ! arrival_ptr g)"
    using wakes_up(3) by (auto simp: on_time_def)
  show ?case
  proof (cases sig)
    case SIGALRM
    then have l: "loop_iteration os [SIGALRM] g = Inr (False, g')" "alrm_pending g" "\<not> chld_pending g"
      using wakes_up by simp_all
    obtain T' where "clock g' T'" "pending g' = {}" "time_unit (timer_info g') = time_unit (timer_info g)"
      "nanos (time_unit (timer_info g)) * T' = nanos (time_unit (timer_info g)) * T + nanos v"
      "\<not> arrival_queue_empty g' \<longrightarrow> T' < arrival_times g' ! arrival_ptr g'"
      using clock_alarm_turn [OF T(1) _ l(1) T(2)] l(2,3) by auto
    moreover obtain "timer_value g' = Inr (it_value g')" using alarm_turn_timer [OF l(1)] .
    ultimately show ?thesis using T(3) l(2) by (auto simp: on_time_def timer_ran_def Let_def)
  next
    case SIGCHLD
    then have l: "loop_iteration os [SIGCHLD] g = Inr (False, g')" "\<not> alrm_pending g" "chld_pending g"
      using wakes_up by simp_all
    have "clock g' T" "pending g' = {}" using clock_exit_turn [OF T(1) _ l(1)] l by auto
    then show ?thesis
      using exit_turn_timer [OF l(1)] T l(2) by (auto simp: on_time_def timer_ran_def Let_def arrival_queue_empty_def)
  qed (use wakes_up in simp)
qed

lemma on_time_timed:
  assumes "timed os g0 E g" "on_time g0 0"
  shows "on_time g E \<and> time_unit (timer_info g) = time_unit (timer_info g0)"
  using assms by (induction rule: timed.induct) (use on_time_step in auto)

text \<open>Exactly the processes that are due have been forked, whenever no alarm is waiting to be handled.\<close>

lemma forked_iff_due:
  assumes "on_time g E" "\<not> alrm_pending g" "i < length (procs (world_of g))"
  shows "i < arrival_ptr g \<longleftrightarrow> nanos (time_unit (timer_info g)) * arrival_times g ! i \<le> E"
    "pid (procs (world_of g) ! i) =
      (if nanos (time_unit (timer_info g)) * arrival_times g ! i \<le> E then fork os i else 0)"
proof -
  obtain T where T: "clock g T" "E = nanos (time_unit (timer_info g)) * T"
    "\<not> arrival_queue_empty g \<longrightarrow> T < arrival_times g ! arrival_ptr g"
    using assms(1,2) by (auto simp: on_time_def Let_def)
  have tab: "table_inv os g" and c: "arrival_clock g T" using clock_arrivals [OF T(1)] by simp_all
  have "arrival_times g ! i \<le> T \<longleftrightarrow> i < arrival_ptr g"
  proof (cases "i < arrival_ptr g")
    case True
    then show ?thesis using c assms(3) by (auto simp: arrival_clock_def Let_def)
  next
    case False
    then have "\<not> arrival_queue_empty g" using table_inv_queue [OF tab] assms(3) by simp
    then show ?thesis using T(3) later_due [OF tab, of i] False assms(3) by simp
  qed
  moreover have "0 < nanos (time_unit (timer_info g))" using c by (simp add: arrival_clock_def Let_def)
  ultimately show *: "i < arrival_ptr g \<longleftrightarrow> nanos (time_unit (timer_info g)) * arrival_times g ! i \<le> E"
    using T(2) by (simp add: mult_le_cancel_left_pos)
  show "pid (procs (world_of g) ! i) =
      (if nanos (time_unit (timer_info g)) * arrival_times g ! i \<le> E then fork os i else 0)"
    using tab assms(3) unfolding * [symmetric] by (simp add: table_inv_def Let_def)
qed

lemma forked_on_time:
  assumes "on_time g0 0" "arrival_times g0 = map arrival_time ps" "timed os g0 E g" "\<not> alrm_pending g" "i < length ps"
  shows "(i < arrival_ptr g \<longleftrightarrow> nanos (time_unit (timer_info g0)) * arrival_time (ps ! i) \<le> E) \<and>
     pid (procs (world_of g) ! i) =
       (if nanos (time_unit (timer_info g0)) * arrival_time (ps ! i) \<le> E then fork os i else 0)"
proof -
  have at: "arrival_times g = map arrival_time ps"
    using table_data_cong(3) [OF reachable_table [OF timed_reachable [OF assms(3)]]] assms(2) by simp
  then have "i < length (procs (world_of g))" "arrival_times g ! i = arrival_time (ps ! i)"
    using assms(5) map_eq_imp_length_eq [OF at] by simp_all
  then show ?thesis using on_time_timed [OF assms(3,1)] forked_iff_due [of g E i, OF _ assms(4)] by simp
qed

end

end
