(* ===== verification/Arrivals.thy ===== *)
theory Arrivals
  imports Clock
begin

text \<open>
  The handling of arrivals in the event loop, for any strategy: if the scheduler of the strategy can
  take the next process of the table, the loop over the simultaneous arrivals terminates without
  error, takes exactly those that are due, in order, and sets the time until the next one. The
  schedulers meet the interface \<open>arrivals\<close> with their own invariant and their own view of the jobs.
\<close>

section \<open>What the handling of arrivals leaves alone\<close>

definition same_timer :: "globals \<Rightarrow> globals \<Rightarrow> bool" where
  "same_timer g g' \<longleftrightarrow> timer_info g' = timer_info g \<and> event_type g' = event_type g \<and>
     it_value g' = it_value g \<and> alrm_pending g' = alrm_pending g \<and> chld_pending g' = chld_pending g \<and>
     zombies (world_of g') = zombies (world_of g)"

lemma same_timer_refl [simp]: "same_timer g g"
  by (simp add: same_timer_def)

lemma same_timer_trans: "same_timer a b \<Longrightarrow> same_timer b c \<Longrightarrow> same_timer a c"
  by (simp add: same_timer_def)

text \<open>The part of the timer that every strategy uses.\<close>

definition arrival_timer :: "globals \<Rightarrow> bool" where
  "arrival_timer g \<longleftrightarrow> unit_ok (time_unit (timer_info g)) \<and> duration (arrival_remaining (timer_info g))"

text \<open>The new value of \<^verbatim>\<open>arrival_remaining\<close>.\<close>

abbreviation set_arrival :: "timespec \<Rightarrow> globals \<Rightarrow> globals" where
  "set_arrival r g \<equiv> g\<lparr>timer_info := (timer_info g)\<lparr>arrival_remaining := r\<rparr>\<rparr>"

lemma update_arrival_remaining_eq:
  assumes "arrival_timer g" "0 \<le> n" "in_int n"
  obtains r where "update_arrival_remaining n g = Inr (set_arrival r g)" "duration r"
    "nanos r = nanos (time_unit (timer_info g)) * n"
proof -
  obtain r where r: "timespec_multiply (time_unit (timer_info g)) n = Inr r"
    "duration r" "nanos r = nanos (time_unit (timer_info g)) * n"
    using unit_multiply [OF _ assms(2,3)] assms(1) unfolding arrival_timer_def by blast
  have "0 \<le> tv_sec (arrival_remaining (timer_info g))" "0 \<le> tv_nsec (arrival_remaining (timer_info g))"
    using assms(1) by (simp_all add: arrival_timer_def duration_def normal_def)
  with r that show ?thesis
    by (simp add: update_arrival_remaining_def assert_nonnegetive_remaining_def)
qed

section \<open>The interface\<close>

locale arrivals =
  fixes os :: os
    and inv :: "globals \<Rightarrow> bool"
    and view :: "globals \<Rightarrow> 'j"
    and added :: "nat \<Rightarrow> 'j \<Rightarrow> 'j"
  assumes inv_table: "inv g \<Longrightarrow> table_inv os g"
    and inv_timer: "inv g \<Longrightarrow> arrival_timer g"
    and inv_set_arrival: "inv g \<Longrightarrow> duration r \<Longrightarrow> inv (set_arrival r g)"
    and view_set_arrival: "view (set_arrival r g) = view g"
    and add_arrived: "inv g \<Longrightarrow> \<not> arrival_queue_empty g \<Longrightarrow>
      \<exists>g'. add_process os (At (arrival_ptr g)) (g\<lparr>arrival_ptr := Suc (arrival_ptr g)\<rparr>) = Inr g' \<and> inv g' \<and>
        view g' = added (arrival_ptr g) (view g) \<and> arrival_ptr g' = Suc (arrival_ptr g) \<and> same_timer g g'"
begin

lemma add_simultaneous_ok:
  assumes "inv g" "0 \<le> a" "in_int a"
  shows "\<exists>t g'. add_simultaneous os a g = Inr (t, g') \<and> inv g' \<and> 0 \<le> t \<and> in_int t \<and> same_timer g g' \<and>
     arrival_ptr g \<le> arrival_ptr g' \<and> view g' = fold added [arrival_ptr g..<arrival_ptr g'] (view g) \<and>
     (arrival_queue_empty g' \<longrightarrow> t = a \<or> t = 0) \<and>
     (\<not> arrival_queue_empty g' \<longrightarrow> timeunits_until_next_arrival g' = Inr t \<and> 0 < t)"
  using assms
proof (induction "length (procs (world_of g)) - arrival_ptr g" arbitrary: g a rule: less_induct)
  case less
  show ?case
  proof (cases "arrival_queue_empty g")
    case True
    with less.prems show ?thesis by (subst add_simultaneous.simps) simp
  next
    case False
    obtain t where t: "timeunits_until_next_arrival g = Inr t" "0 \<le> t" "in_int t"
      using timeunits_ok [OF inv_table [OF less.prems(1)] False] .
    show ?thesis
    proof (cases "t = 0")
      case nz: False
      with t False less.prems show ?thesis by (subst add_simultaneous.simps) simp
    next
      case True
      obtain g1 where g1: "add_process os (At (arrival_ptr g)) (g\<lparr>arrival_ptr := Suc (arrival_ptr g)\<rparr>) = Inr g1"
        "inv g1" "view g1 = added (arrival_ptr g) (view g)" "arrival_ptr g1 = Suc (arrival_ptr g)" "same_timer g g1"
        using add_arrived [OF less.prems(1) False] by blast
      have "length (procs (world_of g1)) - arrival_ptr g1 < length (procs (world_of g)) - arrival_ptr g"
        using add_process_frame [OF g1(1)] timeunits_InrD [OF t(1)] g1(4) by simp
      then obtain t' h where h: "add_simultaneous os 0 g1 = Inr (t', h)" "inv h" "0 \<le> t'" "in_int t'"
        "same_timer g1 h" "arrival_ptr g1 \<le> arrival_ptr h"
        "view h = fold added [arrival_ptr g1..<arrival_ptr h] (view g1)"
        "arrival_queue_empty h \<longrightarrow> t' = 0"
    "\<not> arrival_queue_empty h \<longrightarrow> timeunits_until_next_arrival h = Inr t' \<and> 0 < t'"
        using less.hyps [OF _ g1(2), of 0] by (auto simp: in_int_def)
      have "add_simultaneous os a g = Inr (t', h)"
        using False t(1) True g1(1) h(1)
        by (subst add_simultaneous.simps) (simp add: get_arrived_process_def)
      moreover have "[arrival_ptr g..<arrival_ptr h] = arrival_ptr g # [arrival_ptr g1..<arrival_ptr h]"
        using h(6) g1(4) by (simp add: upt_conv_Cons)
      ultimately show ?thesis
        using h g1(3,4) same_timer_trans [OF g1(5) h(5)] by simp
    qed
  qed
qed

lemma handle_arrival_ok:
  assumes "inv g" "\<not> arrival_queue_empty g"
  obtains h r where "handle_arrival os g = Inr (set_arrival r h)" "inv (set_arrival r h)"
    "same_timer g h" "arrival_ptr g < arrival_ptr h" "duration r"
    "view (set_arrival r h) = fold added [arrival_ptr g..<arrival_ptr h] (view g)"
    "if arrival_queue_empty h then nanos r = 0
     else \<exists>t > 0. timeunits_until_next_arrival h = Inr t \<and> nanos r = nanos (time_unit (timer_info g)) * t"
proof -
  obtain g1 where g1: "add_process os (At (arrival_ptr g)) (g\<lparr>arrival_ptr := Suc (arrival_ptr g)\<rparr>) = Inr g1"
    "inv g1" "view g1 = added (arrival_ptr g) (view g)" "arrival_ptr g1 = Suc (arrival_ptr g)" "same_timer g g1"
    using add_arrived [OF assms] by blast
  obtain t h where h: "add_simultaneous os 0 g1 = Inr (t, h)" "inv h" "0 \<le> t" "in_int t"
    "same_timer g1 h" "arrival_ptr g1 \<le> arrival_ptr h"
    "view h = fold added [arrival_ptr g1..<arrival_ptr h] (view g1)"
    "arrival_queue_empty h \<longrightarrow> t = 0"
    "\<not> arrival_queue_empty h \<longrightarrow> timeunits_until_next_arrival h = Inr t \<and> 0 < t"
    using add_simultaneous_ok [OF g1(2), of 0] by (auto simp: in_int_def)
  obtain r where r: "update_arrival_remaining t h = Inr (set_arrival r h)" "duration r"
    "nanos r = nanos (time_unit (timer_info h)) * t"
    using update_arrival_remaining_eq [OF inv_timer [OF h(2)] h(3,4)] .
  have s: "same_timer g h" using same_timer_trans [OF g1(5) h(5)] .
  have "[arrival_ptr g..<arrival_ptr h] = arrival_ptr g # [arrival_ptr g1..<arrival_ptr h]"
    using h(6) g1(4) by (simp add: upt_conv_Cons)
  then have "view (set_arrival r h) = fold added [arrival_ptr g..<arrival_ptr h] (view g)"
    using view_set_arrival h(7) g1(3) by simp
  moreover have "handle_arrival os g = Inr (set_arrival r h)"
    using g1(1) h(1) r(1) by (simp add: handle_arrival_def get_arrived_process_def)
  moreover have "if arrival_queue_empty h then nanos r = 0
     else \<exists>t > 0. timeunits_until_next_arrival h = Inr t \<and> nanos r = nanos (time_unit (timer_info g)) * t"
    using h(8,9) r(3) s by (auto simp: same_timer_def)
  ultimately show ?thesis using that inv_set_arrival [OF h(2) r(2)] s g1(4) h(6) r(2) by simp
qed

end


section \<open>The state after initialisation, without time slices\<close>

lemma main_init_arrivals:
  assumes os: "os_ok os" "0 < getpid os" and ps: "wf_table ps" and t: "clock_ok t0 t1" and st: "st \<noteq> RR"
  obtains u r where "main_init os (show_input st ps) t0 t1 junk =
      Inr ((set_arrival r (loaded os st ps u junk))\<lparr>it_value := r, alrm_pending := (arrival_time (hd ps) = 0)\<rparr>)"
    "unit_ok u" "duration r" "nanos u = (nanos t1 - nanos t0) div UNIT_MEASURE_REPEAT"
    "nanos r = nanos u * arrival_time (hd ps)"
proof -
  have so: "sched_ok os" "timer_ok os" using os(1) by (simp_all add: os_ok_def)
  obtain u where u: "main_init os (show_input st ps) t0 t1 junk =
      create_timer_and_init_timespec os (loaded os st ps u junk)" "unit_ok u"
    "nanos u = (nanos t1 - nanos t0) div UNIT_MEASURE_REPEAT"
    using main_init_show [OF so(1) os(2) ps t] by blast
  let ?g = "loaded os st ps u junk"
  obtain n where n: "timeunits_until_next_arrival ?g = Inr n" "0 \<le> n" "in_int n"
    using timeunits_ok [OF table_inv_loaded [OF ps, of os st u junk]] .
  have hd: "n = arrival_time (hd ps)"
    using n(1) ps by (simp add: timeunits_until_next_arrival_def world_init_def wf_table_def
        arrival_queue_empty_def hd_conv_nth)
  obtain r where r: "timespec_multiply u n = Inr r" "duration r" "nanos r = nanos u * n"
    using unit_multiply [OF u(2) n(2,3)] .
  have n': "timeunits_until_next_arrival (set_arrival r ?g) = Inr n"
    using n(1) by (simp add: timeunits_until_next_arrival_def arrival_queue_empty_def cong: if_cong)
  have "create_timer_and_init_timespec os ?g =
      Inr ((set_arrival r ?g)\<lparr>it_value := r, alrm_pending := (n = 0)\<rparr>)"
    using so(2) n(1) n' r(1,2) st
    by (auto simp: create_timer_and_init_timespec_def init_arrival_remaining_def timer_ok_def
        init_timeslice_remaining_def set_timer_def timer_value_def Let_def)
  with u r hd that show ?thesis by simp
qed

lemma main_init_armed:
  assumes "os_ok os" "0 < getpid os" "wf_table ps" "clock_ok t0 t1" "st \<noteq> RR"
    "UNIT_MEASURE_REPEAT \<le> nanos t1 - nanos t0" "main_init os (show_input st ps) t0 t1 junk = Inr g"
  shows "0 < nanos (time_unit (timer_info g))" "alrm_pending g \<or> \<not> timspec_is_zero (it_value g)"
    "\<not> arrival_queue_empty g"
proof -
  obtain u r where u: "main_init os (show_input st ps) t0 t1 junk =
      Inr ((set_arrival r (loaded os st ps u junk))\<lparr>it_value := r, alrm_pending := (arrival_time (hd ps) = 0)\<rparr>)"
    "duration r" "nanos u = (nanos t1 - nanos t0) div UNIT_MEASURE_REPEAT" "nanos r = nanos u * arrival_time (hd ps)"
    using main_init_arrivals [OF assms(1-5), of junk] by metis
  have g: "g = (set_arrival r (loaded os st ps u junk))\<lparr>it_value := r, alrm_pending := (arrival_time (hd ps) = 0)\<rparr>"
    using assms(7) u(1) by simp
  have "0 < nanos u" using u(3) assms(6) by (simp add: UNIT_MEASURE_REPEAT_def pos_imp_zdiv_pos_iff)
  then show "0 < nanos (time_unit (timer_info g))" "alrm_pending g \<or> \<not> timspec_is_zero (it_value g)"
    using g u(4) timspec_is_zero_nanos [OF u(2)] by auto
  show "\<not> arrival_queue_empty g"
    using g table_inv_loaded(2) [OF assms(3)] by (simp add: arrival_queue_empty_def)
qed

lemma main_init_clock:
  assumes "os_ok os" "0 < getpid os" "wf_table ps" "clock_ok t0 t1" "st \<noteq> RR"
    "UNIT_MEASURE_REPEAT \<le> nanos t1 - nanos t0" "main_init os (show_input st ps) t0 t1 junk = Inr g"
  shows "arrival_clock g 0" "timer_value g = Inr (it_value g)" "alrm_pending g \<Longrightarrow> nanos (it_value g) = 0"
    "\<not> alrm_pending g \<Longrightarrow> 0 < arrival_times g ! arrival_ptr g" "arrival_times g = map arrival_time ps"
    "nanos (time_unit (timer_info g)) = (nanos t1 - nanos t0) div UNIT_MEASURE_REPEAT"
proof -
  obtain u r where u: "main_init os (show_input st ps) t0 t1 junk =
      Inr ((set_arrival r (loaded os st ps u junk))\<lparr>it_value := r, alrm_pending := (arrival_time (hd ps) = 0)\<rparr>)"
    "duration r" "nanos u = (nanos t1 - nanos t0) div UNIT_MEASURE_REPEAT" "nanos r = nanos u * arrival_time (hd ps)"
    using main_init_arrivals [OF assms(1-5), of junk] by metis
  have g: "g = (set_arrival r (loaded os st ps u junk))\<lparr>it_value := r, alrm_pending := (arrival_time (hd ps) = 0)\<rparr>"
    using assms(7) u(1) by simp
  have "0 < nanos u" using u(3) assms(6) by (simp add: UNIT_MEASURE_REPEAT_def pos_imp_zdiv_pos_iff)
  moreover have "map arrival_time ps ! 0 = arrival_time (hd ps)" "0 \<le> arrival_time (hd ps)"
    using assms(3) by (auto simp: wf_table_def arrivals_sorted_def hd_conv_nth)
  ultimately show "arrival_clock g 0" "timer_value g = Inr (it_value g)" "alrm_pending g \<Longrightarrow> nanos (it_value g) = 0"
    "\<not> alrm_pending g \<Longrightarrow> 0 < arrival_times g ! arrival_ptr g" "arrival_times g = map arrival_time ps"
    "nanos (time_unit (timer_info g)) = (nanos t1 - nanos t0) div UNIT_MEASURE_REPEAT"
    using u(3,4) assms(5) by (auto simp: g arrival_clock_def timer_value_def world_init_def Let_def)
qed

section \<open>Strategies without time slices\<close>

text \<open>Fields that the invariant of a strategy does not look at.\<close>

definition with_signals :: "globals \<Rightarrow> EventType \<Rightarrow> timespec \<Rightarrow> bool \<Rightarrow> bool \<Rightarrow> globals" where
  "with_signals g e v a c = g\<lparr>event_type := e, it_value := v, alrm_pending := a, chld_pending := c\<rparr>"

lemma with_signals_simps:
  "g\<lparr>event_type := e\<rparr> = with_signals g e (it_value g) (alrm_pending g) (chld_pending g)"
  "g\<lparr>it_value := v\<rparr> = with_signals g (event_type g) v (alrm_pending g) (chld_pending g)"
  "g\<lparr>alrm_pending := True, it_value := v\<rparr> = with_signals g (event_type g) v True (chld_pending g)"
  "sigsuspend [SIGALRM] g = with_signals g TIMER_EXPIRED (it_value g) False False"
  "sigsuspend [SIGCHLD] g = with_signals g CHILD_TERMINATED (it_value g) False False"
  by (simp_all add: with_signals_def sigsuspend_def signal_handler_def)

lemma with_signals_sel [simp]:
  "world_of (with_signals g e v a c) = world_of g" "arrival_ptr (with_signals g e v a c) = arrival_ptr g"
  "num_process (with_signals g e v a c) = num_process g" "timer_info (with_signals g e v a c) = timer_info g"
  "current_strategy (with_signals g e v a c) = current_strategy g"
  "event_type (with_signals g e v a c) = e" "it_value (with_signals g e v a c) = v"
  "alrm_pending (with_signals g e v a c) = a" "chld_pending (with_signals g e v a c) = c"
  "arrival_queue_empty (with_signals g e v a c) = arrival_queue_empty g"
  by (simp_all add: with_signals_def arrival_queue_empty_def)

text \<open>
  What the event loop needs of a strategy whose only timer events are arrivals. \<open>settled\<close> holds after
  a context switch, \<open>exited\<close> when the running child has terminated and has not been removed; \<open>idle\<close>
  says of a view that no job is left, and \<open>can_idle\<close> whether a context switch is possible then.
\<close>

locale arrival_driven = arrivals +
  fixes settled :: "globals \<Rightarrow> bool"
    and exited :: "globals \<Rightarrow> bool"
    and idle :: "'a \<Rightarrow> bool"
    and can_idle :: bool
  assumes strategy: "inv g \<Longrightarrow> current_strategy g \<noteq> RR \<and> timer_ok os"
    and signals: "inv (with_signals g e v a c) = inv g" "settled (with_signals g e v a c) = settled g"
      "exited (with_signals g e v a c) = exited g" "view (with_signals g e v a c) = view g"
    and settled_inv: "settled g \<Longrightarrow> inv g"
    and settled_idle: "inv g \<Longrightarrow> idle (view g) \<Longrightarrow> settled g"
    and added_busy: "\<not> idle (added i j)"
    and empty_idle: "inv g \<Longrightarrow> scheduler_empty g \<longleftrightarrow> idle (view g)"
    and switch: "inv g \<Longrightarrow> can_idle \<or> \<not> idle (view g) \<Longrightarrow>
      \<exists>g'. context_switch os g = Inr g' \<and> settled g' \<and> view g' = view g \<and>
        arrival_ptr g' = arrival_ptr g \<and> num_process g' = num_process g \<and> same_timer g g'"
    and switch_idle: "inv g \<Longrightarrow> \<not> can_idle \<Longrightarrow> idle (view g) \<Longrightarrow> \<exists>e. context_switch os g = Inl e"
    and child_exit: "settled g \<Longrightarrow> zombies (world_of g) = [] \<Longrightarrow> runs (world_of g) i \<Longrightarrow>
      exited (g\<lparr>world_of := child_exits i (world_of g)\<rparr>)"
    and remove: "exited g \<Longrightarrow> \<exists>g'. bindR (wait_null g) remove_current_process = Inr g' \<and> inv g' \<and>
        arrival_ptr g' = arrival_ptr g \<and> num_process g' = num_process g \<and> it_value g' = it_value g \<and>
        alrm_pending g' = alrm_pending g \<and> chld_pending g' = chld_pending g \<and> zombies (world_of g') = []"
begin

lemma fold_added_busy: "xs \<noteq> [] \<Longrightarrow> \<not> idle (fold added xs j)"
  by (induction xs rule: rev_induct) (simp_all add: added_busy)

lemma handle_timer_ok:
  assumes "inv g" "\<not> arrival_queue_empty g"
  obtains g' where "handle_timer os g = Inr g'" "inv g'" "\<not> idle (view g')" "arrival_ptr g < arrival_ptr g'"
    "alrm_pending g' = alrm_pending g" "chld_pending g' = chld_pending g"
    "zombies (world_of g') = zombies (world_of g)"
    "view g' = fold added [arrival_ptr g..<arrival_ptr g'] (view g)"
    "arrival_queue_empty g' \<longrightarrow> timspec_is_zero (it_value g')"
    "time_unit (timer_info g') = time_unit (timer_info g)"
    "0 < nanos (time_unit (timer_info g)) \<and> \<not> arrival_queue_empty g' \<longrightarrow> \<not> timspec_is_zero (it_value g')"
    "arrival_times g ! (arrival_ptr g' - 1) = arrival_times g ! arrival_ptr g"
    "arrival_queue_empty g' \<or> (\<exists>t > 0. timeunits_until_next_arrival g' = Inr t \<and>
       nanos (arrival_remaining (timer_info g')) = nanos (time_unit (timer_info g)) * t)"
proof -
  let ?g = "g\<lparr>event_type := PROCESS_ARRIVAL\<rparr>"
  have e: "inv ?g" "\<not> arrival_queue_empty ?g" "view ?g = view g"
    using assms by (simp_all add: with_signals_simps(1) signals)
  obtain h r where h: "handle_arrival os ?g = Inr (set_arrival r h)" "inv (set_arrival r h)"
    "same_timer ?g h" "arrival_ptr ?g < arrival_ptr h" "duration r"
    "view (set_arrival r h) = fold added [arrival_ptr ?g..<arrival_ptr h] (view ?g)"
    "if arrival_queue_empty h then nanos r = 0
     else \<exists>t > 0. timeunits_until_next_arrival h = Inr t \<and> nanos r = nanos (time_unit (timer_info ?g)) * t"
    using handle_arrival_ok [OF e(1,2)] .
  let ?h = "set_arrival r h" let ?k = "?h\<lparr>it_value := r\<rparr>"
  have st: "current_strategy ?h \<noteq> RR" "timer_settime os r = 0" "current_strategy g \<noteq> RR"
    using strategy [OF h(2)] strategy [OF assms(1)] h(5) by (auto simp: timer_ok_def)
  then have "handle_timer os g = Inr ?k"
    using h(1) by (simp add: handle_timer_def get_expire_reason_def subtract_time_passed_def
        set_timer_def timer_value_def)
  moreover have "inv ?k" "view ?k = view ?h" using h(2) by (simp_all only: with_signals_simps(2) signals)
  moreover have "arrival_queue_empty ?k \<longrightarrow> timspec_is_zero (it_value ?k)"
    using h(5,7) nanos_eq_0_iff [of r]
    by (auto simp: arrival_queue_empty_def timspec_is_zero_def duration_def split: if_splits)
  moreover have "0 < nanos (time_unit (timer_info g)) \<and> \<not> arrival_queue_empty ?k \<longrightarrow> \<not> timspec_is_zero (it_value ?k)"
    using h(7) timspec_is_zero_nanos [OF h(5)] by (auto simp: arrival_queue_empty_def split: if_splits)
  moreover have "timeunits_until_next_arrival ?k = timeunits_until_next_arrival h" "arrival_queue_empty ?k = arrival_queue_empty h"
    by (simp_all add: timeunits_until_next_arrival_def arrival_queue_empty_def cong: if_cong)
  then have "arrival_queue_empty ?k \<or> (\<exists>t > 0. timeunits_until_next_arrival ?k = Inr t \<and>
      nanos (arrival_remaining (timer_info ?k)) = nanos (time_unit (timer_info g)) * t)"
    using h(7) by (auto split: if_splits)
  ultimately show ?thesis
    using h(3,4,6) e(3) fold_added_busy [of "[arrival_ptr g..<arrival_ptr h]" "view g"] handle_arrival_due [OF h(1)]
    by (intro that [of ?k]) (auto simp: same_timer_def)
qed

text \<open>Between two turns of the event loop.\<close>

definition sys_inv :: "globals \<Rightarrow> bool" where
  "sys_inv g \<longleftrightarrow>
     (if chld_pending g then exited g \<and> \<not> alrm_pending g else settled g \<and> zombies (world_of g) = []) \<and>
     (alrm_pending g \<or> \<not> timspec_is_zero (it_value g) \<longrightarrow> \<not> arrival_queue_empty g)"

lemma turn_end:
  assumes "inv g" "can_idle \<or> \<not> idle (view g) \<or> arrival_queue_empty g"
  obtains b g' where
    "(if arrival_queue_empty g \<and> scheduler_empty g then Inr (True, g)
      else bindR (context_switch os g) (\<lambda>g''. Inr (False, g''))) = Inr (b, g')"
    "settled g'" "view g' = view g" "arrival_queue_empty g' = arrival_queue_empty g"
    "arrival_ptr g' = arrival_ptr g" "same_timer g g'" "b \<longleftrightarrow> arrival_queue_empty g' \<and> idle (view g')"
proof (cases "arrival_queue_empty g \<and> idle (view g)")
  case True
  with assms that [of True g] show ?thesis by (simp add: empty_idle settled_idle)
next
  case False
  then obtain g' where "context_switch os g = Inr g'" "settled g'" "view g' = view g"
    "arrival_ptr g' = arrival_ptr g" "num_process g' = num_process g" "same_timer g g'"
    using switch [OF assms(1)] assms(2) by blast
  with False that [of False g'] assms(1) show ?thesis by (simp add: empty_idle arrival_queue_empty_def)
qed

lemma alarm_turn:
  assumes inv: "sys_inv g" and p: "pending g = {SIGALRM}"
  obtains b g' where "loop_iteration os [SIGALRM] g = Inr (b, g')" "sys_inv g'" "pending g' = {}"
    "b \<longleftrightarrow> arrival_queue_empty g' \<and> idle (view g')"
    "arrival_ptr g < arrival_ptr g'" "view g' = fold added [arrival_ptr g..<arrival_ptr g'] (view g)"
    "time_unit (timer_info g') = time_unit (timer_info g)"
    "0 < nanos (time_unit (timer_info g)) \<and> \<not> arrival_queue_empty g' \<longrightarrow> \<not> timspec_is_zero (it_value g')"
proof -
  let ?g = "sigsuspend [SIGALRM] g"
  have g: "inv ?g" "\<not> arrival_queue_empty ?g" "zombies (world_of ?g) = []" "view ?g = view g"
    "arrival_ptr ?g = arrival_ptr g"
    using inv p settled_inv by (auto simp: sys_inv_def with_signals_simps signals split: if_splits)
  obtain h where h: "handle_timer os ?g = Inr h" "inv h" "\<not> idle (view h)" "arrival_ptr ?g < arrival_ptr h"
    "alrm_pending h = alrm_pending ?g" "chld_pending h = chld_pending ?g"
    "zombies (world_of h) = zombies (world_of ?g)"
    "view h = fold added [arrival_ptr ?g..<arrival_ptr h] (view ?g)"
    "arrival_queue_empty h \<longrightarrow> timspec_is_zero (it_value h)"
    "time_unit (timer_info h) = time_unit (timer_info ?g)"
    "0 < nanos (time_unit (timer_info ?g)) \<and> \<not> arrival_queue_empty h \<longrightarrow> \<not> timspec_is_zero (it_value h)"
    using handle_timer_ok [OF g(1,2)] .
  obtain b k where k: "(if arrival_queue_empty h \<and> scheduler_empty h then Inr (True, h)
      else bindR (context_switch os h) (\<lambda>g''. Inr (False, g''))) = Inr (b, k)"
    "settled k" "view k = view h" "arrival_queue_empty k = arrival_queue_empty h"
    "arrival_ptr k = arrival_ptr h" "same_timer h k" "b \<longleftrightarrow> arrival_queue_empty k \<and> idle (view k)"
    using turn_end [OF h(2)] h(3) by blast
  have "loop_iteration os [SIGALRM] g = Inr (b, k)"
    using h(1) k(1) by (simp add: loop_iteration_def handle_event_def with_signals_simps)
  moreover have "sys_inv k" "pending k = {}"
    using h k g(3) by (auto simp: sys_inv_def same_timer_def with_signals_simps)
  moreover have "time_unit (timer_info k) = time_unit (timer_info g)" "it_value k = it_value h"
    using k(6) h(10) by (simp_all add: same_timer_def with_signals_simps)
  ultimately show ?thesis using that k h(4,8,11) g(4,5) by (simp add: with_signals_simps)
qed

text \<open>
  The only turn that can fail is the one after the last job has terminated, and only if processes
  are still to arrive and the strategy cannot be idle.
\<close>

lemma exit_turn:
  assumes inv: "sys_inv g" and p: "pending g = {SIGCHLD}"
  obtains (ok) b g' where "loop_iteration os [SIGCHLD] g = Inr (b, g')" "sys_inv g'" "pending g' = {}"
      "b \<longleftrightarrow> arrival_queue_empty g' \<and> idle (view g')" "arrival_ptr g' = arrival_ptr g"
      "timer_info g' = timer_info g" "it_value g' = it_value g" "arrival_queue_empty g' = arrival_queue_empty g"
      "\<exists>h. bindR (wait_null (sigsuspend [SIGCHLD] g)) remove_current_process = Inr h \<and> view g' = view h"
  | (gap) e g' where "loop_iteration os [SIGCHLD] g = Inl e" "\<not> can_idle" "\<not> arrival_queue_empty g"
      "bindR (wait_null (sigsuspend [SIGCHLD] g)) remove_current_process = Inr g'" "idle (view g')"
proof -
  let ?g = "sigsuspend [SIGCHLD] g"
  have "exited ?g" using inv p by (simp add: sys_inv_def with_signals_simps signals)
  then obtain h where h: "bindR (wait_null ?g) remove_current_process = Inr h" "inv h"
    "arrival_ptr h = arrival_ptr g" "num_process h = num_process g" "it_value h = it_value g"
    "\<not> alrm_pending h" "\<not> chld_pending h" "zombies (world_of h) = []"
    using remove [of ?g] by (auto simp: with_signals_simps)
  have eq: "loop_iteration os [SIGCHLD] g = (if arrival_queue_empty h \<and> scheduler_empty h then Inr (True, h)
      else bindR (context_switch os h) (\<lambda>g''. Inr (False, g'')))"
    using h(1) by (simp add: loop_iteration_def handle_event_def with_signals_simps)
  have ae: "arrival_queue_empty h = arrival_queue_empty g" using h(3,4) by (simp add: arrival_queue_empty_def)
  show ?thesis
  proof (cases "can_idle \<or> \<not> idle (view h) \<or> arrival_queue_empty h")
    case True
    obtain b k where k: "(if arrival_queue_empty h \<and> scheduler_empty h then Inr (True, h)
        else bindR (context_switch os h) (\<lambda>g''. Inr (False, g''))) = Inr (b, k)"
      "settled k" "arrival_queue_empty k = arrival_queue_empty h" "view k = view h"
      "arrival_ptr k = arrival_ptr h" "same_timer h k" "b \<longleftrightarrow> arrival_queue_empty k \<and> idle (view k)"
      using turn_end [OF h(2) True] by blast
    moreover have "sys_inv k" "pending k = {}"
      using h k inv ae by (auto simp: sys_inv_def same_timer_def)
    moreover have "timer_info k = timer_info g" "it_value k = it_value g"
      using \<open>same_timer h k\<close> reap_frame [OF h(1)] by (simp_all add: same_timer_def with_signals_simps)
    ultimately show ?thesis using ok [of b k] eq ae h(1,3) by simp
  next
    case False
    then obtain e where "context_switch os h = Inl e" using switch_idle [OF h(2)] by blast
    with False gap [OF _ _ _ h(1)] eq ae show ?thesis by simp
  qed
qed

lemma turn_ok:
  assumes "sys_inv g" "pending g = {sig}" "can_idle"
  shows "\<exists>b g'. loop_iteration os [sig] g = Inr (b, g') \<and> sys_inv g' \<and>
     (b \<longleftrightarrow> arrival_queue_empty g' \<and> idle (view g'))"
proof (cases sig)
  case SIGALRM
  then have "pending g = {SIGALRM}" using assms(2) by simp
  then show ?thesis by (rule alarm_turn [OF assms(1)]) (use SIGALRM in blast)
next
  case SIGCHLD
  then have "pending g = {SIGCHLD}" using assms(2) by simp
  then show ?thesis by (rule exit_turn [OF assms(1)]) (use SIGCHLD assms(3) in blast)+
qed (use assms in simp)

text \<open>What is known of a turn that returns.\<close>

lemma alarm_turnD:
  assumes "sys_inv g" "pending g = {SIGALRM}" "loop_iteration os [SIGALRM] g = Inr (b, g')"
  shows "sys_inv g'" "pending g' = {}" "b \<longleftrightarrow> arrival_queue_empty g' \<and> idle (view g')"
    "arrival_ptr g < arrival_ptr g'" "time_unit (timer_info g') = time_unit (timer_info g)"
    "0 < nanos (time_unit (timer_info g)) \<and> \<not> arrival_queue_empty g' \<longrightarrow> \<not> timspec_is_zero (it_value g')"
    "view g' = fold added [arrival_ptr g..<arrival_ptr g'] (view g)"
  by (rule alarm_turn [OF assms(1,2)], use assms(3) in simp)+

lemma exit_turnD:
  assumes "sys_inv g" "pending g = {SIGCHLD}" "loop_iteration os [SIGCHLD] g = Inr (b, g')"
  shows "sys_inv g'" "pending g' = {}" "b \<longleftrightarrow> arrival_queue_empty g' \<and> idle (view g')"
    "arrival_ptr g' = arrival_ptr g" "timer_info g' = timer_info g" "it_value g' = it_value g"
    "arrival_queue_empty g' = arrival_queue_empty g"
    "\<exists>h. bindR (wait_null (sigsuspend [SIGCHLD] g)) remove_current_process = Inr h \<and> view g' = view h"
  by (rule exit_turn [OF assms(1,2)], use assms(3) in \<open>simp; fail\<close>, use assms(3) in \<open>simp; fail\<close>)+

lemma turnD:
  assumes "sys_inv g" "pending g = {sig}" "loop_iteration os [sig] g = Inr (b, g')"
  shows "sys_inv g' \<and> pending g' = {} \<and> (b \<longleftrightarrow> arrival_queue_empty g' \<and> idle (view g'))"
proof (cases sig)
  case SIGALRM
  then show ?thesis using alarm_turnD(1-3) [of g b g'] assms by simp
next
  case SIGCHLD
  then show ?thesis using exit_turnD(1-3) [of g b g'] assms by simp
qed (use assms in simp)

text \<open>After the turn that leaves the loop.\<close>

lemma last_turn:
  assumes "sys_inv g" "pending g = {sig}" "loop_iteration os [sig] g = Inr (True, g')"
  shows "settled g' \<and> zombies (world_of g') = [] \<and> arrival_queue_empty g' \<and> idle (view g')"
  using turnD [OF assms] by (simp add: sys_inv_def)

text \<open>The termination of a child is a change of the world and of the pending signals.\<close>

lemma exits_signals: "g\<lparr>chld_pending := True, world_of := child_exits i (world_of g)\<rparr> =
    with_signals (g\<lparr>world_of := child_exits i (world_of g)\<rparr>) (event_type g) (it_value g) (alrm_pending g) True"
  by (simp add: with_signals_def)

lemma step_inv: "step os g g' \<Longrightarrow> sys_inv g \<Longrightarrow> sys_inv g'"
proof (induction rule: step.induct)
  case (timer_fires g)
  then show ?case by (simp add: sys_inv_def with_signals_simps(3) signals)
next
  case (child_terminates g i)
  then have "exited (g\<lparr>world_of := child_exits i (world_of g)\<rparr>)"
    using child_exit [of g i] by (simp add: sys_inv_def)
  then show ?case
    using child_terminates
    by (simp add: sys_inv_def exits_signals signals arrival_queue_empty_def with_signals_simps)
next
  case (wakes_up g sig g')
  then show ?case using turnD by blast
qed

lemma reachable_inv: "reachable os g0 g \<Longrightarrow> sys_inv g0 \<Longrightarrow> sys_inv g"
  by (induction rule: reachable.induct) (auto intro: step_inv)

text \<open>Such a strategy is punctual.\<close>

lemma sys_inv_table:
  assumes "sys_inv g"
  shows "table_inv os g" "current_strategy g \<noteq> RR"
proof -
  have "table_inv os g \<and> current_strategy g \<noteq> RR"
  proof (cases "chld_pending g")
    case True
    then have "exited g" using assms by (simp add: sys_inv_def)
    then obtain g' where g': "bindR (wait_null g) remove_current_process = Inr g'" "inv g'"
      "arrival_ptr g' = arrival_ptr g" "num_process g' = num_process g"
      using remove by metis
    have "world_of g' = (world_of g)\<lparr>zombies := tl (zombies (world_of g))\<rparr>" "current_strategy g' = current_strategy g"
      using reap_frame [OF g'(1)] by simp_all
    with inv_table [OF g'(2)] strategy [OF g'(2)] g'(3,4) show ?thesis by (simp add: table_inv_def)
  next
    case False
    then show ?thesis using assms settled_inv inv_table strategy by (simp add: sys_inv_def)
  qed
  then show "table_inv os g" "current_strategy g \<noteq> RR" by simp_all
qed

lemma alarm_turn_clock:
  assumes inv: "sys_inv g" and c: "arrival_clock g T" and p: "pending g = {SIGALRM}"
    and l: "loop_iteration os [SIGALRM] g = Inr (b, g')"
  shows "arrival_clock g' (arrival_times g ! arrival_ptr g)"
    "\<not> arrival_queue_empty g' \<longrightarrow> arrival_times g ! arrival_ptr g < arrival_times g' ! arrival_ptr g'"
proof -
  let ?h = "sigsuspend [SIGALRM] g"
  have h: "inv ?h" "\<not> arrival_queue_empty ?h" "\<not> arrival_queue_empty g"
    using inv p settled_inv by (auto simp: sys_inv_def with_signals_simps signals split: if_splits)
  obtain k where k: "handle_timer os ?h = Inr k" "timer_info g' = timer_info k" "arrival_ptr g' = arrival_ptr k"
    "num_process g' = num_process k" "arrival_times g' = arrival_times k"
    using alarm_turn_timer [OF l] .
  obtain k' t where k': "handle_timer os ?h = Inr k'" "inv k'" "arrival_ptr ?h < arrival_ptr k'"
    "time_unit (timer_info k') = time_unit (timer_info ?h)"
    "arrival_times ?h ! (arrival_ptr k' - 1) = arrival_times ?h ! arrival_ptr ?h"
    "arrival_queue_empty k' \<or> 0 < t \<and> timeunits_until_next_arrival k' = Inr t \<and>
       nanos (arrival_remaining (timer_info k')) = nanos (time_unit (timer_info ?h)) * t"
    by (rule handle_timer_ok [OF h(1,2)]) blast
  have kk: "k' = k" using k(1) k'(1) by simp
  have s: "arrival_times ?h = arrival_times g" "arrival_ptr ?h = arrival_ptr g" "arrival_clock ?h T"
    using c arrival_clock_cong [of ?h g T] by (simp_all add: with_signals_simps)
  have "arrival_clock k (arrival_times g ! arrival_ptr g) \<and>
      (\<not> arrival_queue_empty k \<longrightarrow> arrival_times g ! arrival_ptr g < arrival_times k ! arrival_ptr k)"
    using arrival_clock_arrives [OF s(3) h(2) inv_table [OF k'(2)] _ k'(3-6)]
      table_data_cong(3) [OF handle_timer_table [OF k'(1)]] unfolding kk s by blast
  then show "arrival_clock g' (arrival_times g ! arrival_ptr g)"
    "\<not> arrival_queue_empty g' \<longrightarrow> arrival_times g ! arrival_ptr g < arrival_times g' ! arrival_ptr g'"
    using arrival_clock_cong [of g' k] k by (simp_all add: arrival_queue_empty_def)
qed

end

sublocale arrival_driven \<subseteq> prompt: punctual os "\<lambda>g T. sys_inv g \<and> arrival_clock g T"
proof (unfold_locales, goal_cases)
  case (1 g T)
  then show ?case using sys_inv_table by simp
next
  case (2 g T)
  then show ?case using step_inv [OF timer_fires] by simp
next
  case (3 g T i)
  then show ?case using step_inv [OF child_terminates] by simp
next
  case (4 g T g')
  note t = exit_turn_timer [OF 4(3)]
  have "sys_inv g'" "pending g' = {}" using exit_turnD(1,2) [OF _ 4(2,3)] 4(1) by simp_all
  moreover have "arrival_clock g' T" using arrival_clock_cong [OF t(1,6,3,4)] 4(1) by simp
  ultimately show ?case by simp
next
  case (5 g T g' v)
  let ?a = "arrival_times g ! arrival_ptr g"
  have "\<not> arrival_queue_empty g" using 5 by (simp add: sys_inv_def)
  then have "nanos (time_unit (timer_info g)) * ?a = nanos (time_unit (timer_info g)) * T + nanos v"
    using 5 sys_inv_table(2) [of g] by (auto simp: timer_value_def arrival_clock_def Let_def right_diff_distrib)
  then show ?case
    using alarm_turnD(1,2,5) [OF _ 5(2,3)] alarm_turn_clock [OF conjunct1 [OF 5(1)] conjunct2 [OF 5(1)] 5(2,3)] 5(1)
    by (intro exI [of _ ?a]) simp
qed

section \<open>When such a strategy can come to its end\<close>

text \<open>
  The number of jobs that the scheduler holds goes down with every termination, and while it holds a
  job some child is running.
\<close>

locale arrival_finishing = arrival_driven +
  fixes load :: "'a \<Rightarrow> nat"
  assumes busy_runs: "settled g \<Longrightarrow> \<not> idle (view g) \<Longrightarrow> \<exists>i. runs (world_of g) i"
    and exit_view: "view (g\<lparr>world_of := child_exits i (world_of g)\<rparr>) = view g"
    and remove_load: "exited g \<Longrightarrow> bindR (wait_null g) remove_current_process = Inr g' \<Longrightarrow>
      load (view g') < load (view g)"
    and load_added: "load (added i j) = Suc (load j)"
begin

text \<open>
  While processes are to arrive the timer is armed or its alarm is pending; something is left to do.
\<close>

definition live :: "globals \<Rightarrow> bool" where
  "live g \<longleftrightarrow> sys_inv g \<and> 0 < nanos (time_unit (timer_info g)) \<and>
     (alrm_pending g \<or> \<not> timspec_is_zero (it_value g) \<or> arrival_queue_empty g) \<and>
     \<not> (arrival_queue_empty g \<and> idle (view g))"

lemma live_alarm:
  assumes "live g" "pending g = {SIGALRM}" "loop_iteration os [SIGALRM] g = Inr (False, g')"
  shows "live g' \<and> pending g' = {} \<and> arrival_ptr g < arrival_ptr g'"
  using assms alarm_turnD [OF _ assms(2,3)] by (auto simp: live_def)

lemma exit_turn_load:
  assumes inv: "sys_inv g" and "pending g = {SIGCHLD}" "loop_iteration os [SIGCHLD] g = Inr (b, g')"
  shows "load (view g') < load (view g)"
proof -
  obtain h where h: "bindR (wait_null (sigsuspend [SIGCHLD] g)) remove_current_process = Inr h" "view g' = view h"
    using exit_turnD(8) [OF assms] by metis
  have "exited (sigsuspend [SIGCHLD] g)" "view (sigsuspend [SIGCHLD] g) = view g"
    using inv assms(2) by (simp_all add: sys_inv_def with_signals_simps signals)
  then show ?thesis using remove_load [OF _ h(1)] h(2) by simp
qed

lemma live_exit:
  assumes "live g" "pending g = {SIGCHLD}" "loop_iteration os [SIGCHLD] g = Inr (False, g')"
  shows "live g' \<and> pending g' = {} \<and> arrival_ptr g' = arrival_ptr g \<and> load (view g') < load (view g)"
proof -
  have inv: "sys_inv g" using assms(1) by (simp add: live_def)
  then show ?thesis
    using assms exit_turnD [OF inv assms(2,3)] exit_turn_load [OF inv assms(2,3)] by (auto simp: live_def)
qed

lemma live_fires:
  assumes "live g" "pending g = {}" "\<not> arrival_queue_empty g"
  defines "h \<equiv> g\<lparr>alrm_pending := True, it_value := ts_zero\<rparr>"
  shows "step os g h" "live h" "pending h = {SIGALRM}" "world_of h = world_of g" "arrival_ptr h = arrival_ptr g"
  using assms timer_fires [of g os]
  by (simp_all add: live_def sys_inv_def with_signals_simps(3) signals)

lemma live_exits:
  assumes "live g" "pending g = {}" "runs (world_of g) i"
  defines "h \<equiv> g\<lparr>chld_pending := True, world_of := child_exits i (world_of g)\<rparr>"
  shows "step os g h" "live h" "pending h = {SIGCHLD}" "view h = view g" "arrival_ptr h = arrival_ptr g"
    "length (procs (world_of h)) = length (procs (world_of g))" "arrival_queue_empty h = arrival_queue_empty g"
proof -
  show s: "step os g h" unfolding h_def using assms(2,3) by (rule child_terminates)
  show v: "view h = view g" by (simp add: h_def exits_signals signals exit_view)
  show "live h" using step_inv [OF s] assms(1,2) v by (simp add: live_def h_def arrival_queue_empty_def)
qed (use assms in \<open>simp_all add: arrival_queue_empty_def\<close>)

lemma live_step: "step os g g' \<Longrightarrow> live g \<Longrightarrow> live g'"
proof (induction rule: step.induct)
  case (timer_fires g)
  then show ?case using live_fires(2) [of g] by (auto simp: live_def sys_inv_def)
next
  case (child_terminates g i)
  then show ?case using live_exits(2) by blast
next
  case (wakes_up g sig g')
  show ?case
  proof (cases sig)
    case SIGALRM
    then show ?thesis using live_alarm [of g g'] wakes_up by simp
  next
    case SIGCHLD
    then show ?thesis using live_exit [of g g'] wakes_up by simp
  qed (use wakes_up in simp)
qed

lemma live_reachable: "reachable os g0 g \<Longrightarrow> live g0 \<Longrightarrow> live g"
  by (induction rule: reachable.induct) (auto intro: live_step)

text \<open>Processes that have not arrived, then jobs that have not terminated.\<close>

definition work :: "globals rel" where
  "work = measures [\<lambda>g. length (procs (world_of g)) - arrival_ptr g, \<lambda>g. load (view g)]"

lemma wf_work: "wf work"
  by (simp add: work_def)

lemma live_settled: "live g \<Longrightarrow> pending g = {} \<Longrightarrow> settled g"
  by (simp add: live_def sys_inv_def)

lemma live_bound: "live g \<Longrightarrow> pending g = {} \<Longrightarrow> arrival_ptr g \<le> length (procs (world_of g))"
  using inv_table [OF settled_inv [OF live_settled]] by (simp add: table_inv_def Let_def)

lemma quiet_finish: "live g \<Longrightarrow> pending g = {} \<Longrightarrow> can_finish os g"
proof (induction g rule: wf_induct_rule [OF wf_work])
  case (1 g)
  show ?case
  proof (cases "arrival_queue_empty g")
    case False
    obtain h where h: "step os g h" "live h" "pending h = {SIGALRM}" "world_of h = world_of g"
      "arrival_ptr h = arrival_ptr g"
      using live_fires [OF 1(2,3) False] by (rule that)
    have "sys_inv h" using h(2) by (simp add: live_def)
    then obtain b g' where l: "loop_iteration os [SIGALRM] h = Inr (b, g')" using alarm_turn [OF _ h(3)] by metis
    have "can_finish os g'" if "\<not> b"
    proof -
      have g': "live g'" "pending g' = {}" "arrival_ptr g < arrival_ptr g'"
        using live_alarm [OF h(2,3)] l that h(5) by simp_all
      moreover have "length (procs (world_of g')) = length (procs (world_of g))"
        using table_data_cong(2) [OF loop_iteration_table [OF l]] h(4) by simp
      ultimately have "(g', g) \<in> work" using live_bound [OF g'(1,2)] by (simp add: work_def) linarith
      then show ?thesis using 1(1) g'(1,2) by blast
    qed
    then show ?thesis using can_finish_step [OF h(1)] can_finish_turn [OF h(3) l] by blast
  next
    case True
    then have "\<not> idle (view g)" using 1(2) by (simp add: live_def)
    then obtain i where i: "runs (world_of g) i" using busy_runs [OF live_settled [OF 1(2,3)]] by blast
    obtain h where h: "step os g h" "live h" "pending h = {SIGCHLD}" "view h = view g"
      "arrival_ptr h = arrival_ptr g" "length (procs (world_of h)) = length (procs (world_of g))"
      "arrival_queue_empty h"
      using live_exits [OF 1(2,3) i] True by simp
    have inv: "sys_inv h" using h(2) by (simp add: live_def)
    obtain b g' where l: "loop_iteration os [SIGCHLD] h = Inr (b, g')"
      by (rule exit_turn [OF inv h(3)]) (use h(7) in simp_all)
    have "can_finish os g'" if "\<not> b"
    proof -
      have g': "live g'" "pending g' = {}" "arrival_ptr g' = arrival_ptr g" "load (view g') < load (view g)"
        using live_exit [OF h(2,3)] l that h(4,5) by simp_all
      moreover have "length (procs (world_of g')) = length (procs (world_of g))"
        using table_data_cong(2) [OF loop_iteration_table [OF l]] h(6) by simp
      ultimately have "(g', g) \<in> work" by (simp add: work_def)
      then show ?thesis using 1(1) g'(1,2) by blast
    qed
    then show ?thesis using can_finish_step [OF h(1)] can_finish_turn [OF h(3) l] by blast
  qed
qed

text \<open>
  How many steps are left at most: two for each job that is to terminate, and as many for each
  arrival, less one if a signal is pending.
\<close>

definition steps_left :: "globals \<Rightarrow> nat" where
  "steps_left g = 4 * (length (procs (world_of g)) - arrival_ptr g) + 2 * load (view g) -
     (if alrm_pending g \<or> chld_pending g then 1 else 0)"

lemma steps_left_start:
  assumes "map name (procs (world_of g)) = map name ps" "load (view g) = 0"
  shows "steps_left g \<le> 4 * length ps"
  using assms(2) arg_cong [OF assms(1), of length] by (simp add: steps_left_def)

lemma load_fold: "load (fold added xs j) = length xs + load j"
  by (induction xs arbitrary: j) (simp_all add: load_added)

lemma settled_bound: "settled g \<Longrightarrow> arrival_ptr g \<le> length (procs (world_of g)) \<and>
   (arrival_queue_empty g \<longleftrightarrow> arrival_ptr g = length (procs (world_of g)))"
  using inv_table [OF settled_inv, of g] by (auto simp: table_inv_def Let_def arrival_queue_empty_def)

lemma exited_load: "exited g \<Longrightarrow> 0 < load (view g)"
  using remove [of g] remove_load [of g] by fastforce

lemma steps_left_step: "step os g g' \<Longrightarrow> sys_inv g \<Longrightarrow> steps_left g' < steps_left g"
proof (induction rule: step.induct)
  case (timer_fires g)
  then have "arrival_ptr g < length (procs (world_of g))"
    using settled_bound [of g] by (auto simp: sys_inv_def)
  with timer_fires show ?case by (simp add: steps_left_def with_signals_simps(3) signals)
next
  case (child_terminates g i)
  let ?h = "g\<lparr>world_of := child_exits i (world_of g)\<rparr>"
  have "0 < load (view g)"
    using child_terminates child_exit [of g i] exited_load [of ?h] exit_view by (simp add: sys_inv_def)
  moreover have "view (g\<lparr>chld_pending := True, world_of := child_exits i (world_of g)\<rparr>) = view g"
    by (simp add: exits_signals signals exit_view)
  ultimately show ?case using child_terminates by (simp add: steps_left_def)
next
  case (wakes_up g sig g')
  have n: "length (procs (world_of g')) = length (procs (world_of g))"
    using table_data_cong(2) [OF loop_iteration_table [OF wakes_up(2)]] .
  have s: "settled g'" "pending g' = {}"
    using turnD [OF wakes_up(3,1,2)] by (auto simp: sys_inv_def)
  show ?case
  proof (cases sig)
    case SIGALRM
    note d = alarm_turnD [OF wakes_up(3), of False g'] 
    have "arrival_ptr g < arrival_ptr g'" "load (view g') = arrival_ptr g' - arrival_ptr g + load (view g)"
      using d wakes_up(1,2) SIGALRM load_fold by simp_all
    then show ?thesis using settled_bound [OF s(1)] s(2) n wakes_up(1) SIGALRM by (simp add: steps_left_def) linarith
  next
    case SIGCHLD
    have "load (view g') < load (view g)" "arrival_ptr g' = arrival_ptr g"
      using exit_turn_load [OF wakes_up(3), of False g'] exit_turnD(4) [OF wakes_up(3), of False g'] wakes_up(1,2) SIGCHLD
      by simp_all
    then show ?thesis using s(2) n wakes_up(1) SIGCHLD by (simp add: steps_left_def)
  qed (use wakes_up in simp)
qed

lemma run_bound:
  assumes "sys_inv (f 0)" "\<forall>i < k. step os (f i) (f (Suc i))"
  shows "k \<le> steps_left (f 0)"
  using bounded_run [where I = sys_inv and B = "\<lambda>g g'. False" and m = steps_left and os = os and f = f and k = k]
    step_inv steps_left_step assms by fastforce

text \<open>A state without a next step is one whose turn leaves the loop or fails.\<close>

lemma live_progress:
  assumes live: "live g" and stuck: "\<nexists>g'. step os g g'"
  shows "\<exists>sig. pending g = {sig} \<and> ((\<exists>g'. loop_iteration os [sig] g = Inr (True, g')) \<or>
     \<not> can_idle \<and> (\<exists>e. loop_iteration os [sig] g = Inl e))"
proof -
  have inv: "sys_inv g" using live by (simp add: live_def)
  then have "\<not> (alrm_pending g \<and> chld_pending g)" by (auto simp: sys_inv_def)
  then consider "pending g = {}" | sig where "pending g = {sig}"
    by (cases "alrm_pending g"; cases "chld_pending g") (auto simp: pending_def)
  then show ?thesis
  proof cases
    case 1
    have "step os g (g\<lparr>alrm_pending := True, it_value := ts_zero\<rparr>)" if "\<not> arrival_queue_empty g"
      using live_fires(1) [OF live 1 that] .
    moreover have "\<exists>i. runs (world_of g) i" if "arrival_queue_empty g"
      using busy_runs [OF live_settled [OF live 1]] live that by (simp add: live_def)
    ultimately show ?thesis using stuck child_terminates [OF 1] by blast
  next
    case 2
    show ?thesis
    proof (cases "loop_iteration os [sig] g")
      case (Inl e)
      then have "\<not> can_idle" using turn_ok [OF inv 2] by auto
      with 2 Inl show ?thesis by blast
    next
      case (Inr p)
      then obtain b g' where l: "loop_iteration os [sig] g = Inr (b, g')" by (cases p) simp
      then have "b" using stuck wakes_up [OF 2, of os g'] by (cases b) auto
      then have "loop_iteration os [sig] g = Inr (True, g')" using l by simp
      with 2 show ?thesis by blast
    qed
  qed
qed

text \<open>Only a pending termination can stand between a state and the end, and only by its failure.\<close>

lemma live_finish:
  assumes live: "live g" and ok: "chld_pending g \<Longrightarrow> can_idle"
  shows "can_finish os g"
proof -
  have inv: "sys_inv g" using live by (simp add: live_def)
  then have "\<not> (alrm_pending g \<and> chld_pending g)" by (auto simp: sys_inv_def)
  then consider "pending g = {}" | "pending g = {SIGALRM}" | "pending g = {SIGCHLD}" by auto
  then show ?thesis
  proof cases
    case 1
    then show ?thesis using quiet_finish live by blast
  next
    case 2
    then obtain b g' where "loop_iteration os [SIGALRM] g = Inr (b, g')" using alarm_turn [OF inv 2] by metis
    then show ?thesis using can_finish_turn [OF 2] live_alarm [OF live 2] quiet_finish by (cases b) auto
  next
    case 3
    then obtain b g' where "loop_iteration os [SIGCHLD] g = Inr (b, g')" using turn_ok [OF inv 3] ok by auto
    then show ?thesis using can_finish_turn [OF 3] live_exit [OF live 3] quiet_finish by (cases b) auto
  qed
qed

end

end
