(* ===== verification/RR_System.thy ===== *)
theory RR_System
  imports Arrivals
begin

text \<open>
  The event loop under the round-robin strategy: an invariant of the whole program that every
  handler keeps, without any error, for every sorted input and every order of timer expirations and
  terminations.
\<close>

section \<open>The invariant\<close>

abbreviation queue_of :: "globals \<Rightarrow> nat list" where
  "queue_of g \<equiv> rr_queue (rr_of g)"

text \<open>
  The run queue holds arrived processes only; a process of the table that is not in the queue has no
  child in the kernel.
\<close>

definition rr_base :: "os \<Rightarrow> globals \<Rightarrow> bool" where
  "rr_base os g \<longleftrightarrow> os_ok os \<and> current_strategy g = RR \<and> table_inv os g \<and> timer_inv g \<and>
     rr_ok os (rr_of g) (world_of g) \<and>
     length (rr_pq (rr_of g)) = length (procs (world_of g)) \<and>
     set (queue_of g) \<subseteq> {..<arrival_ptr g} \<and>
     (\<forall>i < length (procs (world_of g)). i \<notin> set (queue_of g) \<longrightarrow> prio_of (world_of g) i = None)"

abbreviation quiet :: "os \<Rightarrow> globals \<Rightarrow> bool" where
  "quiet os g \<equiv> rr_quiet os (rr_of g) (world_of g)"

abbreviation settled :: "os \<Rightarrow> globals \<Rightarrow> bool" where
  "settled os g \<equiv> rr_settled os (rr_of g) (world_of g)"

lemma rr_baseD:
  assumes "rr_base os g"
  shows "os_ok os" "current_strategy g = RR" "table_inv os g" "timer_inv g"
    "rr_ok os (rr_of g) (world_of g)" "length (rr_pq (rr_of g)) = length (procs (world_of g))"
    "set (queue_of g) \<subseteq> {..<arrival_ptr g}"
    "i < length (procs (world_of g)) \<Longrightarrow> i \<notin> set (queue_of g) \<Longrightarrow> prio_of (world_of g) i = None"
  using assms by (auto simp: rr_base_def)

text \<open>Fields that the invariant does not look at.\<close>

lemma rr_base_upd [simp]:
  "rr_base os (g\<lparr>event_type := e\<rparr>) = rr_base os g"
  "rr_base os (g\<lparr>it_value := v\<rparr>) = rr_base os g"
  "rr_base os (g\<lparr>alrm_pending := b\<rparr>) = rr_base os g"
  "rr_base os (g\<lparr>chld_pending := b\<rparr>) = rr_base os g"
  by (simp_all add: rr_base_def table_inv_def timer_inv_def)

lemma rr_base_timer:
  "rr_base os g \<Longrightarrow> timer_inv (g\<lparr>timer_info := ti\<rparr>) \<Longrightarrow> rr_base os (g\<lparr>timer_info := ti\<rparr>)"
  by (simp add: rr_base_def table_inv_def)

section \<open>Arrivals\<close>

lemma rr_add_process:
  assumes base: "rr_base os g" and q: "quiet os g" and ne: "\<not> arrival_queue_empty g"
  obtains g' where
    "add_process os (At (arrival_ptr g)) (g\<lparr>arrival_ptr := Suc (arrival_ptr g)\<rparr>) = Inr g'"
    "rr_base os g'" "quiet os g'" "queue_of g' = queue_of g @ [arrival_ptr g]"
    "arrival_ptr g' = Suc (arrival_ptr g)" "same_timer g g'"
proof -
  let ?i = "arrival_ptr g" let ?w = "world_of g" let ?v = "admit os ?i ?w"
  note b = rr_baseD [OF base]
  have i: "?i < length (procs ?w)"
    using ne table_inv_queue [OF b(3)] b(3) by (auto simp: table_inv_def Let_def)
  have pq: "pids_ok ?w (queue_of g)" using b(5) by (simp add: rr_ok_def)
  note pv = pids_ok_admit [OF b(1,3) refl i pq b(7)]
  have ok: "rr_ok os (rr_of g) ?v" using b(5) pv(2) by (simp add: rr_ok_def)
  have "length (queue_of g) \<le> ?i"
    using pids_ok_distinct [OF pq] b(7) by (metis card_lessThan card_mono distinct_card finite_lessThan)
  then have "rr_can_add ?i (rr_of g) ?v" using i b(6) pv(1) by (simp add: rr_can_add_def)
  from rr_add_ok [OF ok this] obtain s' where s': "add_process_RR (At ?i) (rr_of g) = Inr s'"
    "rr_ok os s' ?v" "rr_queue s' = queue_of g @ [?i]" "length (rr_pq s') = length (rr_pq (rr_of g))"
    by blast
  let ?g' = "g\<lparr>arrival_ptr := Suc ?i, world_of := ?v, rr_of := s'\<rparr>"
  have old: "prio_of ?v j = prio_of ?w j" if "j < length (procs ?w)" "j \<noteq> ?i" for j
    using admit_others(3) [OF b(1,3) refl _ i] admit_later [OF b(1,3) refl] that by (meson linorder_neqE_nat)
  have "add_process os (At ?i) (g\<lparr>arrival_ptr := Suc ?i\<rparr>) = Inr ?g'"
    using add_process_admits [OF b(1), of ?i "g\<lparr>arrival_ptr := Suc ?i\<rparr>"] i s'(1) b(2)
    by (simp add: sched_add_def Let_def)
  moreover have "rr_base os ?g'"
    using b table_inv_admit [OF b(3) i] s' old
    by (auto simp: rr_base_def table_inv_def timer_inv_def Let_def)
  moreover have "quiet os ?g'"
  proof -
    have "prio_of ?v j = Some (low_prio os)" if "j \<in> set (tl (queue_of g))" for j
    proof -
      have j: "j < ?i" using that b(7) by (metis list.set_sel(2) list.sel(2) lessThan_iff subsetD)
      then show ?thesis using old [of j] i q that by (simp add: rr_quiet_def)
    qed
    then show ?thesis
      using s'(3) i by (cases "queue_of g") (auto simp: rr_quiet_def)
  qed
  ultimately show ?thesis using that [of ?g'] s'(3) by (simp add: same_timer_def)
qed

lemma fold_snoc: "fold (\<lambda>x q. q @ [x]) xs q = q @ xs"
  by (induction xs arbitrary: q) simp_all

interpretation rr_arrivals: arrivals os "\<lambda>g. rr_base os g \<and> quiet os g" queue_of "\<lambda>i q. q @ [i]" for os
proof (unfold_locales, goal_cases)
  case (2 g)
  then show ?case using rr_baseD(4) by (auto simp: arrival_timer_def timer_inv_def)
next
  case (3 g r)
  then have "timer_inv (set_arrival r g)" using rr_baseD(4) by (auto simp: timer_inv_def)
  with 3 rr_base_timer show ?case by simp
next
  case (5 g)
  then show ?case using rr_add_process [of os g] by metis
qed (simp_all add: rr_base_def)

lemma rr_handle_arrival:
  assumes "rr_base os g" "quiet os g" "\<not> arrival_queue_empty g"
  obtains g' where "handle_arrival os g = Inr g'" "rr_base os g'" "quiet os g'"
    "alrm_pending g' = alrm_pending g" "chld_pending g' = chld_pending g"
    "zombies (world_of g') = zombies (world_of g)" "arrival_ptr g < arrival_ptr g'"
    "queue_of g' = queue_of g @ [arrival_ptr g..<arrival_ptr g']"
    "timeslice_remaining (timer_info g') = timeslice_remaining (timer_info g)"
    "arrival_queue_empty g' \<or>
     (\<exists>t > 0. timeunits_until_next_arrival g' = Inr t \<and>
        nanos (arrival_remaining (timer_info g')) = nanos (time_unit (timer_info g)) * t)"
    "time_unit (timer_info g') = time_unit (timer_info g)"
proof (rule rr_arrivals.handle_arrival_ok [of os g], goal_cases)
  case (3 h r)
  then show thesis
    by (intro that [of "set_arrival r h"])
      (auto simp: same_timer_def fold_snoc arrival_queue_empty_def timeunits_until_next_arrival_def
        cong: if_cong split: if_splits)
qed (use assms in simp_all)

section \<open>The handlers\<close>

lemma rr_timeslice_over:
  assumes base: "rr_base os g" and q: "quiet os g"
  obtains s' where "timeslice_over g = Inr (g\<lparr>rr_of := s'\<rparr>)" "rr_base os (g\<lparr>rr_of := s'\<rparr>)"
    "rr_ready os s' (world_of g)" "rr_queue s' = rotate1 (queue_of g)"
proof -
  note b = rr_baseD [OF base]
  obtain s' where s': "timeslice_over_RR (rr_of g) = Inr s'" "rr_ok os s' (world_of g)"
    "rr_queue s' = rotate1 (queue_of g)" "rr_pq s' = rr_pq (rr_of g)"
    using rr_tick_ok [OF b(5)] .
  have "rr_ready os s' (world_of g)"
    using rr_tick_ready [OF _ q s'(1)] b(5) by (simp add: rr_ok_def)
  moreover have "rr_base os (g\<lparr>rr_of := s'\<rparr>)"
    using base s' by (simp add: rr_base_def table_inv_def timer_inv_def)
  moreover have "timeslice_over g = Inr (g\<lparr>rr_of := s'\<rparr>)"
    using b(2) s'(1) by (simp add: timeslice_over_def)
  ultimately show ?thesis using that s'(3) by blast
qed

definition rr_after_timer :: "globals \<Rightarrow> globals \<Rightarrow> bool" where
  "rr_after_timer g g' \<longleftrightarrow> queue_of g' = rotate1 (queue_of g) \<and> arrival_ptr g' = arrival_ptr g \<or>
     queue_of g' = queue_of g @ [arrival_ptr g..<arrival_ptr g'] \<and> arrival_ptr g < arrival_ptr g'"

text \<open>
  The beginning of the handling of an alarm: the reason is found and the time passed is subtracted,
  which leaves a state \<open>h\<close> that satisfies the invariant.
\<close>

lemma rr_alarm_start:
  assumes base: "rr_base os g" and q: "quiet os g"
  obtains ti where
    "\<And>r h. r = (if arrival_queue_empty g then TIMESLICE_OVER
        else if nanos (arrival_remaining (timer_info g)) < nanos (timeslice_remaining (timer_info g))
        then PROCESS_ARRIVAL else TIMESLICE_OVER) \<Longrightarrow> h = g\<lparr>event_type := r, timer_info := ti\<rparr> \<Longrightarrow>
      handle_timer os g = bindR (if r = TIMESLICE_OVER then bindR (timeslice_over h) update_timeslice_remaining
        else handle_arrival os h) (set_timer os)"
    "\<And>r. rr_base os (g\<lparr>event_type := r, timer_info := ti\<rparr>)"
    "time_unit ti = time_unit (timer_info g)"
    "\<not> arrival_queue_empty g \<Longrightarrow> nanos (arrival_remaining ti) =
       (if nanos (arrival_remaining (timer_info g)) < nanos (timeslice_remaining (timer_info g)) then 0
        else nanos (arrival_remaining (timer_info g)) - nanos (timeslice_remaining (timer_info g)))"
    "\<not> arrival_queue_empty g \<Longrightarrow> nanos (timeslice_remaining ti) =
       (if nanos (arrival_remaining (timer_info g)) < nanos (timeslice_remaining (timer_info g))
        then nanos (timeslice_remaining (timer_info g)) - nanos (arrival_remaining (timer_info g)) else 0)"
proof (rule subtract_timer_cases [OF rr_baseD(4,2) [OF base]], goal_cases)
  case (1 ti)
  have base': "rr_base os (g\<lparr>event_type := r, timer_info := ti\<rparr>)" for r
    using base rr_base_timer [of os "g\<lparr>event_type := r\<rparr>"] 1(3) by (simp only: rr_base_upd timer_inv_event)
  show ?thesis
    using get_expire_reason_RR [OF rr_baseD(4,2) [OF base]] subtract_time_passed_event [OF 1(2)] 1(4-6)
    by (intro that [of ti] base') (auto simp: handle_timer_def)
qed

lemma rr_handle_timer:
  assumes base: "rr_base os g" and q: "quiet os g"
  obtains g' where "handle_timer os g = Inr g'" "rr_base os g'" "rr_ready os (rr_of g') (world_of g')"
    "alrm_pending g' = alrm_pending g" "chld_pending g' = chld_pending g"
    "zombies (world_of g') = zombies (world_of g)" "rr_after_timer g g'"
proof (rule rr_alarm_start [OF base q], goal_cases)
  case (1 ti)
  let ?r = "if arrival_queue_empty g then TIMESLICE_OVER
    else if nanos (arrival_remaining (timer_info g)) < nanos (timeslice_remaining (timer_info g))
    then PROCESS_ARRIVAL else TIMESLICE_OVER"
  let ?h = "g\<lparr>event_type := ?r, timer_info := ti\<rparr>"
  note eq = 1(2) [OF refl refl]
  have h: "rr_base os ?h" "quiet os ?h" using 1(3) q by simp_all
  note conclude = that
  have fin: thesis if k: "rr_base os k" "rr_ready os (rr_of k) (world_of k)"
      "alrm_pending k = alrm_pending g" "chld_pending k = chld_pending g"
      "zombies (world_of k) = zombies (world_of g)" "rr_after_timer g k"
      "handle_timer os g = set_timer os k" for k
  proof -
    obtain v where "set_timer os k = Inr (k\<lparr>it_value := v\<rparr>)"
      using set_timer_ok [OF rr_baseD(4) [OF k(1)], of os] rr_baseD(1) [OF base] by (auto simp: os_ok_def)
    with k show thesis using conclude [of "k\<lparr>it_value := v\<rparr>"] by (simp add: rr_after_timer_def)
  qed
  show ?thesis
  proof (cases "?r = TIMESLICE_OVER")
    case True
    obtain s' where s': "timeslice_over ?h = Inr (?h\<lparr>rr_of := s'\<rparr>)" "rr_base os (?h\<lparr>rr_of := s'\<rparr>)"
      "rr_ready os s' (world_of ?h)" "rr_queue s' = rotate1 (queue_of ?h)"
      using rr_timeslice_over [OF h] .
    obtain ti' where ti': "update_timeslice_remaining (?h\<lparr>rr_of := s'\<rparr>) =
        Inr (?h\<lparr>rr_of := s', timer_info := ti'\<rparr>)" "timer_inv (?h\<lparr>rr_of := s', timer_info := ti'\<rparr>)"
      using update_timeslice_remaining_ok [OF rr_baseD(4) [OF s'(2)] rr_baseD(2) [OF s'(2)]] by blast
    show ?thesis
      using rr_base_timer [OF s'(2) ti'(2)] s' ti'(1) eq True
      by (intro fin [of "?h\<lparr>rr_of := s', timer_info := ti'\<rparr>"]) (simp_all add: rr_after_timer_def)
  next
    case False
    then have "\<not> arrival_queue_empty ?h" by (auto simp: arrival_queue_empty_def)
    then obtain k where k: "handle_arrival os ?h = Inr k" "rr_base os k" "quiet os k"
      "alrm_pending k = alrm_pending ?h" "chld_pending k = chld_pending ?h"
      "zombies (world_of k) = zombies (world_of ?h)" "arrival_ptr ?h < arrival_ptr k"
      "queue_of k = queue_of ?h @ [arrival_ptr ?h..<arrival_ptr k]"
      using rr_handle_arrival [OF h] by blast
    with False eq show ?thesis
      by (intro fin [of k]) (simp_all add: rr_quiet_ready rr_after_timer_def)
  qed
qed

lemma rr_remove:
  assumes base: "rr_base os g" and q: "quiet os g" and ne: "queue_of g \<noteq> []"
    and dead: "prio_of (world_of g) (hd (queue_of g)) = None" and z: "zombies (world_of g) = [z]"
  obtains h where "bindR (wait_null g) remove_current_process = Inr h" "rr_base os h" "quiet os h"
    "queue_of h = tl (queue_of g)" "zombies (world_of h) = []" "alrm_pending h = alrm_pending g"
    "chld_pending h = chld_pending g" "arrival_ptr h = arrival_ptr g"
proof -
  note b = rr_baseD [OF base]
  let ?v = "(world_of g)\<lparr>zombies := []\<rparr>"
  have v: "prio_of ?v = prio_of (world_of g)" "pids_ok ?v = pids_ok (world_of g)"
    by (auto simp: prio_of_def pids_ok_def fun_eq_iff)
  obtain s' where s': "remove_current_process_RR (rr_of g) = Inr s'" "rr_ok os s' (world_of g)"
    "rr_queue s' = tl (queue_of g)" "length (rr_pq s') = length (rr_pq (rr_of g))"
    using rr_remove_ok [OF b(5) ne] .
  let ?g = "g\<lparr>world_of := ?v, rr_of := s'\<rparr>"
  have sub: "set (tl (queue_of g)) \<subseteq> set (queue_of g)" by (cases "queue_of g") auto
  have nq: "i \<notin> set (tl (queue_of g)) \<Longrightarrow> i < length (procs (world_of g)) \<Longrightarrow> prio_of (world_of g) i = None" for i
    using b(8) [of i] dead ne by (cases "queue_of g") auto
  have "rr_base os ?g"
    using b s' sub nq v
    by (auto simp: rr_base_def table_inv_def timer_inv_def rr_ok_def Let_def)
  moreover have "quiet os ?g"
    using q s'(3) v(1) ne
    by (cases "tl (queue_of g)"; cases "queue_of g") (auto simp: rr_quiet_def)
  moreover have "bindR (wait_null g) remove_current_process = Inr ?g"
    using s'(1) b(2) z by (simp add: remove_current_process_def wait_null_reaps)
  ultimately show ?thesis using that [of ?g] s'(3) by simp
qed

lemma rr_context_switch:
  assumes base: "rr_base os g" and r: "rr_ready os (rr_of g) (world_of g)"
  obtains g' where "context_switch os g = Inr g'" "rr_base os g'" "settled os g'"
    "rr_of g' = rr_of g" "arrival_ptr g' = arrival_ptr g"
    "alrm_pending g' = alrm_pending g" "chld_pending g' = chld_pending g"
    "zombies (world_of g') = zombies (world_of g)" "num_process g' = num_process g"
proof -
  note b = rr_baseD [OF base]
  let ?w = "world_of g"
  obtain f where f: "context_switch_RR os (rr_of g) ?w = Inr (?w\<lparr>prio := f\<rparr>)"
    "rr_ok os (rr_of g) (?w\<lparr>prio := f\<rparr>)" "rr_settled os (rr_of g) (?w\<lparr>prio := f\<rparr>)"
    "\<And>p. p \<notin> (\<lambda>i. pid (procs ?w ! i)) ` set (queue_of g) \<Longrightarrow> f p = prio ?w p"
    using rr_switch_ok [OF b(5) r] by blast
  have "prio_of (?w\<lparr>prio := f\<rparr>) i = None" if i: "i < length (procs ?w)" "i \<notin> set (queue_of g)" for i
  proof -
    have "pid (procs ?w ! i) \<notin> (\<lambda>i. pid (procs ?w ! i)) ` set (queue_of g)"
    proof
      assume "pid (procs ?w ! i) \<in> (\<lambda>i. pid (procs ?w ! i)) ` set (queue_of g)"
      then obtain j where j: "j \<in> set (queue_of g)" "pid (procs ?w ! i) = pid (procs ?w ! j)" by auto
      with table_pid_unique [OF b(1,3) _ i(1) j(2)] b(7) i(2) show False by auto
    qed
    then show ?thesis using f(4) b(8) [OF i] by (simp add: prio_of_def)
  qed
  then have "rr_base os (g\<lparr>world_of := ?w\<lparr>prio := f\<rparr>\<rparr>)"
    using b f(2) by (auto simp: rr_base_def table_inv_def timer_inv_def Let_def)
  then show ?thesis
    using f b(2) by (intro that [of "g\<lparr>world_of := ?w\<lparr>prio := f\<rparr>\<rparr>"]) (simp_all add: context_switch_def)
qed


section \<open>One turn of the event loop\<close>

lemma rr_scheduler_empty: "rr_base os g \<Longrightarrow> scheduler_empty g \<longleftrightarrow> queue_of g = []"
  using rr_baseD(2,5) [of os g] scheduler_empty_RR_iff [of "rr_of g"]
  by (auto simp: scheduler_empty_def rr_ok_def)

text \<open>
  The end of a turn: the loop is left when every process has arrived and the run queue is empty;
  otherwise the front of the queue gets the running priority.
\<close>

lemma rr_turn_end:
  assumes base: "rr_base os g" and r: "rr_ready os (rr_of g) (world_of g)"
  obtains b g' where
    "(if arrival_queue_empty g \<and> scheduler_empty g then Inr (True, g)
      else bindR (context_switch os g) (\<lambda>g''. Inr (False, g''))) = Inr (b, g')"
    "rr_base os g'" "settled os g'" "rr_of g' = rr_of g" "arrival_ptr g' = arrival_ptr g"
    "alrm_pending g' = alrm_pending g" "chld_pending g' = chld_pending g"
    "zombies (world_of g') = zombies (world_of g)"
    "b \<longleftrightarrow> arrival_queue_empty g' \<and> queue_of g' = []"
proof -
  obtain g' where g': "context_switch os g = Inr g'" "rr_base os g'" "settled os g'"
    "rr_of g' = rr_of g" "arrival_ptr g' = arrival_ptr g"
    "alrm_pending g' = alrm_pending g" "chld_pending g' = chld_pending g"
    "zombies (world_of g') = zombies (world_of g)" "num_process g' = num_process g"
    using rr_context_switch [OF assms] .
  have e: "arrival_queue_empty g' = arrival_queue_empty g"
    using g'(5,9) by (simp add: arrival_queue_empty_def)
  show ?thesis
  proof (cases "arrival_queue_empty g \<and> scheduler_empty g")
    case True
    then have "settled os g"
      using rr_scheduler_empty [OF base] by (simp add: rr_settled_def rr_quiet_def)
    with True show ?thesis using that [of True g] base rr_scheduler_empty [OF base] by simp
  next
    case False
    with g' e show ?thesis using that [of False g'] rr_scheduler_empty [OF base] by auto
  qed
qed

lemma rr_timer_turn:
  assumes "rr_base os g" "quiet os g" "event_type g = TIMER_EXPIRED"
  obtains b g' where "handle_event os g = Inr (b, g')" "rr_base os g'" "settled os g'"
    "alrm_pending g' = alrm_pending g" "chld_pending g' = chld_pending g"
    "zombies (world_of g') = zombies (world_of g)" "rr_after_timer g g'"
    "b \<longleftrightarrow> arrival_queue_empty g' \<and> queue_of g' = []"
proof -
  obtain h where h: "handle_timer os g = Inr h" "rr_base os h" "rr_ready os (rr_of h) (world_of h)"
    "alrm_pending h = alrm_pending g" "chld_pending h = chld_pending g"
    "zombies (world_of h) = zombies (world_of g)" "rr_after_timer g h"
    using rr_handle_timer [OF assms(1,2)] .
  obtain b g' where g':
    "(if arrival_queue_empty h \<and> scheduler_empty h then Inr (True, h)
      else bindR (context_switch os h) (\<lambda>g''. Inr (False, g''))) = Inr (b, g')"
    "rr_base os g'" "settled os g'" "rr_of g' = rr_of h" "arrival_ptr g' = arrival_ptr h"
    "alrm_pending g' = alrm_pending h" "chld_pending g' = chld_pending h"
    "zombies (world_of g') = zombies (world_of h)"
    "b \<longleftrightarrow> arrival_queue_empty g' \<and> queue_of g' = []"
    using rr_turn_end [OF h(2,3)] .
  have "handle_event os g = Inr (b, g')"
    using h(1) g'(1) assms(3) by (simp add: handle_event_def)
  then show ?thesis using that [of b g'] g' h by (simp add: rr_after_timer_def)
qed

lemma rr_exit_turn:
  assumes "rr_base os g" "quiet os g" "queue_of g \<noteq> []"
    "prio_of (world_of g) (hd (queue_of g)) = None" "zombies (world_of g) = [z]"
    "event_type g = CHILD_TERMINATED"
  obtains b g' where "handle_event os g = Inr (b, g')" "rr_base os g'" "settled os g'"
    "alrm_pending g' = alrm_pending g" "chld_pending g' = chld_pending g"
    "zombies (world_of g') = []" "queue_of g' = tl (queue_of g)"
    "arrival_ptr g' = arrival_ptr g" "b \<longleftrightarrow> arrival_queue_empty g' \<and> queue_of g' = []"
proof -
  obtain k where k: "bindR (wait_null g) remove_current_process = Inr k" "rr_base os k" "quiet os k"
    "queue_of k = tl (queue_of g)" "zombies (world_of k) = []" "alrm_pending k = alrm_pending g"
    "chld_pending k = chld_pending g" "arrival_ptr k = arrival_ptr g"
    using rr_remove [OF assms(1-5)] .
  obtain b g' where g':
    "(if arrival_queue_empty k \<and> scheduler_empty k then Inr (True, k)
      else bindR (context_switch os k) (\<lambda>g''. Inr (False, g''))) = Inr (b, g')"
    "rr_base os g'" "settled os g'" "rr_of g' = rr_of k" "arrival_ptr g' = arrival_ptr k"
    "alrm_pending g' = alrm_pending k" "chld_pending g' = chld_pending k"
    "zombies (world_of g') = zombies (world_of k)"
    "b \<longleftrightarrow> arrival_queue_empty g' \<and> queue_of g' = []"
    using rr_turn_end [OF k(2) rr_quiet_ready [OF k(3)]] .
  have "handle_event os g = Inr (b, g')"
    using k(1) g'(1) assms(6) by (simp add: handle_event_def)
  then show ?thesis using that [of b g'] g' k by simp
qed

section \<open>Reachable states\<close>

text \<open>
  Between two turns either the front of the queue is the only child with the running priority and
  there is no terminated child, or the front has just terminated and its signal is pending.
\<close>

definition rr_sys_inv :: "os \<Rightarrow> globals \<Rightarrow> bool" where
  "rr_sys_inv os g \<longleftrightarrow> rr_base os g \<and> quiet os g \<and>
     (if chld_pending g
      then \<not> alrm_pending g \<and> queue_of g \<noteq> [] \<and> prio_of (world_of g) (hd (queue_of g)) = None \<and>
           zombies (world_of g) = [pid (procs (world_of g) ! hd (queue_of g))]
      else settled os g \<and> zombies (world_of g) = [])"


text \<open>Only the front of the queue can be running.\<close>

lemma rr_runs_hd:
  assumes inv: "rr_sys_inv os g" and np: "\<not> chld_pending g" and r: "runs (world_of g) i"
  shows "queue_of g \<noteq> [] \<and> i = hd (queue_of g)"
proof -
  let ?w = "world_of g" let ?q = "queue_of g"
  have base: "rr_base os g" and st: "settled os g" using inv np by (simp_all add: rr_sys_inv_def)
  note b = rr_baseD [OF base]
  obtain m where m: "i < length (procs ?w)" "prio_of ?w i = Some m"
    "\<And>j m'. j < length (procs ?w) \<Longrightarrow> prio_of ?w j = Some m' \<Longrightarrow> m' \<le> m"
    using r by (auto simp: runs_def)
  have i: "i \<in> set ?q" using b(8) [OF m(1)] m(2) by auto
  then have ne: "?q \<noteq> []" by auto
  have "hd ?q < length (procs ?w)" using b(5) ne by (simp add: rr_ok_def pids_ok_def)
  then have "run_prio os \<le> m" using m(3) st ne by (auto simp: rr_settled_def)
  moreover have "low_prio os < run_prio os" using b(1) by (simp add: os_ok_def sched_ok_def)
  ultimately have "i \<notin> set (tl ?q)" using st m(2) by (auto simp: rr_settled_def rr_quiet_def)
  with i ne show ?thesis by (cases ?q) auto
qed

lemma rr_child_terminates:
  assumes inv: "rr_sys_inv os g" and np: "pending g = {}" and r: "runs (world_of g) i"
  shows "rr_sys_inv os (g\<lparr>chld_pending := True, world_of := child_exits i (world_of g)\<rparr>)"
proof -
  let ?w = "world_of g" let ?q = "queue_of g"
  have hd: "?q \<noteq> []" "i = hd ?q" using rr_runs_hd [OF inv _ r] np by simp_all
  have base: "rr_base os g" and st: "settled os g" "zombies ?w = []"
    using inv np by (simp_all add: rr_sys_inv_def)
  note b = rr_baseD [OF base]
  have "rr_base os (g\<lparr>chld_pending := True, world_of := child_exits i ?w\<rparr>)"
    using base by (auto simp: rr_base_def table_inv_def timer_inv_def rr_ok_def)
  moreover have "pid (procs ?w ! j) \<noteq> pid (procs ?w ! i)" if "j \<in> set (tl ?q)" for j
    using b(5) hd that pids_ok_Cons_neq [of ?w i "tl ?q" j] by (cases ?q) (auto simp: rr_ok_def)
  ultimately show ?thesis
    using np hd st by (auto simp: rr_sys_inv_def rr_settled_def rr_quiet_def)
qed

lemma rr_timer_fires:
  "rr_sys_inv os g \<Longrightarrow> pending g = {} \<Longrightarrow> rr_sys_inv os (g\<lparr>alrm_pending := True, it_value := v\<rparr>)"
  by (simp add: rr_sys_inv_def)

text \<open>A turn of the loop never fails.\<close>

lemma rr_turn:
  assumes inv: "rr_sys_inv os g" and p: "pending g = {sig}"
  obtains b g' where "loop_iteration os [sig] g = Inr (b, g')" "rr_sys_inv os g'" "pending g' = {}"
    "b \<longleftrightarrow> arrival_queue_empty g' \<and> queue_of g' = []"
    "if sig = SIGALRM then rr_after_timer g g'
     else queue_of g \<noteq> [] \<and> queue_of g' = tl (queue_of g) \<and> arrival_ptr g' = arrival_ptr g"
proof -
  have base: "rr_base os g" and q: "quiet os g" using inv by (simp_all add: rr_sys_inv_def)
  let ?h = "sigsuspend [sig] g"
  show ?thesis
  proof (cases "sig = SIGALRM")
    case True
    have h: "rr_base os ?h" "quiet os ?h" "event_type ?h = TIMER_EXPIRED"
      using base q True by (simp_all add: sigsuspend_def signal_handler_def)
    have z: "zombies (world_of ?h) = []" "\<not> alrm_pending ?h" "\<not> chld_pending ?h"
      "rr_after_timer ?h = rr_after_timer g"
      using inv p True by (auto simp: rr_sys_inv_def sigsuspend_def signal_handler_def rr_after_timer_def fun_eq_iff)
    show ?thesis
      using rr_timer_turn [OF h] z True that
      by (simp add: loop_iteration_def rr_sys_inv_def rr_settled_def) metis
  next
    case False
    then have s: "sig = SIGCHLD" "chld_pending g" using p by (cases sig; simp)+
    have h: "rr_base os ?h" "quiet os ?h" "queue_of ?h \<noteq> []"
      "prio_of (world_of ?h) (hd (queue_of ?h)) = None"
      "zombies (world_of ?h) = [pid (procs (world_of g) ! hd (queue_of g))]" "event_type ?h = CHILD_TERMINATED"
      using inv s by (simp_all add: sigsuspend_def signal_handler_def rr_sys_inv_def)
    have z: "\<not> alrm_pending ?h" "\<not> chld_pending ?h"
      "queue_of ?h = queue_of g" "arrival_ptr ?h = arrival_ptr g"
      using inv s by (simp_all add: rr_sys_inv_def sigsuspend_def signal_handler_def)
    show ?thesis
      using rr_exit_turn [OF h] z s that h(3)
      by (simp add: loop_iteration_def rr_sys_inv_def rr_settled_def) metis
  qed
qed

lemma rr_step_inv: "step os g g' \<Longrightarrow> rr_sys_inv os g \<Longrightarrow> rr_sys_inv os g'"
proof (induction rule: step.induct)
  case (timer_fires g)
  then show ?case using rr_timer_fires by simp
next
  case (child_terminates g i)
  then show ?case using rr_child_terminates by blast
next
  case (wakes_up g sig g')
  then show ?case by (metis rr_turn Inr_inject prod.inject)
qed

lemma rr_reachable_inv: "reachable os g0 g \<Longrightarrow> rr_sys_inv os g0 \<Longrightarrow> rr_sys_inv os g"
  by (induction rule: reachable.induct) (auto intro: rr_step_inv)


text \<open>The initialisation on a well-formed input succeeds and establishes the invariant.\<close>

lemma rr_init:
  assumes os: "os_ok os" "0 < getpid os" and ps: "wf_table ps" and t: "clock_ok t0 t1"
  obtains g where "main_init os (show_input RR ps) t0 t1 junk = Inr g" "rr_sys_inv os g"
    "queue_of g = []" "arrival_ptr g = 0" "pending g = (if arrival_time (hd ps) = 0 then {SIGALRM} else {})"
    "map name (procs (world_of g)) = map name ps" "arrival_times g = map arrival_time ps"
    "nanos (time_unit (timer_info g)) = (nanos t1 - nanos t0) div UNIT_MEASURE_REPEAT"
    "nanos (arrival_remaining (timer_info g)) = nanos (time_unit (timer_info g)) * arrival_time (hd ps)"
    "nanos (timeslice_remaining (timer_info g)) = nanos (time_unit (timer_info g)) * RR_TIMES_OF_UNIT"
    "set_timer os g = Inr g"
proof -
  have so: "sched_ok os" "timer_ok os" using os(1) by (simp_all add: os_ok_def)
  obtain u where u: "main_init os (show_input RR ps) t0 t1 junk =
      create_timer_and_init_timespec os (loaded os RR ps u junk)" "unit_ok u"
    "nanos u = (nanos t1 - nanos t0) div UNIT_MEASURE_REPEAT"
    using main_init_show [OF so(1) os(2) ps t] by blast
  let ?g = "loaded os RR ps u junk"
  note tab = table_inv_loaded [OF ps, of os RR u junk]
  obtain n where n: "timeunits_until_next_arrival ?g = Inr n" "0 \<le> n" "in_int n"
    using timeunits_ok [OF tab] .
  have hd: "n = arrival_time (hd ps)"
    using n(1) ps by (simp add: timeunits_until_next_arrival_def world_init_def wf_table_def
        arrival_queue_empty_def hd_conv_nth)
  obtain ti v where g: "create_timer_and_init_timespec os ?g =
      Inr (?g\<lparr>timer_info := ti, it_value := v, alrm_pending := (n = 0 \<or> alrm_pending ?g)\<rparr>)"
    "timer_inv (?g\<lparr>timer_info := ti\<rparr>)" "time_unit ti = u" "nanos (arrival_remaining ti) = nanos u * n"
    "nanos (timeslice_remaining ti) = nanos u * RR_TIMES_OF_UNIT"
    "timer_value (?g\<lparr>timer_info := ti\<rparr>) = Inr v" "duration v"
    using create_timer_ok [OF so(2) loaded_simps(1) _ n] u(2) loaded_simps(4) by metis
  let ?h = "?g\<lparr>timer_info := ti, it_value := v, alrm_pending := (n = 0)\<rparr>"
  have "rr_inv (rr_of ?g)" using ps by (simp add: wf_table_def rr_inv_init)
  then have r: "rr_inv (rr_of ?g)" "rr_queue (rr_of ?g) = []" "length (rr_pq (rr_of ?g)) = length ps"
    by (simp_all add: rr_queue_def rr_jobs_def ptr_indices_def set_strategy_RR_def RR_static_def)
  have "rr_base os ?h"
    using os tab(1) g(2) r ps
    by (auto simp: rr_base_def table_inv_def timer_inv_def rr_ok_def pids_ok_def so(1) prio_of_def
        world_init_def wf_table_def wf_entry_def list_all_iff)
  then have "rr_sys_inv os ?h"
    using r(2) by (simp add: rr_sys_inv_def rr_settled_def rr_quiet_def world_init_def)
  moreover have "set_timer os ?h = Inr ?h"
    using g(6,7) so(2)
    by (simp add: set_timer_def timer_ok_def timer_value_def arrival_queue_empty_def Let_def cong: if_cong)
  ultimately show ?thesis
    using that [of ?h] u(1,3) g r(2) hd by (simp add: pending_def world_init_def)
qed


lemma rr_initD:
  assumes "os_ok os" "0 < getpid os" "wf_table ps" "clock_ok t0 t1"
    "main_init os (show_input RR ps) t0 t1 junk = Inr g0"
  shows "rr_sys_inv os g0" "queue_of g0 = []" "arrival_ptr g0 = 0"
    "map name (procs (world_of g0)) = map name ps" "length (procs (world_of g0)) = length ps"
proof -
  obtain g where "g0 = g" "rr_sys_inv os g" "queue_of g = []" "arrival_ptr g = 0"
    "map name (procs (world_of g)) = map name ps"
    using rr_init [OF assms(1-4), of junk] assms(5) by (metis Inr_inject)
  then show "rr_sys_inv os g0" "queue_of g0 = []" "arrival_ptr g0 = 0"
    "map name (procs (world_of g0)) = map name ps" "length (procs (world_of g0)) = length ps"
    by (auto dest: map_eq_imp_length_eq)
qed

lemma rr_reachable_turn:
  assumes "rr_sys_inv os g0" "reachable os g0 g" "pending g = {sig}"
  shows "\<exists>b g'. loop_iteration os [sig] g = Inr (b, g') \<and> rr_sys_inv os g' \<and>
     (b \<longleftrightarrow> arrival_queue_empty g' \<and> queue_of g' = [])"
  by (rule rr_turn [OF rr_reachable_inv [OF assms(2,1)] assms(3)]) blast

lemma rr_sys_inv_arrived: "rr_sys_inv os g \<Longrightarrow> arrival_ptr g \<le> length (procs (world_of g))"
  by (simp add: rr_sys_inv_def rr_base_def table_inv_def Let_def)

section \<open>The end of the program\<close>

lemma rr_finished_output:
  assumes "rr_sys_inv os g" "arrival_queue_empty g" "queue_of g = []"
  shows "main_output g = zip (map name (procs (world_of g))) (map (fork os) [0..<length (procs (world_of g))])"
    "\<forall>i < length (procs (world_of g)). prio_of (world_of g) i = None" "zombies (world_of g) = []"
proof -
  let ?ps = "procs (world_of g)"
  have base: "rr_base os g" using assms(1) by (simp add: rr_sys_inv_def)
  note b = rr_baseD [OF base]
  show "main_output g = zip (map name ?ps) (map (fork os) [0..<length ?ps])"
    using table_output [OF b(3) assms(2)] .
  show "\<forall>i < length ?ps. prio_of (world_of g) i = None" using b(8) assms(3) by simp
  show "zombies (world_of g) = []" using assms(1,3) by (simp add: rr_sys_inv_def split: if_splits)
qed


section \<open>Two signals at once\<close>

text \<open>
  If the running child terminates while an alarm is pending, the handlers overwrite each other's
  event. When the alarm comes last, the termination is lost: the dead job stays in the run queue and
  its zombie is not reaped.
\<close>

lemma rr_lost_termination:
  assumes "rr_base os g" "quiet os g"
  obtains b g' where "loop_iteration os [SIGCHLD, SIGALRM] g = Inr (b, g')" "rr_base os g'"
    "set (queue_of g) \<subseteq> set (queue_of g')" "zombies (world_of g') = zombies (world_of g)" "pending g' = {}"
proof -
  let ?h = "sigsuspend [SIGCHLD, SIGALRM] g"
  have h: "rr_base os ?h" "quiet os ?h" "event_type ?h = TIMER_EXPIRED" "queue_of ?h = queue_of g"
    "zombies (world_of ?h) = zombies (world_of g)"
    using assms by (simp_all add: sigsuspend_def signal_handler_def)
  obtain b g' where g': "handle_event os ?h = Inr (b, g')" "rr_base os g'"
    "zombies (world_of g') = zombies (world_of ?h)" "rr_after_timer ?h g'"
    "alrm_pending g' = alrm_pending ?h" "chld_pending g' = chld_pending ?h"
    using rr_timer_turn [OF h(1-3)] by metis
  have "pending g' = {}" using g'(5,6) by (simp add: sigsuspend_def signal_handler_def)
  moreover have "set (queue_of g) \<subseteq> set (queue_of g')" using g'(4) h(4) by (auto simp: rr_after_timer_def)
  ultimately show ?thesis using that g' h(5) by (simp add: loop_iteration_def)
qed

end
