(* ===== verification/RR_Progress.thy ===== *)
theory RR_Progress
  imports RR_System
begin

text \<open>
  When the round-robin program can go on. The two remaining times of the timer are tied to the
  number of time units that have passed: slices end at the multiples of 500, arrivals are due at the
  times of the input, and the timer is disarmed exactly when the two coincide. Hence a table without
  such a coincidence never leads to a deadlock.
\<close>

section \<open>What handling an alarm does to the timer\<close>

lemma set_timer_zero_iff:
  assumes "timer_inv g" "timer_ok os" "current_strategy g = RR" "0 < nanos (timeslice_remaining (timer_info g))"
  obtains v where "set_timer os g = Inr (g\<lparr>it_value := v\<rparr>)"
    "timspec_is_zero v \<longleftrightarrow> \<not> arrival_queue_empty g \<and> nanos (arrival_remaining (timer_info g)) = 0"
proof -
  obtain v where v: "set_timer os g = Inr (g\<lparr>it_value := v\<rparr>)" "timer_value g = Inr v" "duration v"
    using set_timer_ok [OF assms(1,2)] .
  have "0 \<le> nanos (arrival_remaining (timer_info g))"
    using assms(1) nanos_nonneg_iff by (simp add: timer_inv_def duration_def)
  then have "nanos v = 0 \<longleftrightarrow> \<not> arrival_queue_empty g \<and> nanos (arrival_remaining (timer_info g)) = 0"
    using v(2) assms(3,4) timer_value_RR [OF assms(1,3)]
    by (cases "arrival_queue_empty g") (auto simp: timer_value_def Let_def split: if_splits)
  with v show ?thesis using that timspec_is_zero_nanos by blast
qed

text \<open>The end of a slice renews it and leaves the time until the next arrival.\<close>

lemma rr_slice_effect:
  assumes h: "rr_base os h" "quiet os h" and u: "0 < nanos (time_unit (timer_info h))"
  obtains s ti v where
    "bindR (bindR (timeslice_over h) update_timeslice_remaining) (set_timer os) =
       Inr (h\<lparr>rr_of := s, timer_info := ti, it_value := v\<rparr>)"
    "arrival_remaining ti = arrival_remaining (timer_info h)" "time_unit ti = time_unit (timer_info h)"
    "nanos (timeslice_remaining ti) = nanos (time_unit (timer_info h)) * RR_TIMES_OF_UNIT"
    "timspec_is_zero v \<longleftrightarrow> \<not> arrival_queue_empty h \<and> nanos (arrival_remaining ti) = 0"
proof -
  obtain s where s: "timeslice_over h = Inr (h\<lparr>rr_of := s\<rparr>)" "rr_base os (h\<lparr>rr_of := s\<rparr>)"
    using rr_timeslice_over [OF h] by blast
  let ?k = "h\<lparr>rr_of := s\<rparr>"
  obtain ti where ti: "update_timeslice_remaining ?k = Inr (?k\<lparr>timer_info := ti\<rparr>)"
    "timer_inv (?k\<lparr>timer_info := ti\<rparr>)" "arrival_remaining ti = arrival_remaining (timer_info h)"
    "nanos (timeslice_remaining ti) = nanos (time_unit (timer_info h)) * RR_TIMES_OF_UNIT"
    "time_unit ti = time_unit (timer_info h)"
    using update_timeslice_remaining_ok [OF rr_baseD(4) [OF s(2)] rr_baseD(2) [OF s(2)]] by auto
  have pos: "0 < nanos (timeslice_remaining ti)" using ti(4) u by (simp add: RR_TIMES_OF_UNIT_def)
  have to: "timer_ok os" "current_strategy h = RR" using rr_baseD(1,2) [OF h(1)] by (simp_all add: os_ok_def)
  obtain v where "set_timer os (?k\<lparr>timer_info := ti\<rparr>) = Inr (?k\<lparr>timer_info := ti, it_value := v\<rparr>)"
    "timspec_is_zero v \<longleftrightarrow> \<not> arrival_queue_empty (?k\<lparr>timer_info := ti\<rparr>) \<and> nanos (arrival_remaining ti) = 0"
    using set_timer_zero_iff [OF ti(2) to(1)] to(2) pos by auto
  with that s(1) ti show ?thesis by (simp add: arrival_queue_empty_def)
qed

text \<open>
  Either a time slice ends, or processes arrive. In the first case the time until the next arrival
  has gone down by what was left of the slice, and may have become zero; in the second case what is
  left of the slice has gone down by the time until the arrival.
\<close>

lemma rr_timer_effect:
  assumes base: "rr_base os g" and q: "quiet os g" and u: "0 < nanos (time_unit (timer_info g))"
    and h: "handle_timer os g = Inr g'"
  obtains
    (slice) "arrival_queue_empty g \<or>
        nanos (timeslice_remaining (timer_info g)) \<le> nanos (arrival_remaining (timer_info g))"
      "arrival_ptr g' = arrival_ptr g" "num_process g' = num_process g"
      "time_unit (timer_info g') = time_unit (timer_info g)"
      "nanos (timeslice_remaining (timer_info g')) = nanos (time_unit (timer_info g)) * RR_TIMES_OF_UNIT"
      "\<not> arrival_queue_empty g \<Longrightarrow> nanos (arrival_remaining (timer_info g')) =
         nanos (arrival_remaining (timer_info g)) - nanos (timeslice_remaining (timer_info g))"
      "timspec_is_zero (it_value g') \<longleftrightarrow>
         \<not> arrival_queue_empty g \<and> nanos (arrival_remaining (timer_info g')) = 0"
  | (arrival) t where "\<not> arrival_queue_empty g"
      "nanos (arrival_remaining (timer_info g)) < nanos (timeslice_remaining (timer_info g))"
      "arrival_ptr g < arrival_ptr g'" "time_unit (timer_info g') = time_unit (timer_info g)"
      "nanos (timeslice_remaining (timer_info g')) =
         nanos (timeslice_remaining (timer_info g)) - nanos (arrival_remaining (timer_info g))"
      "arrival_queue_empty g' \<or> 0 < t \<and> timeunits_until_next_arrival g' = Inr t \<and>
         nanos (arrival_remaining (timer_info g')) = nanos (time_unit (timer_info g)) * t"
      "arrival_times g ! (arrival_ptr g' - 1) = arrival_times g ! arrival_ptr g"
      "\<not> timspec_is_zero (it_value g')"
proof (rule rr_alarm_start [OF base q], goal_cases)
  case (1 ti)
  let ?a = "nanos (arrival_remaining (timer_info g))" and ?s = "nanos (timeslice_remaining (timer_info g))"
  let ?r = "if arrival_queue_empty g then TIMESLICE_OVER else if ?a < ?s then PROCESS_ARRIVAL else TIMESLICE_OVER"
  let ?h = "g\<lparr>event_type := ?r, timer_info := ti\<rparr>"
  note eq = 1(3) [OF refl refl] and t = 1(5-7)
  have hb: "rr_base os ?h" "quiet os ?h" using 1(4) q by simp_all
  have to: "timer_ok os" using rr_baseD(1) [OF base] by (simp add: os_ok_def)
  have uh: "0 < nanos (time_unit (timer_info ?h))" using u t(1) by simp
  show ?thesis
  proof (cases "?r = TIMESLICE_OVER")
    case True
    obtain s t2 v where v: "bindR (bindR (timeslice_over ?h) update_timeslice_remaining) (set_timer os) =
        Inr (?h\<lparr>rr_of := s, timer_info := t2, it_value := v\<rparr>)"
      "arrival_remaining t2 = arrival_remaining (timer_info ?h)" "time_unit t2 = time_unit (timer_info ?h)"
      "nanos (timeslice_remaining t2) = nanos (time_unit (timer_info ?h)) * RR_TIMES_OF_UNIT"
      "timspec_is_zero v \<longleftrightarrow> \<not> arrival_queue_empty ?h \<and> nanos (arrival_remaining t2) = 0"
      using rr_slice_effect [OF hb uh] .
    have "g' = ?h\<lparr>rr_of := s, timer_info := t2, it_value := v\<rparr>" using h eq v(1) True by simp
    moreover have "arrival_queue_empty g \<or> ?s \<le> ?a" using True by (auto split: if_splits)
    ultimately show ?thesis
      using v(2-5) t(1,2) by (intro slice) (auto simp: arrival_queue_empty_def split: if_splits)
  next
    case False
    then have f: "\<not> arrival_queue_empty ?h" "\<not> arrival_queue_empty g" "?a < ?s"
      by (auto simp: arrival_queue_empty_def split: if_splits)
    obtain k where k: "handle_arrival os ?h = Inr k" "rr_base os k" "arrival_ptr g < arrival_ptr k"
      "timeslice_remaining (timer_info k) = timeslice_remaining ti"
      "arrival_queue_empty k \<or> (\<exists>t > 0. timeunits_until_next_arrival k = Inr t \<and>
        nanos (arrival_remaining (timer_info k)) = nanos (time_unit ti) * t)"
      "time_unit (timer_info k) = time_unit ti"
      by (rule rr_handle_arrival [OF hb f(1)]) simp
    have pos: "0 < nanos (timeslice_remaining (timer_info k))" using k(4) t(3) f by simp
    obtain v where v: "set_timer os k = Inr (k\<lparr>it_value := v\<rparr>)"
      "timspec_is_zero v \<longleftrightarrow> \<not> arrival_queue_empty k \<and> nanos (arrival_remaining (timer_info k)) = 0"
      using set_timer_zero_iff [OF rr_baseD(4) [OF k(2)] to rr_baseD(2) [OF k(2)] pos] .
    have g': "g' = k\<lparr>it_value := v\<rparr>" using h eq k(1) v(1) False by simp
    then have e: "timeunits_until_next_arrival g' = timeunits_until_next_arrival k"
      "arrival_queue_empty g' = arrival_queue_empty k"
      by (simp_all add: timeunits_until_next_arrival_def arrival_queue_empty_def cong: if_cong)
    obtain n where n: "arrival_queue_empty k \<or> 0 < n \<and> timeunits_until_next_arrival k = Inr n \<and>
        nanos (arrival_remaining (timer_info k)) = nanos (time_unit ti) * n" using k(5) by blast
    have "\<not> timspec_is_zero (it_value g')" using v(2) n t(1) u g' by auto
    moreover have "arrival_times g ! (arrival_ptr g' - 1) = arrival_times g ! arrival_ptr g"
      using handle_arrival_due [OF k(1)] g' by simp
    ultimately show ?thesis using k(3,4,6) n t f(2,3) e by (intro arrival [of n]) (simp_all add: g')
  qed
qed

text \<open>
  Handling a timer event arms the timer again, except when a process arrives at the very end of a
  time slice: then the handler sets the timer to zero, which disarms it.
\<close>

lemma rr_timer_armed:
  assumes "rr_base os g" "quiet os g" "0 < nanos (time_unit (timer_info g))" "handle_timer os g = Inr g'"
  shows "timspec_is_zero (it_value g') \<longleftrightarrow> \<not> arrival_queue_empty g \<and>
     nanos (arrival_remaining (timer_info g)) = nanos (timeslice_remaining (timer_info g))"
  using assms by (rule rr_timer_effect) auto

text \<open>
  With the timer disarmed, no child running and no signal pending nothing can happen any more.
\<close>

lemma rr_stuck:
  assumes "rr_sys_inv os g" "pending g = {}" "timspec_is_zero (it_value g)" "queue_of g = []"
  shows "\<not> step os g g'"
proof
  assume "step os g g'"
  then show False using assms rr_runs_hd [OF assms(1)] by cases auto
qed

section \<open>The timer and the clock\<close>

text \<open>
  \<open>T\<close> is the number of time units from the start to the last alarm that was handled. What is left of
  the slice counts to the next multiple of 500, the other remaining time to the next arrival.
\<close>

definition rr_clock :: "globals \<Rightarrow> int \<Rightarrow> bool" where
  "rr_clock g T \<longleftrightarrow> arrival_clock g T \<and> nanos (timeslice_remaining (timer_info g)) =
     nanos (time_unit (timer_info g)) * (RR_TIMES_OF_UNIT - T mod RR_TIMES_OF_UNIT)"

lemma rr_clockD:
  assumes "rr_clock g T"
  shows "0 < nanos (time_unit (timer_info g))" "0 \<le> T"
    "nanos (timeslice_remaining (timer_info g)) = nanos (time_unit (timer_info g)) * (500 - T mod 500)"
    "\<not> arrival_queue_empty g \<Longrightarrow> T \<le> arrival_times g ! arrival_ptr g"
    "\<not> arrival_queue_empty g \<Longrightarrow> nanos (arrival_remaining (timer_info g)) =
       nanos (time_unit (timer_info g)) * (arrival_times g ! arrival_ptr g - T)"
    "j < arrival_ptr g \<Longrightarrow> arrival_times g ! j \<le> T"
  using assms by (auto simp: rr_clock_def arrival_clock_def Let_def RR_TIMES_OF_UNIT_def)

text \<open>No process is due at the end of a time slice; one that is due at the start does not matter.\<close>

definition no_tie :: "int list \<Rightarrow> bool" where
  "no_tie ts \<longleftrightarrow> (\<forall>t \<in> set ts. t mod RR_TIMES_OF_UNIT = 0 \<longrightarrow> t = 0)"

lemma slice_arith:
  assumes "0 < u" "u * (500 - T mod 500) \<le> u * (a - T)"
  shows "T - T mod 500 + 500 \<le> (a::int)"
    "u * (a - T) - u * (500 - T mod 500) = u * (a - (T - T mod 500 + 500))"
proof -
  have "500 - T mod 500 \<le> a - T" using assms by (simp add: mult_le_cancel_left_pos)
  then show "T - T mod 500 + 500 \<le> a" by simp
qed (simp add: algebra_simps)

lemma next_slice: "(T - T mod 500 + 500) mod 500 = (0::int)" "T < T - T mod 500 + 500"
proof -
  have "T - T mod 500 + 500 = 500 * (T div 500 + 1)" using minus_mod_eq_mult_div [of T 500] by simp
  then show "(T - T mod 500 + 500) mod 500 = 0" by (simp only: mod_mult_self1_is_0)
  show "T < T - T mod 500 + 500" using pos_mod_bound [of 500 T] by simp
qed

lemma arrival_arith:
  assumes "0 < u" "T \<le> a" "u * (a - T) < u * (500 - T mod (500::int))"
  shows "u * (500 - T mod 500) - u * (a - T) = u * (500 - a mod 500)"
proof -
  have "a - T < 500 - T mod 500" using assms(1,3) by (simp add: mult_less_cancel_left_pos)
  then have "(T mod 500 + (a - T)) mod 500 = T mod 500 + (a - T)"
    using assms(2) by (intro mod_pos_pos_trivial) simp_all
  moreover have "(T mod 500 + (a - T)) mod 500 = a mod 500" by (simp add: mod_add_left_eq)
  ultimately have "a mod 500 = T mod 500 + (a - T)" by simp
  then show ?thesis by (simp add: right_diff_distrib distrib_left)
qed

text \<open>The end of a slice is not the time of an arrival.\<close>

lemma no_tie_slice:
  assumes base: "rr_base os g" and nt: "no_tie (arrival_times g)" and ne: "\<not> arrival_queue_empty g" and "0 \<le> T"
  shows "arrival_times g ! arrival_ptr g \<noteq> T - T mod 500 + 500"
proof
  let ?a = "arrival_times g ! arrival_ptr g"
  assume z: "?a = T - T mod 500 + 500"
  have "arrival_ptr g < length (procs (world_of g))"
    using table_inv_queue [OF rr_baseD(3) [OF base]] rr_baseD(3) [OF base] ne by (auto simp: table_inv_def Let_def)
  then have "?a \<in> set (arrival_times g)" by simp
  with nt have "?a mod 500 = 0 \<longrightarrow> ?a = 0" unfolding no_tie_def RR_TIMES_OF_UNIT_def by (rule bspec)
  moreover have "?a mod 500 = 0" "0 < ?a" using next_slice [of T] \<open>0 \<le> T\<close> by (simp_all only: z)
  ultimately show False by simp
qed

lemma rr_clock_timer:
  assumes base: "rr_base os g" and q: "quiet os g" and c: "rr_clock g T" and h: "handle_timer os g = Inr g'"
  obtains T' where "rr_clock g' T'" "arrival_ptr g' = arrival_ptr g \<and> T < T' \<or> arrival_ptr g < arrival_ptr g'"
    "no_tie (arrival_times g) \<Longrightarrow> \<not> timspec_is_zero (it_value g')"
    "time_unit (timer_info g') = time_unit (timer_info g)"
    "timer_value g = Inr v \<Longrightarrow> nanos (time_unit (timer_info g)) * T' = nanos (time_unit (timer_info g)) * T + nanos v"
    "\<not> timspec_is_zero (it_value g') \<Longrightarrow> \<not> arrival_queue_empty g' \<Longrightarrow> T' < arrival_times g' ! arrival_ptr g'"
    "if arrival_ptr g' = arrival_ptr g then T' mod 500 = 0
     else T' = arrival_times g ! arrival_ptr g \<and> \<not> arrival_queue_empty g \<and>
       arrival_times g ! arrival_ptr g - T < 500 - T mod 500 \<and>
       arrival_times g ! (arrival_ptr g' - 1) = arrival_times g ! arrival_ptr g"
proof -
  have at: "arrival_times g' = arrival_times g" using table_data_cong(3) [OF handle_timer_table [OF h]] .
  let ?u = "nanos (time_unit (timer_info g))" let ?a = "arrival_times g ! arrival_ptr g"
  note u = rr_clockD(1-3) [OF c] and a = rr_clockD(4,5) [OF c] and arrived = rr_clockD(6) [OF c]
  have v: "timer_value g = Inr v \<Longrightarrow> nanos v = (if arrival_queue_empty g then ?u * (500 - T mod 500)
      else min (?u * (?a - T)) (?u * (500 - T mod 500)))"
    using timer_value_RR [OF rr_baseD(4,2) [OF base]] rr_baseD(2) [OF base] a u
    by (auto simp: timer_value_def Let_def split: if_splits)
  show ?thesis
  proof (rule rr_timer_effect [OF base q u(1) h], goal_cases)
    case 1
    let ?T = "T - T mod 500 + 500"
    have e: "arrival_queue_empty g' = arrival_queue_empty g" using 1 by (simp add: arrival_queue_empty_def)
    have ar: "?T \<le> ?a" "nanos (arrival_remaining (timer_info g')) = ?u * (?a - ?T)" if "\<not> arrival_queue_empty g"
      using slice_arith [OF u(1), of T ?a] 1 u(3) a that by simp_all
    have "rr_clock g' ?T"
      using 1 ar u next_slice [of T] at e arrived by (force simp: rr_clock_def arrival_clock_def Let_def RR_TIMES_OF_UNIT_def)
    moreover have late: "?a \<noteq> ?T" if "no_tie (arrival_times g)" "\<not> arrival_queue_empty g"
      using no_tie_slice [OF base that u(2)] .
    moreover have "\<not> timspec_is_zero (it_value g')" if nt: "no_tie (arrival_times g)"
      using 1 ar u(1) late [OF nt] by auto
    moreover have "?u * ?T = ?u * T + nanos v" if "timer_value g = Inr v"
      using v [OF that] 1 u(3) a by (auto simp: min_def algebra_simps)
    moreover have "?T < arrival_times g' ! arrival_ptr g'" if "\<not> timspec_is_zero (it_value g')" "\<not> arrival_queue_empty g'"
      using that 1 ar e at by force
    ultimately show ?thesis using that [of ?T] 1 next_slice [of T] by simp
  next
    case (2 t)
    have tab: "table_inv os g'"
      using rr_handle_timer [OF base q] h rr_baseD(3) by (metis Inr_inject)
    have "arrival_clock g' ?a \<and> (\<not> arrival_queue_empty g' \<longrightarrow> ?a < arrival_times g' ! arrival_ptr g')"
      using arrival_clock_arrives [of g T, OF _ 2(1) tab at 2(3,4,7,6)] c by (simp add: rr_clock_def)
    moreover have "nanos (timeslice_remaining (timer_info g')) = ?u * (500 - ?a mod 500)"
      using 2 u arrival_arith [OF u(1) a(1)] a by simp
    moreover have "?u * ?a = ?u * T + nanos v" if "timer_value g = Inr v"
      using v [OF that] 2 u(3) a by (auto simp: min_def algebra_simps)
    moreover have "?a - T < 500 - T mod 500" using 2(1,2) u a by (simp add: mult_less_cancel_left_pos)
    ultimately show ?thesis using that [of ?a] 2 by (auto simp: rr_clock_def RR_TIMES_OF_UNIT_def)
  qed
qed

section \<open>States from which the program can go on\<close>

lemma rr_clock_cong:
  assumes "timer_info g' = timer_info g" "arrival_times g' = arrival_times g" "arrival_ptr g' = arrival_ptr g"
    "num_process g' = num_process g"
  shows "rr_clock g' T = rr_clock g T"
  using assms arrival_clock_cong [OF assms] by (simp add: rr_clock_def)

text \<open>
  The timer is armed or its alarm is pending, and there is something left to do.
\<close>

definition rr_live :: "os \<Rightarrow> globals \<Rightarrow> int \<Rightarrow> bool" where
  "rr_live os g T \<longleftrightarrow> rr_sys_inv os g \<and> rr_clock g T \<and> no_tie (arrival_times g) \<and>
     (alrm_pending g \<or> \<not> timspec_is_zero (it_value g)) \<and> \<not> (arrival_queue_empty g \<and> queue_of g = [])"

lemma rr_live_alarm:
  assumes live: "rr_live os g T" and p: "pending g = {SIGALRM}"
    and l: "loop_iteration os [SIGALRM] g = Inr (False, g')"
  obtains T' where "rr_live os g' T'" "pending g' = {}" "arrival_times g' = arrival_times g"
    "arrival_ptr g' = arrival_ptr g \<and> T < T' \<or> arrival_ptr g < arrival_ptr g'"
    "time_unit (timer_info g') = time_unit (timer_info g)"
    "timer_value g = Inr v \<Longrightarrow> nanos (time_unit (timer_info g)) * T' = nanos (time_unit (timer_info g)) * T + nanos v"
    "\<not> arrival_queue_empty g' \<Longrightarrow> T' < arrival_times g' ! arrival_ptr g'"
    "if arrival_ptr g' = arrival_ptr g then T' mod 500 = 0
     else T' = arrival_times g ! arrival_ptr g \<and> \<not> arrival_queue_empty g"
proof -
  have inv: "rr_sys_inv os g" and c: "rr_clock g T" and nt: "no_tie (arrival_times g)"
    using live by (simp_all add: rr_live_def)
  let ?h = "sigsuspend [SIGALRM] g"
  have h: "rr_base os ?h" "quiet os ?h" "rr_clock ?h T" "arrival_times ?h = arrival_times g"
    "arrival_ptr ?h = arrival_ptr g" "timer_info ?h = timer_info g" "timer_value ?h = timer_value g"
    "arrival_queue_empty ?h = arrival_queue_empty g"
    using inv c rr_clock_cong [of ?h g T] timer_value_cong [of ?h g]
    by (simp_all add: rr_sys_inv_def sigsuspend_def signal_handler_def arrival_queue_empty_def)
  obtain k where k: "handle_timer os ?h = Inr k" "context_switch os k = Inr g'"
    using l by (auto simp: loop_iteration_def handle_event_def sigsuspend_def signal_handler_def split: if_splits)
  obtain T' where T': "rr_clock k T'" "arrival_ptr k = arrival_ptr g \<and> T < T' \<or> arrival_ptr g < arrival_ptr k"
    "\<not> timspec_is_zero (it_value k)" "time_unit (timer_info k) = time_unit (timer_info g)"
    "timer_value g = Inr v \<Longrightarrow> nanos (time_unit (timer_info g)) * T' = nanos (time_unit (timer_info g)) * T + nanos v"
    "\<not> arrival_queue_empty k \<Longrightarrow> T' < arrival_times k ! arrival_ptr k"
    "if arrival_ptr k = arrival_ptr g then T' mod 500 = 0
     else T' = arrival_times g ! arrival_ptr g \<and> \<not> arrival_queue_empty g"
    by (rule rr_clock_timer [OF h(1-3) k(1), of v]) (use nt h(4-8) in \<open>simp cong: if_cong\<close>)
  note ct = context_switch_timer [OF k(2)]
  have at: "arrival_times g' = arrival_times k" "arrival_times k = arrival_times g"
    using table_data_cong(3) [OF context_switch_table [OF k(2)]] table_data_cong(3) [OF handle_timer_table [OF k(1)]]
    by simp_all
  have "rr_sys_inv os g'" "pending g' = {}" "\<not> (arrival_queue_empty g' \<and> queue_of g' = [])"
    using rr_turn [OF inv p] l by (metis Inr_inject prod.inject)+
  then have "rr_live os g' T'"
    using T' ct at nt rr_clock_cong [of g' k T'] by (simp add: rr_live_def)
  then show ?thesis using that T'(2,4-7) ct at \<open>pending g' = {}\<close> by (simp add: arrival_queue_empty_def)
qed

lemma rr_live_exit:
  assumes live: "rr_live os g T" and p: "pending g = {SIGCHLD}"
    and l: "loop_iteration os [SIGCHLD] g = Inr (False, g')"
  shows "rr_live os g' T \<and> pending g' = {} \<and> arrival_times g' = arrival_times g \<and>
     arrival_ptr g' = arrival_ptr g \<and> length (queue_of g') < length (queue_of g)"
proof -
  have inv: "rr_sys_inv os g" using live by (simp add: rr_live_def)
  let ?h = "sigsuspend [SIGCHLD] g"
  obtain k where k: "bindR (wait_null ?h) remove_current_process = Inr k" "context_switch os k = Inr g'"
    using l by (auto simp: loop_iteration_def handle_event_def sigsuspend_def signal_handler_def split: if_splits)
  have t: "timer_info g' = timer_info g" "it_value g' = it_value g" "num_process g' = num_process g"
    using context_switch_timer [OF k(2)] reap_frame [OF k(1)] by (simp_all add: sigsuspend_def signal_handler_def)
  have at: "arrival_times g' = arrival_times g" using table_data_cong(3) [OF loop_iteration_table [OF l]] .
  have g': "rr_sys_inv os g'" "pending g' = {}" "\<not> (arrival_queue_empty g' \<and> queue_of g' = [])"
    "queue_of g \<noteq> [] \<and> queue_of g' = tl (queue_of g) \<and> arrival_ptr g' = arrival_ptr g"
    using rr_turn [OF inv p] l by (metis Inr_inject prod.inject signal.distinct(1))+
  then show ?thesis
    using live p t at rr_clock_cong [OF t(1) at _ t(3), of T] by (auto simp: rr_live_def)
qed

lemma rr_live_fires:
  assumes "rr_live os g T" "pending g = {}"
  shows "rr_live os (g\<lparr>alrm_pending := True, it_value := ts_zero\<rparr>) T"
  using assms rr_timer_fires [of os g ts_zero] by (simp add: rr_live_def rr_clock_def arrival_queue_empty_def)

lemma rr_live_child:
  assumes "rr_live os g T" "pending g = {}" "runs (world_of g) i"
  shows "rr_live os (g\<lparr>chld_pending := True, world_of := child_exits i (world_of g)\<rparr>) T"
  using assms rr_child_terminates [of os g i] by (simp add: rr_live_def rr_clock_def arrival_queue_empty_def)

lemma rr_live_step: "step os g g' \<Longrightarrow> rr_live os g T \<Longrightarrow> \<exists>T'. rr_live os g' T'"
proof (induction rule: step.induct)
  case (timer_fires g)
  then show ?case using rr_live_fires by blast
next
  case (child_terminates g i)
  then show ?case using rr_live_child by blast
next
  case (wakes_up g sig g')
  show ?case
  proof (cases sig)
    case SIGALRM
    with wakes_up rr_live_alarm [of os g T g'] show ?thesis by metis
  next
    case SIGCHLD
    with wakes_up rr_live_exit [of os g T g'] show ?thesis by metis
  qed (use wakes_up in simp)
qed

lemma rr_live_reachable: "reachable os g0 g \<Longrightarrow> rr_live os g0 T \<Longrightarrow> \<exists>T'. rr_live os g T'"
  by (induction rule: reachable.induct) (auto dest: rr_live_step)

section \<open>The end can be reached\<close>

lemma rr_hd_runs:
  assumes inv: "rr_sys_inv os g" "\<not> chld_pending g" and ne: "queue_of g \<noteq> []"
  shows "runs (world_of g) (hd (queue_of g))"
proof -
  let ?w = "world_of g" let ?q = "queue_of g"
  have base: "rr_base os g" and st: "settled os g" using inv by (simp_all add: rr_sys_inv_def)
  note b = rr_baseD [OF base]
  have hd: "hd ?q < length (procs ?w)" "prio_of ?w (hd ?q) = Some (run_prio os)"
    using b(5) st ne by (simp_all add: rr_ok_def pids_ok_def rr_settled_def)
  have "m \<le> run_prio os" if j: "j < length (procs ?w)" "prio_of ?w j = Some m" for j m
  proof (cases "j = hd ?q")
    case False
    have "j \<in> set ?q" using b(8) [OF j(1)] j(2) by auto
    then have "j \<in> set (tl ?q)" using False ne by (cases ?q) auto
    then have "m = low_prio os" using st j(2) by (auto simp: rr_settled_def rr_quiet_def)
    then show ?thesis using b(1) by (simp add: os_ok_def sched_ok_def)
  qed (use hd j in simp)
  with hd show ?thesis by (auto simp: runs_def)
qed

text \<open>
  The work that is left: processes that have not arrived, time until the next arrival, jobs in the
  queue.
\<close>

definition rr_work :: "(globals \<times> int) rel" where
  "rr_work = measures [\<lambda>(g, T). length (arrival_times g) - arrival_ptr g,
     \<lambda>(g, T). nat (arrival_times g ! arrival_ptr g - T), \<lambda>(g, T). length (queue_of g)]"

lemma wf_rr_work: "wf rr_work"
  by (simp add: rr_work_def)

lemma rr_live_turn:
  assumes "rr_live os g T" "pending g = {sig}"
  obtains b g' where "loop_iteration os [sig] g = Inr (b, g')"
proof -
  have "rr_sys_inv os g" using assms(1) by (simp add: rr_live_def)
  from rr_turn [OF this assms(2)] that show ?thesis by blast
qed

lemma rr_live_ptr:
  assumes "rr_live os g T"
  shows "arrival_ptr g \<le> length (arrival_times g)"
    "\<not> arrival_queue_empty g \<Longrightarrow> T \<le> arrival_times g ! arrival_ptr g"
    "arrival_queue_empty g \<longleftrightarrow> arrival_ptr g = length (arrival_times g)"
  using assms rr_sys_inv_arrived table_inv_queue [OF rr_baseD(3), of os g]
  by (auto simp: rr_live_def rr_clockD rr_sys_inv_def)

lemma rr_work_alarm:
  assumes "rr_live os g T" "rr_live os g' T'" "\<not> arrival_queue_empty g" "arrival_times g' = arrival_times g"
    "arrival_ptr g' = arrival_ptr g \<and> T < T' \<or> arrival_ptr g < arrival_ptr g'"
  shows "((g', T'), g, T) \<in> rr_work"
  using assms(5)
proof
  assume eq: "arrival_ptr g' = arrival_ptr g \<and> T < T'"
  then have "\<not> arrival_queue_empty g'"
    using rr_live_ptr(3) [OF assms(2)] rr_live_ptr(3) [OF assms(1)] assms(3,4) by simp
  with eq show ?thesis
    using rr_live_ptr(2) [OF assms(2)] assms(4) map_eq_imp_length_eq [OF assms(4)] by (auto simp: rr_work_def)
next
  assume "arrival_ptr g < arrival_ptr g'"
  then show ?thesis
    using rr_live_ptr(1) [OF assms(2)] map_eq_imp_length_eq [OF assms(4)] by (auto simp: rr_work_def)
qed

lemma rr_quiet_finish: "rr_live os g T \<Longrightarrow> pending g = {} \<Longrightarrow> can_finish os g"
proof (induction "(g, T)" arbitrary: g T rule: wf_induct_rule [OF wf_rr_work])
  case (1 g T)
  note np = 1(3)
  show ?case
  proof (cases "arrival_queue_empty g")
    case False
    let ?h = "g\<lparr>alrm_pending := True, it_value := ts_zero\<rparr>"
    have s: "step os g ?h" using 1(2) np by (intro timer_fires) (simp_all add: rr_live_def)
    have h: "rr_live os ?h T" "pending ?h = {SIGALRM}" using rr_live_fires [OF 1(2) np] np by simp_all
    obtain b g' where l: "loop_iteration os [SIGALRM] ?h = Inr (b, g')" using rr_live_turn [OF h] .
    have "can_finish os g'" if nb: "\<not> b"
    proof -
      obtain T' where T': "rr_live os g' T'" "pending g' = {}" "arrival_times g' = arrival_times ?h"
        "arrival_ptr g' = arrival_ptr ?h \<and> T < T' \<or> arrival_ptr ?h < arrival_ptr g'"
        by (rule rr_live_alarm [OF h]) (use l nb in \<open>simp; fail\<close>, blast)
      have "((g', T'), g, T) \<in> rr_work" using rr_work_alarm [OF 1(2) T'(1) False] T'(3,4) by simp
      then show ?thesis using 1(1) T'(1,2) by blast
    qed
    then show ?thesis using can_finish_turn [OF h(2) l] can_finish_step [OF s] by blast
  next
    case True
    then have q: "queue_of g \<noteq> []" using 1(2) by (simp add: rr_live_def)
    let ?w = "child_exits (hd (queue_of g)) (world_of g)"
    let ?h = "g\<lparr>chld_pending := True, world_of := ?w\<rparr>"
    have r: "runs (world_of g) (hd (queue_of g))" using rr_hd_runs [of os g] 1(2) np q by (simp add: rr_live_def)
    have s: "step os g ?h" using np r by (intro child_terminates)
    have h: "rr_live os ?h T" "pending ?h = {SIGCHLD}" using rr_live_child [OF 1(2) np r] np by simp_all
    obtain b g' where l: "loop_iteration os [SIGCHLD] ?h = Inr (b, g')" using rr_live_turn [OF h] .
    have "can_finish os g'" if nb: "\<not> b"
    proof -
      have g': "rr_live os g' T" "pending g' = {}" "arrival_times g' = arrival_times ?h"
        "arrival_ptr g' = arrival_ptr ?h" "length (queue_of g') < length (queue_of ?h)"
        using rr_live_exit [OF h] l nb by simp_all
      then have "((g', T), g, T) \<in> rr_work"
        using map_eq_imp_length_eq [OF g'(3)] by (simp add: rr_work_def)
      then show ?thesis using 1(1) g'(1,2) by blast
    qed
    then show ?thesis using can_finish_turn [OF h(2) l] can_finish_step [OF s] by blast
  qed
qed

lemma rr_live_finish:
  assumes live: "rr_live os g T"
  shows "can_finish os g"
proof -
  have turn: "can_finish os g" if p: "pending g = {sig}"
    and more: "\<And>g'. loop_iteration os [sig] g = Inr (False, g') \<Longrightarrow> \<exists>T'. rr_live os g' T' \<and> pending g' = {}" for sig
  proof -
    obtain b g' where l: "loop_iteration os [sig] g = Inr (b, g')" using rr_live_turn [OF live p] .
    then show ?thesis using can_finish_turn [OF p l] more rr_quiet_finish by (cases b) auto
  qed
  have "\<not> (alrm_pending g \<and> chld_pending g)" using live by (auto simp: rr_live_def rr_sys_inv_def)
  then consider "pending g = {}" | "pending g = {SIGALRM}" | "pending g = {SIGCHLD}" by auto
  then show ?thesis
  proof cases
    case 1
    then show ?thesis using rr_quiet_finish live by blast
  next
    case 2
    then show ?thesis using turn [OF 2] rr_live_alarm [OF live 2] by metis
  next
    case 3
    then show ?thesis using turn [OF 3] rr_live_exit [OF live 3] by metis
  qed
qed

text \<open>The initial state.\<close>

lemma rr_init_clock:
  assumes "os_ok os" "0 < getpid os" "wf_table ps" "clock_ok t0 t1" "UNIT_MEASURE_REPEAT \<le> nanos t1 - nanos t0"
    "main_init os (show_input RR ps) t0 t1 junk = Inr g0"
  shows "rr_sys_inv os g0 \<and> rr_clock g0 0 \<and> (alrm_pending g0 \<or> \<not> timspec_is_zero (it_value g0)) \<and>
     \<not> arrival_queue_empty g0 \<and> arrival_times g0 = map arrival_time ps \<and> arrival_ptr g0 = 0 \<and>
     pending g0 = (if arrival_time (hd ps) = 0 then {SIGALRM} else {})"
proof (rule rr_init [OF assms(1-4), of junk], goal_cases)
  case (1 g)
  then have g: "g0 = g" using assms(6) by simp
  let ?u = "nanos (time_unit (timer_info g))"
  have u: "0 < ?u" using 1 assms(5) by (simp add: UNIT_MEASURE_REPEAT_def pos_imp_zdiv_pos_iff)
  have base: "rr_base os g" using 1 by (simp add: rr_sys_inv_def)
  have ne: "\<not> arrival_queue_empty g" "arrival_times g ! arrival_ptr g = arrival_time (hd ps)" "0 \<le> arrival_time (hd ps)"
    using 1 assms(3) table_inv_queue [OF rr_baseD(3) [OF base]]
    by (auto simp: wf_table_def arrivals_sorted_def hd_conv_nth dest: map_eq_imp_length_eq)
  have "rr_clock g 0" using 1 u ne by (simp add: rr_clock_def arrival_clock_def Let_def)
  moreover have "alrm_pending g \<or> \<not> timspec_is_zero (it_value g)"
  proof (rule set_timer_zero_iff [of g os], goal_cases)
    case (5 v)
    then have "timspec_is_zero (it_value g) \<longleftrightarrow> arrival_time (hd ps) = 0"
      using 1 u ne by (metis Inr_inject globals.select_convs(11) globals.surjective globals.update_convs(11) mult_eq_0_iff less_irrefl)
    then show ?case using 1 by (auto simp: pending_def split: if_splits)
  qed (use 1 u rr_baseD [OF base] in \<open>auto simp: os_ok_def RR_TIMES_OF_UNIT_def\<close>)
  ultimately show ?case using 1 ne(1) g by simp
qed

lemma rr_init_live:
  assumes "os_ok os" "0 < getpid os" "wf_table ps" "clock_ok t0 t1" "UNIT_MEASURE_REPEAT \<le> nanos t1 - nanos t0"
    "no_tie (map arrival_time ps)" "main_init os (show_input RR ps) t0 t1 junk = Inr g0"
  shows "rr_live os g0 0"
  using rr_init_clock [OF assms(1-5,7)] assms(6) by (simp add: rr_live_def)


section \<open>The arrivals are on time\<close>

interpretation rr_punct: punctual os "rr_live os" for os
proof (unfold_locales, goal_cases)
  case (1 g T)
  then show ?case using rr_baseD(3) by (auto simp: rr_live_def rr_sys_inv_def rr_clock_def)
next
  case (2 g T)
  then show ?case using rr_live_fires by blast
next
  case (3 g T i)
  then show ?case using rr_live_child by blast
next
  case (4 g T g')
  then show ?case using rr_live_exit by blast
next
  case (5 g T g' v)
  show ?case by (rule rr_live_alarm [OF 5(1-3), of v]) (use 5(4) in blast)
qed

lemma rr_init_on_time:
  assumes "os_ok os" "0 < getpid os" "wf_table ps" "clock_ok t0 t1" "UNIT_MEASURE_REPEAT \<le> nanos t1 - nanos t0"
    "no_tie (map arrival_time ps)" "main_init os (show_input RR ps) t0 t1 junk = Inr g0"
  shows "rr_punct.on_time os g0 0" "nanos (time_unit (timer_info g0)) = (nanos t1 - nanos t0) div UNIT_MEASURE_REPEAT"
    "arrival_times g0 = map arrival_time ps"
proof (rule_tac [!] rr_init [OF assms(1-4), of junk], goal_cases)
  case (1 g)
  then have g: "g0 = g" using assms(7) by simp
  have live: "rr_live os g 0" using rr_init_live [OF assms] g by simp
  then have c: "rr_clock g 0" and base: "rr_base os g" by (simp_all add: rr_live_def rr_sys_inv_def)
  have v: "timer_value g = Inr (it_value g)" using set_timer_value 1 by blast
  have ne: "\<not> arrival_queue_empty g" "arrival_times g ! arrival_ptr g = arrival_time (hd ps)" "0 \<le> arrival_time (hd ps)"
    using 1 assms(3) table_inv_queue [OF rr_baseD(3) [OF base]]
    by (auto simp: wf_table_def arrivals_sorted_def hd_conv_nth dest: map_eq_imp_length_eq)
  have "nanos (it_value g) = 0" if "arrival_time (hd ps) = 0"
    using v timer_value_RR [OF rr_baseD(4,2) [OF base] ne(1)] rr_clockD [OF c] ne that by (auto split: if_splits)
  then show ?case
    using 1 g live v ne by (intro rr_punct.on_time_start) (auto simp: pending_def split: if_splits)
qed (use assms(7) in simp_all)


text \<open>What an alarm does depends on the time alone: processes arrive that are due, or a slice is over.\<close>

lemma rr_alarm_on_time:
  assumes on: "rr_punct.on_time os g E" and p: "pending g = {SIGALRM}"
  obtains g' where "loop_iteration os [SIGALRM] g = Inr (False, g')"
    "if \<not> arrival_queue_empty g \<and> E = nanos (time_unit (timer_info g)) * arrival_times g ! arrival_ptr g
     then arrival_ptr g < arrival_ptr g' \<and> queue_of g' = queue_of g @ [arrival_ptr g..<arrival_ptr g']
     else E mod (nanos (time_unit (timer_info g)) * 500) = 0 \<and> arrival_ptr g' = arrival_ptr g \<and>
       queue_of g' = rotate1 (queue_of g)"
proof -
  let ?u = "nanos (time_unit (timer_info g))" and ?a = "arrival_times g ! arrival_ptr g"
  obtain T v where T: "rr_live os g T" "timer_value g = Inr v" "E = ?u * T + nanos v"
    using on p by (auto simp: rr_punct.on_time_def Let_def)
  have inv: "rr_sys_inv os g" and u: "0 < ?u" and busy: "\<not> (arrival_queue_empty g \<and> queue_of g = [])"
    using T(1) rr_clockD(1) by (auto simp: rr_live_def)
  obtain b g' where l: "loop_iteration os [SIGALRM] g = Inr (b, g')" "rr_after_timer g g'"
    "b \<longleftrightarrow> arrival_queue_empty g' \<and> queue_of g' = []" "rr_sys_inv os g'"
    by (rule rr_turn [OF inv p]) simp
  have n: "num_process g' = num_process g"
    using inv l(4) rr_baseD(3) [of os] table_data_cong(2) [OF loop_iteration_table [OF l(1)]]
    by (simp add: rr_sys_inv_def table_inv_def Let_def)
  have "\<not> b" using l(2,3) busy n by (auto simp: rr_after_timer_def arrival_queue_empty_def)
  then have f: "loop_iteration os [SIGALRM] g = Inr (False, g')" using l(1) by simp
  obtain T' where T': "arrival_times g' = arrival_times g" "?u * T' = ?u * T + nanos v"
    "\<not> arrival_queue_empty g' \<Longrightarrow> T' < arrival_times g' ! arrival_ptr g'"
    "if arrival_ptr g' = arrival_ptr g then T' mod 500 = 0 else T' = ?a \<and> \<not> arrival_queue_empty g"
    by (rule rr_live_alarm [OF T(1) p f, of v]) (use T(2) in blast)
  have E: "E = ?u * T'" using T(3) T'(2) by simp
  show ?thesis
  proof (cases "arrival_ptr g' = arrival_ptr g")
    case True
    then have "T' < ?a" if "\<not> arrival_queue_empty g" using T'(1,3) n that by (simp add: arrival_queue_empty_def)
    then have "\<not> (\<not> arrival_queue_empty g \<and> E = ?u * ?a)" using E u by auto
    moreover have "E mod (?u * 500) = ?u * (T' mod 500)" by (simp only: E mult_mod_right)
    then have "E mod (?u * 500) = 0" using T'(4) True by simp
    moreover have "queue_of g' = rotate1 (queue_of g)" using l(2) True by (simp add: rr_after_timer_def)
    ultimately show ?thesis using that [OF f] True by auto
  next
    case False
    then show ?thesis using that [OF f] T'(4) l(2) E by (auto simp: rr_after_timer_def)
  qed
qed


section \<open>How long a run is\<close>

text \<open>
  Only the end of a time slice does not bring the program nearer to its end. The measure is the one
  for the other strategies.
\<close>

definition rr_steps_left :: "globals \<Rightarrow> nat" where
  "rr_steps_left g = 4 * (length (procs (world_of g)) - arrival_ptr g) + 2 * length (queue_of g) -
     (if alrm_pending g \<or> chld_pending g then 1 else 0)"

definition slice_over :: "globals \<Rightarrow> globals \<Rightarrow> bool" where
  "slice_over g g' \<longleftrightarrow> pending g = {SIGALRM} \<and> arrival_ptr g' = arrival_ptr g"

definition rr_busy :: "os \<Rightarrow> globals \<Rightarrow> bool" where
  "rr_busy os g \<longleftrightarrow> rr_sys_inv os g \<and> \<not> (arrival_queue_empty g \<and> queue_of g = [])"

lemma rr_busy_step: "step os g g' \<Longrightarrow> rr_busy os g \<Longrightarrow> rr_busy os g'"
proof (induction rule: step.induct)
  case (wakes_up g sig g')
  have "rr_sys_inv os g" using wakes_up(3) by (simp add: rr_busy_def)
  then show ?case
    by (rule rr_turn [OF _ wakes_up(1)]) (use wakes_up(2) in \<open>simp add: rr_busy_def\<close>)
qed (auto simp: rr_busy_def rr_timer_fires rr_child_terminates arrival_queue_empty_def)

lemma rr_busy_left:
  assumes "rr_busy os g" "pending g = {}"
  shows "2 \<le> rr_steps_left g"
proof -
  have inv: "rr_sys_inv os g" using assms(1) by (simp add: rr_busy_def)
  have "queue_of g \<noteq> [] \<or> arrival_ptr g < length (procs (world_of g))"
    using assms(1) table_inv_queue [OF rr_baseD(3), of os g] rr_sys_inv_arrived [OF inv]
    by (auto simp: rr_busy_def rr_sys_inv_def)
  then show ?thesis using assms(2) by (cases "queue_of g") (auto simp: rr_steps_left_def)
qed

lemma rr_steps_left_step:
  "step os g g' \<Longrightarrow> rr_busy os g \<Longrightarrow>
     if slice_over g g' then rr_steps_left g' \<le> rr_steps_left g + 1 else rr_steps_left g' < rr_steps_left g"
proof (induction rule: step.induct)
  case (timer_fires g)
  then show ?case using rr_busy_left [of os g] by (simp add: rr_steps_left_def slice_over_def)
next
  case (child_terminates g i)
  then show ?case using rr_busy_left [of os g] by (simp add: rr_steps_left_def slice_over_def)
next
  case (wakes_up g sig g')
  have inv: "rr_sys_inv os g" using wakes_up(3) by (simp add: rr_busy_def)
  have n: "length (procs (world_of g')) = length (procs (world_of g))"
    using table_data_cong(2) [OF loop_iteration_table [OF wakes_up(2)]] .
  have g': "rr_sys_inv os g'" "pending g' = {}" "if sig = SIGALRM then rr_after_timer g g'
     else queue_of g \<noteq> [] \<and> queue_of g' = tl (queue_of g) \<and> arrival_ptr g' = arrival_ptr g"
    by (rule rr_turn [OF inv wakes_up(1)], use wakes_up(2) in simp)+
  have p: "arrival_ptr g' \<le> length (procs (world_of g))" using rr_sys_inv_arrived [OF g'(1)] n by simp
  show ?case
  proof (cases sig)
    case SIGALRM
    then show ?thesis using g' p n wakes_up(1) by (auto simp: rr_after_timer_def rr_steps_left_def slice_over_def)
  next
    case SIGCHLD
    then show ?thesis
      using g' n wakes_up(1) by (cases "queue_of g") (auto simp: rr_steps_left_def slice_over_def)
  qed (use wakes_up in simp)
qed

lemma rr_run_bound:
  assumes "rr_busy os (f 0)" "\<forall>i < k. step os (f i) (f (Suc i))"
  shows "k \<le> rr_steps_left (f 0) + 2 * card {i. i < k \<and> slice_over (f i) (f (Suc i))}"
  using bounded_run [where I = "rr_busy os" and B = slice_over and m = rr_steps_left and os = os and f = f and k = k]
    rr_busy_step rr_steps_left_step assms by fastforce

text \<open>A state without a next step is one whose turn leaves the loop.\<close>

lemma rr_live_progress:
  assumes live: "rr_live os g T" and stuck: "\<nexists>g'. step os g g'"
  shows "\<exists>sig g'. pending g = {sig} \<and> loop_iteration os [sig] g = Inr (True, g')"
proof -
  have "\<not> (alrm_pending g \<and> chld_pending g)" using live by (auto simp: rr_live_def rr_sys_inv_def)
  then consider "pending g = {}" | sig where "pending g = {sig}"
    by (cases "alrm_pending g"; cases "chld_pending g") (auto simp: pending_def)
  then show ?thesis
  proof cases
    case 1
    then have "step os g (g\<lparr>alrm_pending := True, it_value := ts_zero\<rparr>)"
      using live by (intro timer_fires) (simp_all add: rr_live_def)
    with stuck show ?thesis by blast
  next
    case 2
    obtain b g' where l: "loop_iteration os [sig] g = Inr (b, g')" using rr_live_turn [OF live 2] .
    then have "b" using stuck wakes_up [OF 2, of os g'] by (cases b) auto
    with 2 l show ?thesis by auto
  qed
qed

end
