(* ===== verification/RR_Deadlock.thy ===== *)
theory RR_Deadlock
  imports RR_Progress
begin

text \<open>
  When the round-robin program has a deadlock: exactly if a process is due at the end of a time slice.
  The timer is then set to zero, and once the children that are left have terminated nothing happens any more.
\<close>

section \<open>Handling an alarm\<close>

lemma rr_alarm_clock:
  assumes inv: "rr_sys_inv os g" and c: "rr_clock g T" and p: "pending g = {SIGALRM}" and ne: "\<not> arrival_queue_empty g"
  obtains g' T' where "loop_iteration os [SIGALRM] g = Inr (False, g')" "rr_sys_inv os g'" "pending g' = {}"
    "arrival_times g' = arrival_times g" "num_process g' = num_process g" "rr_clock g' T'"
    "arrival_ptr g' = arrival_ptr g \<and> T < T' \<or> arrival_ptr g < arrival_ptr g'"
    "\<not> timspec_is_zero (it_value g') \<and> \<not> arrival_queue_empty g' \<longrightarrow> T' < arrival_times g' ! arrival_ptr g'"
    "arrival_ptr g < arrival_ptr g' \<longrightarrow> arrival_times g ! arrival_ptr g - T < 500 - T mod 500 \<and>
       arrival_times g ! (arrival_ptr g' - 1) = arrival_times g ! arrival_ptr g \<and> \<not> timspec_is_zero (it_value g')"
proof -
  let ?h = "sigsuspend [SIGALRM] g"
  have h: "rr_base os ?h" "quiet os ?h" "rr_clock ?h T" "arrival_times ?h = arrival_times g"
    "arrival_ptr ?h = arrival_ptr g" "arrival_queue_empty ?h = arrival_queue_empty g"
    using inv c rr_clock_cong [of ?h g T]
    by (simp_all add: rr_sys_inv_def sigsuspend_def signal_handler_def arrival_queue_empty_def)
  obtain b g' where g': "loop_iteration os [SIGALRM] g = Inr (b, g')" "rr_sys_inv os g'" "pending g' = {}"
    "b \<longleftrightarrow> arrival_queue_empty g' \<and> queue_of g' = []" "rr_after_timer g g'"
    by (rule rr_turn [OF inv p]) simp
  have at: "arrival_times g' = arrival_times g" using table_data_cong(3) [OF loop_iteration_table [OF g'(1)]] .
  have n: "num_process g' = num_process g"
    using inv g'(2) rr_baseD(3) [of os] table_data_cong(2) [OF loop_iteration_table [OF g'(1)]]
    by (simp add: rr_sys_inv_def table_inv_def Let_def)
  have "\<not> b" using g'(4,5) ne n by (auto simp: rr_after_timer_def arrival_queue_empty_def)
  then have l: "loop_iteration os [SIGALRM] g = Inr (False, g')" using g'(1) by simp
  then obtain k where k: "handle_timer os ?h = Inr k" "context_switch os k = Inr g'"
    by (auto simp: loop_iteration_def handle_event_def sigsuspend_def signal_handler_def split: if_splits)
  note ct = context_switch_timer [OF k(2)]
  have ka: "arrival_times g' = arrival_times k" using table_data_cong(3) [OF context_switch_table [OF k(2)]] .
  have u: "0 < nanos (time_unit (timer_info ?h))" using rr_clockD(1) [OF h(3)] .
  obtain T' where T': "rr_clock k T'" "arrival_ptr k = arrival_ptr g \<and> T < T' \<or> arrival_ptr g < arrival_ptr k"
    "\<not> timspec_is_zero (it_value k) \<Longrightarrow> \<not> arrival_queue_empty k \<Longrightarrow> T' < arrival_times k ! arrival_ptr k"
    "arrival_ptr g < arrival_ptr k \<Longrightarrow> arrival_times g ! arrival_ptr g - T < 500 - T mod 500 \<and>
       arrival_times g ! (arrival_ptr k - 1) = arrival_times g ! arrival_ptr g"
    by (rule rr_clock_timer [OF h(1-3) k(1), of ts_zero]) (use h(4,5) in auto)
  have "\<not> timspec_is_zero (it_value k)" if "arrival_ptr g < arrival_ptr k"
    by (rule rr_timer_effect [OF h(1,2) u k(1)]) (use that h(5) in auto)
  then show ?thesis
    using that [OF l g'(2,3) at n] T' ct rr_clock_cong [of g' k T'] ka by (simp add: arrival_queue_empty_def)
qed

section \<open>Into the deadlock\<close>

definition deadlock :: "os \<Rightarrow> globals \<Rightarrow> bool" where
  "deadlock os g \<longleftrightarrow> pending g = {} \<and> \<not> arrival_queue_empty g \<and> (\<nexists>g'. step os g g')"

text \<open>Once the timer is disarmed, the children that are left terminate one after the other.\<close>

lemma rr_drain:
  assumes "rr_sys_inv os g" "pending g = {}" "timspec_is_zero (it_value g)" "\<not> arrival_queue_empty g"
  shows "\<exists>h. reachable os g h \<and> deadlock os h"
  using assms
proof (induction "queue_of g" arbitrary: g)
  case Nil
  then show ?case using rr_stuck reach_start unfolding deadlock_def by metis
next
  case (Cons i q)
  have i: "queue_of g = i # q" using Cons.hyps(2) by (rule sym)
  have r: "runs (world_of g) i" using rr_hd_runs [OF Cons.prems(1)] Cons.prems(2) i by simp
  let ?h = "g\<lparr>chld_pending := True, world_of := child_exits i (world_of g)\<rparr>"
  have s: "step os g ?h" using child_terminates [OF Cons.prems(2) r] .
  have p: "pending ?h = {SIGCHLD}" using Cons.prems(2) by simp
  have inv: "rr_sys_inv os ?h" using rr_child_terminates [of os g i] Cons.prems(1,2) r by simp
  obtain b g' where g': "loop_iteration os [SIGCHLD] ?h = Inr (b, g')" "rr_sys_inv os g'" "pending g' = {}"
    "b \<longleftrightarrow> arrival_queue_empty g' \<and> queue_of g' = []" "queue_of g' = tl (queue_of ?h)"
    by (rule rr_turn [OF inv p]) simp
  note t = exit_turn_timer [OF g'(1)]
  have ne: "\<not> arrival_queue_empty g'" using t(3,4) Cons.prems(4) by (simp add: arrival_queue_empty_def)
  have q: "q = queue_of g'" using g'(5) i by simp
  have "timspec_is_zero (it_value g')" using t(2) Cons.prems(3) by simp
  then obtain h where "reachable os g' h" "deadlock os h" using Cons.hyps(1) [OF q g'(2,3) _ ne] by blast
  moreover have "step os ?h g'" using wakes_up [OF p] g'(1,4) ne by simp
  ultimately show ?case using reachable_converse s by blast
qed

text \<open>
  As long as the next process that is due at the end of a slice has not arrived, every alarm brings it
  nearer; when its time has come the timer is disarmed.
\<close>

definition tie_ahead :: "globals \<Rightarrow> bool" where
  "tie_ahead g \<longleftrightarrow> (\<exists>j < length (arrival_times g). arrival_ptr g \<le> j \<and> 0 < arrival_times g ! j \<and>
     arrival_times g ! j mod 500 = 0)"

lemma tie_ahead_queue: "rr_sys_inv os g \<Longrightarrow> tie_ahead g \<Longrightarrow> \<not> arrival_queue_empty g"
  using table_inv_queue [OF rr_baseD(3), of os g] by (auto simp: tie_ahead_def rr_sys_inv_def)

text \<open>The processes that arrive are none of those.\<close>

lemma tie_ahead_arrival:
  assumes inv: "rr_sys_inv os g" "rr_sys_inv os g'" and tie: "tie_ahead g" and c: "0 \<le> T" "T \<le> arrival_times g ! arrival_ptr g"
    and T: "T < arrival_times g ! arrival_ptr g \<or> arrival_times g ! arrival_ptr g = 0"
    and at: "arrival_times g' = arrival_times g" and ptr: "arrival_ptr g < arrival_ptr g'"
    and due: "arrival_times g ! arrival_ptr g - T < 500 - T mod 500"
      "arrival_times g ! (arrival_ptr g' - 1) = arrival_times g ! arrival_ptr g"
  shows "tie_ahead g'"
proof -
  let ?a = "arrival_times g ! arrival_ptr g"
  obtain j where j: "j < length (arrival_times g)" "arrival_ptr g \<le> j" "0 < arrival_times g ! j" "arrival_times g ! j mod 500 = 0"
    using tie by (auto simp: tie_ahead_def)
  have "\<not> j < arrival_ptr g'"
  proof
    assume "j < arrival_ptr g'"
    have tab: "table_inv os g" "table_inv os g'" using inv rr_baseD(3) by (auto simp: rr_sys_inv_def)
    have "?a \<le> arrival_times g ! j" using later_due [OF tab(1) j(2)] j(1) by simp
    moreover have "arrival_times g ! j \<le> ?a" using arrived_due [OF tab(2) _ \<open>j < arrival_ptr g'\<close>] ptr due(2) at by simp
    ultimately have a: "arrival_times g ! j = ?a" by simp
    have "(T mod 500 + (?a - T)) mod 500 = T mod 500 + (?a - T)"
      using c due(1) by (intro mod_pos_pos_trivial) simp_all
    moreover have "(T mod 500 + (?a - T)) mod 500 = ?a mod 500" by (simp add: mod_add_left_eq)
    ultimately have "T mod 500 + (?a - T) = 0" using a j(4) by simp
    moreover have "0 \<le> T mod 500" by simp
    ultimately have "T = ?a" using c by linarith
    with T a j(3) show False by simp
  qed
  then show ?thesis using j at by (auto simp: tie_ahead_def)
qed

lemma rr_runs_into_tie:
  assumes "rr_sys_inv os g" "rr_clock g T" "pending g = {SIGALRM}" "tie_ahead g"
    "T < arrival_times g ! arrival_ptr g \<or> arrival_times g ! arrival_ptr g = 0"
  shows "\<exists>h. reachable os g h \<and> deadlock os h"
  using assms
proof (induction "(length (arrival_times g) - arrival_ptr g, nat (arrival_times g ! arrival_ptr g - T))" arbitrary: g T
    rule: wf_induct_rule [OF wf_lex_prod [OF wf_less_than wf_less_than]])
  case (1 g T)
  note inv = 1(2) and c = 1(3) and p = 1(4) and tie = 1(5)
  have ne: "\<not> arrival_queue_empty g" using tie_ahead_queue [OF inv tie] .
  obtain g' T' where g': "loop_iteration os [SIGALRM] g = Inr (False, g')" "rr_sys_inv os g'" "pending g' = {}"
    "arrival_times g' = arrival_times g" "num_process g' = num_process g" "rr_clock g' T'"
    "arrival_ptr g' = arrival_ptr g \<and> T < T' \<or> arrival_ptr g < arrival_ptr g'"
    "\<not> timspec_is_zero (it_value g') \<and> \<not> arrival_queue_empty g' \<longrightarrow> T' < arrival_times g' ! arrival_ptr g'"
    "arrival_ptr g < arrival_ptr g' \<longrightarrow> arrival_times g ! arrival_ptr g - T < 500 - T mod 500 \<and>
       arrival_times g ! (arrival_ptr g' - 1) = arrival_times g ! arrival_ptr g \<and> \<not> timspec_is_zero (it_value g')"
    using rr_alarm_clock [OF inv c p ne] .
  have s: "step os g g'" using wakes_up [OF p g'(1)] .
  have tie': "tie_ahead g'"
  proof (cases "arrival_ptr g' = arrival_ptr g")
    case True
    then show ?thesis using tie g'(4) by (simp add: tie_ahead_def)
  next
    case False
    then show ?thesis
      using tie_ahead_arrival [OF inv g'(2) tie rr_clockD(2,4) [OF c] 1(6) g'(4)] g'(7,9) ne by simp
  qed
  note ne' = tie_ahead_queue [OF g'(2) tie']
  show ?case
  proof (cases "timspec_is_zero (it_value g')")
    case True
    then show ?thesis using rr_drain [OF g'(2,3) True ne'] reachable_converse [OF _ s] by blast
  next
    case False
    let ?h = "g'\<lparr>alrm_pending := True, it_value := ts_zero\<rparr>"
    have h: "rr_sys_inv os ?h" "rr_clock ?h T'" "pending ?h = {SIGALRM}" "tie_ahead ?h"
      using rr_timer_fires [of os g' ts_zero] g'(2,3,6) tie' by (simp_all add: rr_clock_def tie_ahead_def)
    have T': "T' < arrival_times g' ! arrival_ptr g'" using g'(8) False ne' by blast
    have "arrival_ptr g' \<le> length (arrival_times g)"
      using rr_sys_inv_arrived [OF g'(2)] map_eq_imp_length_eq [OF g'(4)] by simp
    then have m: "((length (arrival_times ?h) - arrival_ptr ?h, nat (arrival_times ?h ! arrival_ptr ?h - T')),
        length (arrival_times g) - arrival_ptr g, nat (arrival_times g ! arrival_ptr g - T)) \<in> less_than <*lex*> less_than"
      using g'(7) T' map_eq_imp_length_eq [OF g'(4)] g'(4) by auto
    obtain k where "reachable os ?h k" "deadlock os k"
      using 1(1) [OF m h] T' by auto
    then show ?thesis using reachable_converse [OF reachable_converse [OF _ timer_fires [OF g'(3) False]] s] by blast
  qed
qed

section \<open>When there is a deadlock\<close>

lemma rr_tie_deadlocks:
  assumes "os_ok os" "0 < getpid os" "wf_table ps" "clock_ok t0 t1" "UNIT_MEASURE_REPEAT \<le> nanos t1 - nanos t0"
    "main_init os (show_input RR ps) t0 t1 junk = Inr g0" "\<not> no_tie (map arrival_time ps)"
  shows "\<exists>g. reachable os g0 g \<and> deadlock os g"
proof -
  have i: "rr_sys_inv os g0" "rr_clock g0 0" "alrm_pending g0 \<or> \<not> timspec_is_zero (it_value g0)"
    "arrival_times g0 = map arrival_time ps" "arrival_ptr g0 = 0"
    "pending g0 = (if arrival_time (hd ps) = 0 then {SIGALRM} else {})"
    using rr_init_clock [OF assms(1-6)] by simp_all
  have pos: "0 \<le> arrival_time p" if "p \<in> set ps" for p using assms(3) that by (simp add: wf_table_def arrivals_sorted_def)
  obtain p where p: "p \<in> set ps" "arrival_time p mod 500 = 0" "0 < arrival_time p"
    using assms(7) pos by (force simp: no_tie_def RR_TIMES_OF_UNIT_def)
  then obtain j where "j < length ps" "ps ! j = p" by (auto simp: in_set_conv_nth)
  then have tie: "tie_ahead g0" using p i(4,5) map_eq_imp_length_eq [OF i(4)] unfolding tie_ahead_def by (intro exI [of _ j]) simp
  have a: "arrival_times g0 ! arrival_ptr g0 = arrival_time (hd ps)" "0 \<le> arrival_time (hd ps)"
    using i(4,5) p(1) pos by (cases ps; simp)+
  show ?thesis
  proof (cases "arrival_time (hd ps) = 0")
    case True
    then show ?thesis using rr_runs_into_tie [OF i(1,2) _ tie] i(6) a by simp
  next
    case False
    then have q: "pending g0 = {}" and z: "\<not> timspec_is_zero (it_value g0)" using i(3,6) by auto
    let ?h = "g0\<lparr>alrm_pending := True, it_value := ts_zero\<rparr>"
    have h: "rr_sys_inv os ?h" "rr_clock ?h 0" "pending ?h = {SIGALRM}" "tie_ahead ?h"
      using rr_timer_fires [of os g0 ts_zero] i(1,2) q tie by (simp_all add: rr_clock_def tie_ahead_def)
    have "\<exists>g. reachable os ?h g \<and> deadlock os g" using rr_runs_into_tie [OF h] a False by simp
    then show ?thesis using reachable_converse [OF _ timer_fires [OF q z]] by blast
  qed
qed

lemma rr_deadlock_iff_tie:
  assumes "os_ok os" "0 < getpid os" "wf_table ps" "clock_ok t0 t1" "UNIT_MEASURE_REPEAT \<le> nanos t1 - nanos t0"
    "main_init os (show_input RR ps) t0 t1 junk = Inr g0"
  shows "(\<exists>g. reachable os g0 g \<and> deadlock os g) \<longleftrightarrow> \<not> no_tie (map arrival_time ps)"
proof
  assume "\<exists>g. reachable os g0 g \<and> deadlock os g"
  then obtain g where g: "reachable os g0 g" "deadlock os g" by blast
  show "\<not> no_tie (map arrival_time ps)"
  proof
    assume "no_tie (map arrival_time ps)"
    then obtain T where "rr_live os g T" using rr_live_reachable [OF g(1) rr_init_live [OF assms(1-5) _ assms(6)]] by blast
    then have "step os g (g\<lparr>alrm_pending := True, it_value := ts_zero\<rparr>)"
      using g(2) by (intro timer_fires) (auto simp: rr_live_def deadlock_def)
    with g(2) show False by (auto simp: deadlock_def)
  qed
qed (rule rr_tie_deadlocks [OF assms])

end
