(* ===== verification/RR_Policy.thy ===== *)
theory RR_Policy
  imports RR_System
begin

text \<open>
  Round robin as a policy, and the refinement: the event loop with its array, its two indices and its
  one timer makes exactly the moves of a deterministic machine over a list and two numbers.
\<close>

section \<open>The policy\<close>

text \<open>
  The state: the jobs in the order in which they will run, how many processes of the table have
  arrived, how long the slice of the front still lasts, and how long it is until the next arrival
  (zero if there is none).
\<close>

record policy =
  run_queue :: "nat list"
  arrived :: nat
  slice_left :: int
  arrival_left :: int

text \<open>
  The processes that are due with the one of index \<open>a\<close>, in a list of arrival times, end before this
  index.
\<close>

definition batch_end :: "int list \<Rightarrow> nat \<Rightarrow> nat" where
  "batch_end ts a = a + length (takeWhile (\<lambda>t. t = ts ! a) (drop a ts))"

text \<open>
  The moves, for a time unit of \<open>u\<close> nanoseconds and arrival times \<open>ts\<close>: the processes that are due
  go to the back of the queue in the order of the table; when the slice is over the front goes to the back
  and a slice of 500 time units begins; a job that ends leaves the queue. The end of a slice comes
  first when a process is due at the same time.
\<close>

definition policy_start :: "int \<Rightarrow> int list \<Rightarrow> policy" where
  "policy_start u ts = \<lparr>run_queue = [], arrived = 0, slice_left = u * 500, arrival_left = u * ts ! 0\<rparr>"

definition policy_arrive :: "int \<Rightarrow> int list \<Rightarrow> policy \<Rightarrow> policy" where
  "policy_arrive u ts s = (let b = batch_end ts (arrived s) in
     \<lparr>run_queue = run_queue s @ [arrived s..<b], arrived = b, slice_left = slice_left s - arrival_left s,
      arrival_left = (if b < length ts then u * (ts ! b - ts ! arrived s) else 0)\<rparr>)"

definition policy_slice_over :: "int \<Rightarrow> int list \<Rightarrow> policy \<Rightarrow> policy" where
  "policy_slice_over u ts s =
     \<lparr>run_queue = rotate1 (run_queue s), arrived = arrived s, slice_left = u * 500,
      arrival_left = (if arrived s < length ts then arrival_left s - slice_left s else 0)\<rparr>"

definition policy_alarm :: "int \<Rightarrow> int list \<Rightarrow> policy \<Rightarrow> policy" where
  "policy_alarm u ts s =
     (if arrived s < length ts \<and> arrival_left s < slice_left s then policy_arrive u ts s
      else policy_slice_over u ts s)"

definition policy_exit :: "policy \<Rightarrow> policy" where
  "policy_exit s = s\<lparr>run_queue := tl (run_queue s)\<rparr>"

text \<open>What the program holds of it: two indices into an array, and the remaining times of the timer.\<close>

definition policy_of :: "globals \<Rightarrow> policy" where
  "policy_of g = \<lparr>run_queue = queue_of g, arrived = arrival_ptr g,
     slice_left = nanos (timeslice_remaining (timer_info g)),
     arrival_left = (if arrival_queue_empty g then 0 else nanos (arrival_remaining (timer_info g)))\<rparr>"

lemma batch_end_eq:
  assumes "sorted ts" "a < b" "b \<le> length ts" "ts ! (b - 1) = ts ! a" "b < length ts \<Longrightarrow> ts ! b \<noteq> ts ! a"
  shows "batch_end ts a = b"
proof -
  have eq: "ts ! i = ts ! a" if "a \<le> i" "i < b" for i
  proof (rule order.antisym)
    show "ts ! a \<le> ts ! i" using that assms(3) by (intro sorted_nth_mono [OF assms(1)]) simp_all
    have "ts ! i \<le> ts ! (b - 1)" using that assms(3) by (intro sorted_nth_mono [OF assms(1)]) simp_all
    then show "ts ! i \<le> ts ! a" by (simp only: assms(4))
  qed
  have "takeWhile (\<lambda>t. t = ts ! a) (drop a ts) = take (b - a) (drop a ts)"
  proof (rule takeWhile_eq_take_P_nth)
    show "drop a ts ! i = ts ! a" if "i < b - a" "i < length (drop a ts)" for i
      using that eq [of "a + i"] by simp
    show "drop a ts ! (b - a) \<noteq> ts ! a" if "b - a < length (drop a ts)"
      using that assms(2,5) by simp
  qed
  then show ?thesis using assms(2,3) by (simp add: batch_end_def)
qed

section \<open>The refinement\<close>

lemma policy_of_cong:
  assumes "rr_of g' = rr_of g" "arrival_ptr g' = arrival_ptr g" "timer_info g' = timer_info g"
    "num_process g' = num_process g"
  shows "policy_of g' = policy_of g"
  using assms by (simp add: policy_of_def arrival_queue_empty_def)

lemma rr_arrived_iff:
  assumes "rr_base os g"
  shows "arrival_queue_empty g \<longleftrightarrow> \<not> arrival_ptr g < length (arrival_times g)"
  using rr_baseD(3) [OF assms] by (auto simp: table_inv_def arrival_queue_empty_def Let_def)

text \<open>The timer comes to an arrival.\<close>

lemma rr_arrival_policy:
  assumes base: "rr_base os h" and q: "quiet os h" and ne: "\<not> arrival_queue_empty h"
    and g: "handle_arrival os h = Inr g" and s: "run_queue s = queue_of h" "arrived s = arrival_ptr h"
  shows "time_unit (timer_info g) = time_unit (timer_info h)"
    "policy_of g = (policy_arrive (nanos (time_unit (timer_info h))) (arrival_times h) s)
       \<lparr>slice_left := nanos (timeslice_remaining (timer_info h))\<rparr>"
proof -
  let ?u = "nanos (time_unit (timer_info h))" let ?a = "arrival_ptr h" and ?b = "arrival_ptr g"
  let ?ts = "arrival_times h"
  obtain k where k: "handle_arrival os h = Inr k" "rr_base os k" "?a < arrival_ptr k"
    "queue_of k = queue_of h @ [?a..<arrival_ptr k]"
    "timeslice_remaining (timer_info k) = timeslice_remaining (timer_info h)"
    "arrival_queue_empty k \<or> (\<exists>t > 0. timeunits_until_next_arrival k = Inr t \<and>
       nanos (arrival_remaining (timer_info k)) = ?u * t)"
    "time_unit (timer_info k) = time_unit (timer_info h)"
    by (rule rr_handle_arrival [OF base q ne]) simp
  have kg: "k = g" using k(1) g by simp
  have at: "arrival_times g = ?ts" using table_data_cong(3) [OF handle_arrival_table [OF g]] .
  have due: "?ts ! (?b - 1) = ?ts ! ?a" using handle_arrival_due [OF g] .
  have tab: "sorted ?ts" "?b \<le> length ?ts"
    using rr_baseD(3) [OF base] rr_baseD(3) [OF k(2)] kg map_eq_imp_length_eq [OF at]
    by (simp_all add: table_inv_def arrivals_sorted_def Let_def)
  have e: "arrival_queue_empty g \<longleftrightarrow> \<not> ?b < length ?ts" using rr_arrived_iff [OF k(2)] kg at by simp
  have next_left: "?ts ! ?a < ?ts ! ?b \<and> nanos (arrival_remaining (timer_info g)) = ?u * (?ts ! ?b - ?ts ! ?a)"
    if lt: "?b < length ?ts"
  proof -
    obtain t where t: "0 < t" "timeunits_until_next_arrival g = Inr t"
      "nanos (arrival_remaining (timer_info g)) = ?u * t"
      using k(6) kg e lt by auto
    then have "t = ?ts ! ?b - ?ts ! ?a"
      using timeunits_until_next_arrival_eq [OF t(2)] k(3) kg at due by simp
    with t show ?thesis by simp
  qed
  have "batch_end ?ts ?a = ?b" using tab due k(3) kg next_left by (intro batch_end_eq) auto
  then show "policy_of g = (policy_arrive ?u ?ts s)\<lparr>slice_left := nanos (timeslice_remaining (timer_info h))\<rparr>"
    using k(4,5) kg e next_left s by (auto simp: policy_of_def policy_arrive_def Let_def)
  show "time_unit (timer_info g) = time_unit (timer_info h)" using k(7) kg by simp
qed

text \<open>The timer comes to the end of a slice.\<close>

lemma rr_slice_policy:
  assumes h: "rr_base os h" "quiet os h"
    and g: "bindR (timeslice_over h) update_timeslice_remaining = Inr g"
  shows "time_unit (timer_info g) = time_unit (timer_info h)"
    "policy_of g = \<lparr>run_queue = rotate1 (queue_of h), arrived = arrival_ptr h,
       slice_left = nanos (time_unit (timer_info h)) * 500,
       arrival_left = (if arrival_queue_empty h then 0 else nanos (arrival_remaining (timer_info h)))\<rparr>"
proof -
  obtain s where s: "timeslice_over h = Inr (h\<lparr>rr_of := s\<rparr>)" "rr_base os (h\<lparr>rr_of := s\<rparr>)"
    "rr_queue s = rotate1 (queue_of h)"
    using rr_timeslice_over [OF h] by blast
  let ?k = "h\<lparr>rr_of := s\<rparr>"
  obtain ti where ti: "update_timeslice_remaining ?k = Inr (?k\<lparr>timer_info := ti\<rparr>)"
    "arrival_remaining ti = arrival_remaining (timer_info h)"
    "nanos (timeslice_remaining ti) = nanos (time_unit (timer_info h)) * RR_TIMES_OF_UNIT"
    "time_unit ti = time_unit (timer_info h)"
    using update_timeslice_remaining_ok [OF rr_baseD(4) [OF s(2)] rr_baseD(2) [OF s(2)]] by auto
  have "g = ?k\<lparr>timer_info := ti\<rparr>" using g s(1) ti(1) by simp
  then show "time_unit (timer_info g) = time_unit (timer_info h)"
    "policy_of g = \<lparr>run_queue = rotate1 (queue_of h), arrived = arrival_ptr h,
       slice_left = nanos (time_unit (timer_info h)) * 500,
       arrival_left = (if arrival_queue_empty h then 0 else nanos (arrival_remaining (timer_info h)))\<rparr>"
    using ti s(3) by (simp_all add: policy_of_def arrival_queue_empty_def RR_TIMES_OF_UNIT_def)
qed

lemma rr_timer_policy:
  assumes base: "rr_base os g" and q: "quiet os g" and g': "handle_timer os g = Inr g'"
  shows "time_unit (timer_info g') = time_unit (timer_info g) \<and>
    policy_of g' = policy_alarm (nanos (time_unit (timer_info g))) (arrival_times g) (policy_of g)"
proof (rule rr_alarm_start [OF base q], goal_cases)
  case (1 ti)
  let ?a = "nanos (arrival_remaining (timer_info g))" and ?s = "nanos (timeslice_remaining (timer_info g))"
  let ?r = "if arrival_queue_empty g then TIMESLICE_OVER else if ?a < ?s then PROCESS_ARRIVAL else TIMESLICE_OVER"
  let ?h = "g\<lparr>event_type := ?r, timer_info := ti\<rparr>"
  have h: "rr_base os ?h" "quiet os ?h" using 1(2) q by simp_all
  obtain k where k: "(if ?r = TIMESLICE_OVER then bindR (timeslice_over ?h) update_timeslice_remaining
      else handle_arrival os ?h) = Inr k" "set_timer os k = Inr g'"
    using g' 1(1) [OF refl refl] by auto
  have eq: "policy_of g' = policy_of k" "timer_info g' = timer_info k"
    using k(2) by (auto simp: set_timer_def scheduler_exit_def Let_def policy_of_def arrival_queue_empty_def
        split: if_splits)
  have e: "arrival_queue_empty g \<longleftrightarrow> \<not> arrival_ptr g < length (arrival_times g)" "arrival_queue_empty ?h = arrival_queue_empty g"
    using rr_arrived_iff [OF base] by (simp_all add: arrival_queue_empty_def)
  show ?thesis
  proof (cases "?r = TIMESLICE_OVER")
    case True
    then have "arrival_queue_empty g \<or> ?s \<le> ?a" by (auto split: if_splits)
    with True rr_slice_policy [OF h, of k] k(1) eq e 1(3,4) show ?thesis
      by (auto simp: policy_alarm_def policy_slice_over_def policy_of_def)
  next
    case False
    then have f: "\<not> arrival_queue_empty g" "?a < ?s" by (auto split: if_splits)
    with False rr_arrival_policy [OF h, of k "policy_of g"] k(1) eq e 1(3,5) show ?thesis
      by (auto simp: policy_alarm_def policy_arrive_def policy_of_def Let_def)
  qed
qed

text \<open>The turns of the loop.\<close>

lemma rr_alarm_policy:
  assumes inv: "rr_sys_inv os g" and l: "loop_iteration os [SIGALRM] g = Inr (b, g')"
  shows "time_unit (timer_info g') = time_unit (timer_info g) \<and>
    policy_of g' = policy_alarm (nanos (time_unit (timer_info g))) (arrival_times g) (policy_of g)"
proof -
  let ?h = "sigsuspend [SIGALRM] g"
  have h: "rr_base os ?h" "quiet os ?h" "timer_info ?h = timer_info g" "policy_of ?h = policy_of g"
    using inv policy_of_cong [of ?h g] by (simp_all add: rr_sys_inv_def sigsuspend_def signal_handler_def)
  obtain k where k: "handle_timer os ?h = Inr k" "g' = k \<or> context_switch os k = Inr g'"
    using l by (auto simp: loop_iteration_def handle_event_def sigsuspend_def signal_handler_def split: if_splits)
  have "rr_base os k" using rr_handle_timer [OF h(1,2)] k(1) by (metis Inr_inject)
  then have "rr_of g' = rr_of k \<and> timer_info g' = timer_info k \<and> arrival_ptr g' = arrival_ptr k \<and>
      num_process g' = num_process k"
    using k(2) context_switch_timer [of os k g'] rr_baseD(2) by (auto simp: context_switch_def Let_def)
  then show ?thesis using rr_timer_policy [OF h(1,2) k(1)] policy_of_cong [of g' k] h(3,4) by simp
qed

lemma rr_exit_policy:
  assumes inv: "rr_sys_inv os g" and p: "pending g = {SIGCHLD}" and l: "loop_iteration os [SIGCHLD] g = Inr (b, g')"
  shows "timer_info g' = timer_info g" "policy_of g' = policy_exit (policy_of g)" "queue_of g \<noteq> []"
proof -
  have q: "queue_of g \<noteq> [] \<and> queue_of g' = tl (queue_of g) \<and> arrival_ptr g' = arrival_ptr g"
    using rr_turn [OF inv p] l by (metis Inr_inject prod.inject signal.distinct(1))
  note t = exit_turn_timer [OF l]
  show "timer_info g' = timer_info g" "policy_of g' = policy_exit (policy_of g)" "queue_of g \<noteq> []"
    using q t by (simp_all add: policy_of_def policy_exit_def arrival_queue_empty_def)
qed

text \<open>What the environment does between two turns does not show.\<close>

lemma rr_quiet_policy:
  "step os g g' \<Longrightarrow> pending g = {} \<Longrightarrow> policy_of g' = policy_of g \<and> timer_info g' = timer_info g"
  by (induction rule: step.induct) (auto intro: policy_of_cong)

lemma rr_step_unit:
  assumes "step os g g'" "rr_sys_inv os g"
  shows "time_unit (timer_info g') = time_unit (timer_info g)"
  using assms
proof (induction rule: step.induct)
  case (wakes_up g sig g')
  then show ?case using rr_alarm_policy [of os g False g'] rr_exit_policy [of os g False g'] by (cases sig) simp_all
qed simp_all

lemma rr_reachable_unit:
  "reachable os g0 g \<Longrightarrow> rr_sys_inv os g0 \<Longrightarrow> time_unit (timer_info g) = time_unit (timer_info g0)"
  by (induction rule: reachable.induct) (auto dest: rr_step_unit rr_reachable_inv)

text \<open>From the start of the program.\<close>

lemma rr_policy_start:
  assumes "os_ok os" "0 < getpid os" "wf_table ps" "clock_ok t0 t1" "main_init os (show_input RR ps) t0 t1 junk = Inr g0"
  shows "policy_of g0 = policy_start ((nanos t1 - nanos t0) div 1000) (map arrival_time ps)"
    "nanos (time_unit (timer_info g0)) = (nanos t1 - nanos t0) div 1000" "arrival_times g0 = map arrival_time ps"
proof (rule_tac [!] rr_init [OF assms(1-4), of junk], goal_cases)
  case (1 g)
  have "rr_base os g" using 1 by (simp add: rr_sys_inv_def)
  then have "\<not> arrival_queue_empty g" "ps \<noteq> []"
    using 1 assms(3) map_eq_imp_length_eq [of arrival_time "procs (world_of g)"]
    by (simp_all add: rr_arrived_iff wf_table_def)
  then show ?case
    using 1 assms(5) by (simp add: policy_of_def policy_start_def UNIT_MEASURE_REPEAT_def RR_TIMES_OF_UNIT_def hd_conv_nth)
qed (use assms(5) in \<open>simp_all add: UNIT_MEASURE_REPEAT_def\<close>)

lemma rr_policy_turn:
  assumes "os_ok os" "0 < getpid os" "wf_table ps" "clock_ok t0 t1" "main_init os (show_input RR ps) t0 t1 junk = Inr g0"
    "reachable os g0 g" "pending g = {sig}"
  obtains b g' where "loop_iteration os [sig] g = Inr (b, g')" "rr_sys_inv os g"
    "b \<longleftrightarrow> arrived (policy_of g') = length ps \<and> run_queue (policy_of g') = []"
    "nanos (time_unit (timer_info g)) = (nanos t1 - nanos t0) div 1000" "arrival_times g = map arrival_time ps"
proof -
  note init = rr_initD [OF assms(1-5)] and start = rr_policy_start [OF assms(1-5)]
  have inv: "rr_sys_inv os g" using rr_reachable_inv [OF assms(6) init(1)] .
  obtain b g' where g': "loop_iteration os [sig] g = Inr (b, g')" "rr_sys_inv os g'"
    "b \<longleftrightarrow> arrival_queue_empty g' \<and> queue_of g' = []"
    using rr_turn [OF inv assms(7)] by metis
  have at: "arrival_times g = map arrival_time ps"
    using table_data_cong(3) [OF reachable_table [OF assms(6)]] start(3) by simp
  have "arrival_times g' = map arrival_time ps"
    using table_data_cong(3) [OF loop_iteration_table [OF g'(1)]] at by simp
  then have "length (arrival_times g') = length ps" by simp
  then have "arrival_queue_empty g' \<longleftrightarrow> arrival_ptr g' = length ps"
    using rr_sys_inv_arrived [OF g'(2)] rr_arrived_iff [of os g'] g'(2) by (auto simp: rr_sys_inv_def)
  then show ?thesis
    using that [OF g'(1) inv] g'(3) at start(2) rr_reachable_unit [OF assms(6) init(1)] by (simp add: policy_of_def)
qed

lemma rr_policy_alarm:
  assumes "os_ok os" "0 < getpid os" "wf_table ps" "clock_ok t0 t1" "main_init os (show_input RR ps) t0 t1 junk = Inr g0"
    "reachable os g0 g" "pending g = {SIGALRM}"
  shows "\<exists>b g'. loop_iteration os [SIGALRM] g = Inr (b, g') \<and>
     policy_of g' = policy_alarm ((nanos t1 - nanos t0) div 1000) (map arrival_time ps) (policy_of g) \<and>
     (b \<longleftrightarrow> arrived (policy_of g') = length ps \<and> run_queue (policy_of g') = [])"
proof (rule rr_policy_turn [OF assms], goal_cases)
  case (1 b g')
  then show ?case using rr_alarm_policy [OF 1(2,1)] by auto
qed

lemma rr_policy_exit:
  assumes "os_ok os" "0 < getpid os" "wf_table ps" "clock_ok t0 t1" "main_init os (show_input RR ps) t0 t1 junk = Inr g0"
    "reachable os g0 g" "pending g = {SIGCHLD}"
  shows "run_queue (policy_of g) \<noteq> [] \<and> zombies (world_of g) = [fork os (hd (run_queue (policy_of g)))] \<and>
    (\<exists>b g'. loop_iteration os [SIGCHLD] g = Inr (b, g') \<and> policy_of g' = policy_exit (policy_of g) \<and>
     (b \<longleftrightarrow> arrived (policy_of g') = length ps \<and> run_queue (policy_of g') = []))"
proof (rule rr_policy_turn [OF assms], goal_cases)
  case (1 b g')
  have base: "rr_base os g" and z: "zombies (world_of g) = [pid (procs (world_of g) ! hd (queue_of g))]"
    and ne: "queue_of g \<noteq> []"
    using 1(2) assms(7) by (simp_all add: rr_sys_inv_def)
  have "hd (queue_of g) < arrival_ptr g" using rr_baseD(7) [OF base] ne by (cases "queue_of g") auto
  then have "zombies (world_of g) = [fork os (hd (queue_of g))]"
    using z rr_baseD(3) [OF base] by (auto simp: table_inv_def Let_def)
  then show ?case using 1 rr_exit_policy [OF 1(2) assms(7) 1(1)] ne by (auto simp: policy_of_def)
qed

lemma rr_policy_quiet: "pending g = {} \<Longrightarrow> \<forall>g'. step os g g' \<longrightarrow> policy_of g' = policy_of g"
  using rr_quiet_policy by blast

section \<open>Nobody is overtaken\<close>

lemma rotate1_nth: "Suc k < length q \<Longrightarrow> rotate1 q ! k = q ! Suc k"
  by (cases q) (simp_all add: nth_append)

text \<open>A job behind the front moves up by one place when the front gives way, and keeps its place otherwise.\<close>

lemma rr_step_place:
  assumes inv: "rr_sys_inv os g" and s: "step os g g'" and k: "Suc k < length (queue_of g)"
    and p: "p = (if pending g \<noteq> {} \<and> arrival_ptr g' = arrival_ptr g then k else Suc k)"
  shows "p < length (queue_of g') \<and> queue_of g' ! p = queue_of g ! Suc k"
  using s
proof cases
  case (wakes_up sig)
  have t: "if sig = SIGALRM then rr_after_timer g g'
      else queue_of g' = tl (queue_of g) \<and> arrival_ptr g' = arrival_ptr g"
    using rr_turn [OF inv wakes_up(1)] wakes_up(2) by (metis Inr_inject prod.inject)
  show ?thesis
  proof (cases "arrival_ptr g' = arrival_ptr g")
    case True
    then have "queue_of g' = rotate1 (queue_of g) \<or> queue_of g' = tl (queue_of g)"
      using t by (auto simp: rr_after_timer_def split: if_splits)
    moreover have "p = k" using p True wakes_up(1) by simp
    ultimately show ?thesis using k by (auto simp: rotate1_nth nth_tl)
  next
    case False
    then have "queue_of g' = queue_of g @ [arrival_ptr g..<arrival_ptr g']"
      using t by (auto simp: rr_after_timer_def split: if_splits)
    with False k p show ?thesis by (simp add: nth_append)
  qed
qed (use k p in simp_all)

end
