(* ===== verification/Children.thy ===== *)
theory Children
  imports System
begin

text \<open>
  What the program does to its children: it never terminates one. Every strategy only changes their
  priorities, and forks new ones.
\<close>

section \<open>The program never terminates a child\<close>

text \<open>
  No operation takes a process out of the kernel, and every process that is forked is put there.
\<close>

definition grows :: "os \<Rightarrow> world \<Rightarrow> world \<Rightarrow> bool" where
  "grows os w w' \<longleftrightarrow> (\<forall>p. prio w' p = None \<longrightarrow> prio w p = None) \<and> forks w \<le> forks w' \<and>
     (\<forall>k. forks w \<le> k \<and> k < forks w' \<longrightarrow> prio w' (fork os k) \<noteq> None)"

lemma grows_refl: "prio w' = prio w \<Longrightarrow> forks w' = forks w \<Longrightarrow> grows os w w'"
  by (auto simp: grows_def)

lemma grows_trans: "grows os a b \<Longrightarrow> grows os b c \<Longrightarrow> grows os a c"
  unfolding grows_def by (meson le_trans not_le)

lemma set_priority_grows: "set_priority os p m w = Inr w' \<Longrightarrow> grows os w w'"
  by (auto simp: set_priority_def scheduler_exit_def Let_def grows_def split: if_splits)

lemma assign_grows: "assign w p f = Inr w' \<Longrightarrow> grows os w w'"
  by (auto simp: assign_def grows_def split: ptr.splits if_splits)

lemma sched_add_grows: "sched_add os p g = Inr g' \<Longrightarrow> grows os (world_of g) (world_of g')"
  by (auto simp: sched_add_def add_process_FIFO_def add_process_PSJF_def process_control_defs Let_def
      split: ScheduleStrategy.splits ptr.splits if_splits
      dest!: assign_grows [where os = os] set_priority_grows intro: grows_refl)

lemma add_process_grows:
  assumes "add_process os p g = Inr g'"
  shows "grows os (world_of g) (world_of g')"
proof -
  obtain info w1 w2 w3 where w: "fork_a_child os (time_needed info) (world_of g) = (fork os (forks (world_of g)), w1)"
    "assign w1 p (\<lambda>i. i\<lparr>pid := fork os (forks (world_of g))\<rparr>) = Inr w2"
    "suspend_process os (fork os (forks (world_of g))) w2 = Inr w3" "sched_add os p (g\<lparr>world_of := w3\<rparr>) = Inr g'"
    using assms by (auto simp: add_process_def fork_a_child_def Let_def)
  have f: "forks w1 = Suc (forks (world_of g))" "\<And>q. prio w1 q = None \<Longrightarrow> prio (world_of g) q = None"
    using w(1) by (auto simp: fork_a_child_def Let_def split: if_splits)
  have a: "forks w2 = forks w1" "prio w2 = prio w1" using w(2) by (auto simp: assign_def split: ptr.splits if_splits)
  have s: "forks w3 = forks w2" "prio w3 = (prio w2)(fork os (forks (world_of g)) \<mapsto> low_prio os)"
    using w(3) by (auto simp: suspend_process_def set_priority_def scheduler_exit_def Let_def split: if_splits)
  have "grows os (world_of g) w3" unfolding grows_def using f a s by (auto simp: less_Suc_eq split: if_splits)
  then show ?thesis using sched_add_grows [OF w(4)] grows_trans by auto
qed

lemma add_simultaneous_grows:
  "add_simultaneous os a g = Inr (t, g') \<Longrightarrow> grows os (world_of g) (world_of g')"
proof (induction os a g arbitrary: t g' rule: add_simultaneous.induct)
  case (1 os a g)
  from 1(2) consider "g' = g"
    | g2 where "\<not> arrival_queue_empty g" "timeunits_until_next_arrival g = Inr 0"
        "add_process os (At (arrival_ptr g)) (g\<lparr>arrival_ptr := Suc (arrival_ptr g)\<rparr>) = Inr g2"
        "add_simultaneous os 0 g2 = Inr (t, g')"
    by (subst (asm) add_simultaneous.simps)
      (auto simp: get_arrived_process_def split: if_splits)
  then show ?case
  proof cases
    case 2
    have "grows os (world_of g2) (world_of g')"
      using 1(1) [OF 2(1,2) refl _ _ 2(3,4)] by (simp add: get_arrived_process_def)
    with add_process_grows [OF 2(3)] show ?thesis using grows_trans by auto
  qed (simp add: grows_refl)
qed

lemma handle_arrival_grows: "handle_arrival os g = Inr g' \<Longrightarrow> grows os (world_of g) (world_of g')"
  by (auto simp: handle_arrival_def get_arrived_process_def update_arrival_remaining_def
      dest!: add_process_grows add_simultaneous_grows intro: grows_trans)

lemma handle_timer_grows: "handle_timer os g = Inr g' \<Longrightarrow> grows os (world_of g) (world_of g')"
  by (auto simp: handle_timer_def timeslice_over_def update_timeslice_remaining_def grows_refl
      split: if_splits dest!: set_timer_world subtract_time_passed_world handle_arrival_grows)

lemma context_switch_grows: "context_switch os g = Inr g' \<Longrightarrow> grows os (world_of g) (world_of g')"
  by (auto simp: context_switch_def context_switch_FIFO_def context_switch_RR_def context_switch_SJF_def
      context_switch_PSJF_def process_control_defs Let_def grows_refl
      split: ScheduleStrategy.splits if_splits ptr.splits dest!: set_priority_grows intro: grows_trans)

lemma loop_iteration_grows:
  assumes "loop_iteration os sigs g = Inr (b, g')"
  shows "grows os (world_of g) (world_of g')"
proof -
  let ?h = "sigsuspend sigs g"
  obtain k where k: "k = ?h \<or> handle_timer os ?h = Inr k \<or> bindR (wait_null ?h) remove_current_process = Inr k"
    "g' = k \<or> context_switch os k = Inr g'"
    using assms unfolding loop_iteration_def handle_event_def
    by (auto split: if_splits) blast+
  have "grows os (world_of ?h) (world_of k)"
    using k(1) handle_timer_grows [of os ?h k] reap_frame(1) [of ?h k]
    by (auto simp: grows_def grows_refl simp del: sigsuspend_world)
  moreover have "grows os (world_of k) (world_of g')" using k(2) context_switch_grows [of os k g'] by (auto simp: grows_refl)
  ultimately show ?thesis using grows_trans by auto
qed

text \<open>A process that has arrived and is not in the kernel after a turn had terminated before it.\<close>

lemma turn_keeps_children:
  assumes "loop_iteration os sigs g = Inr (b, g')" "table_inv os g" "table_inv os g'"
    "i < arrival_ptr g'" "prio_of (world_of g') i = None"
  shows "i < arrival_ptr g \<and> prio_of (world_of g) i = None"
proof -
  have p: "forks (world_of g') = arrival_ptr g'" "forks (world_of g) = arrival_ptr g"
    "pid (procs (world_of g') ! i) = fork os i" "i < arrival_ptr g \<Longrightarrow> pid (procs (world_of g) ! i) = fork os i"
    using assms(2-4) by (auto simp: table_inv_def Let_def)
  have "grows os (world_of g) (world_of g')" using loop_iteration_grows [OF assms(1)] .
  then show ?thesis using p assms(4,5) unfolding grows_def prio_of_def by (metis not_le)
qed

end
