(* ===== verification/Paced.thy ===== *)
theory Paced
  imports Children Clock
begin

text \<open>
  Runs in which the children take their time: a child that is given the processor works off what it
  has to do, and terminates when nothing is left. The interface \<open>work_conserving\<close> says what a
  strategy must keep for the processor not to be idle while a child could run; from it follow the time
  at which the program ends and, for SJF, whether it fails.
\<close>

section \<open>Runs with execution times\<close>

text \<open>The units of time that a process needs; the loop of its child runs for none if it is negative.\<close>

definition demand :: "ProcessInfo \<Rightarrow> int" where
  "demand p = max 0 (time_needed p)"

text \<open>When the first \<open>k\<close> processes have terminated, if the processor has been busy since the first arrival.\<close>

definition busy_end :: "ProcessInfo list \<Rightarrow> nat \<Rightarrow> int" where
  "busy_end ps k = arrival_time (hd ps) + (\<Sum>p\<leftarrow>take k ps. demand p)"

text \<open>
  No process arrives after those before it have terminated; each group of simultaneous arrivals comes
  before they have.
\<close>

definition no_gap :: "ProcessInfo list \<Rightarrow> bool" where
  "no_gap ps \<longleftrightarrow> list_all (\<lambda>k. arrival_time (ps ! k) \<le> busy_end ps k) [1..<length ps]"

definition overlapping :: "ProcessInfo list \<Rightarrow> bool" where
  "overlapping ps \<longleftrightarrow> list_all (\<lambda>k. arrival_time (ps ! (k - 1)) < arrival_time (ps ! k) \<longrightarrow>
     arrival_time (ps ! k) < busy_end ps k) [1..<length ps]"

text \<open>
  \<open>t\<close> is the time that has passed, \<open>r\<close> what of it has passed since the timer was set, \<open>d\<close> the time that
  each child still needs. Time passes while no signal is pending, and not beyond the expiry of the timer;
  it is spent on a child that runs, if there is one. How long the handlers take is not counted. The order of
  what happens at the same time is left open.
\<close>

type_synonym configuration = "int \<times> int \<times> (nat \<Rightarrow> int) \<times> globals"

inductive pace :: "os \<Rightarrow> configuration \<Rightarrow> configuration \<Rightarrow> bool" for os where
  works: "pending g = {} \<Longrightarrow> runs (world_of g) i \<Longrightarrow> 0 < x \<Longrightarrow> x \<le> d i \<Longrightarrow>
     (\<not> timspec_is_zero (it_value g) \<Longrightarrow> r + x \<le> nanos (it_value g)) \<Longrightarrow>
     pace os (t, r, d, g) (t + x, r + x, d(i := d i - x), g)"
| idles: "pending g = {} \<Longrightarrow> (\<nexists>i. runs (world_of g) i) \<Longrightarrow> 0 < x \<Longrightarrow>
     (\<not> timspec_is_zero (it_value g) \<Longrightarrow> r + x \<le> nanos (it_value g)) \<Longrightarrow>
     pace os (t, r, d, g) (t + x, r + x, d, g)"
| fires: "pending g = {} \<Longrightarrow> \<not> timspec_is_zero (it_value g) \<Longrightarrow> r = nanos (it_value g) \<Longrightarrow>
     pace os (t, r, d, g) (t, 0, d, g\<lparr>alrm_pending := True, it_value := ts_zero\<rparr>)"
| exits: "pending g = {} \<Longrightarrow> runs (world_of g) i \<Longrightarrow> d i = 0 \<Longrightarrow>
     pace os (t, r, d, g) (t, r, d, g\<lparr>chld_pending := True, world_of := child_exits i (world_of g)\<rparr>)"
| turns: "pending g = {sig} \<Longrightarrow> loop_iteration os [sig] g = Inr (False, g') \<Longrightarrow>
     pace os (t, r, d, g) (t, if sig = SIGALRM then 0 else r, d, g')"

inductive_cases pace_cases: "pace os (t, r, d, g) c"

definition start_of :: "globals \<Rightarrow> configuration" where
  "start_of g0 = (0, 0, \<lambda>i. nanos (time_unit (timer_info g0)) * demand (procs (world_of g0) ! i), g0)"

inductive paced :: "os \<Rightarrow> globals \<Rightarrow> int \<Rightarrow> int \<Rightarrow> (nat \<Rightarrow> int) \<Rightarrow> globals \<Rightarrow> bool" for os g0 where
  paced_start: "start_of g0 = (t, r, d, g) \<Longrightarrow> paced os g0 t r d g"
| paced_step: "paced os g0 t r d g \<Longrightarrow> pace os (t, r, d, g) (t', r', d', g') \<Longrightarrow> paced os g0 t' r' d' g'"

lemmas paced_turns = paced_step [OF _ turns]

lemma paced_induct [consumes 1, case_names paced_start paced_works paced_idles paced_fires paced_exits paced_turn]:
  assumes "paced os g0 t r d g"
    and "P 0 0 (\<lambda>i. nanos (time_unit (timer_info g0)) * demand (procs (world_of g0) ! i)) g0"
    and "\<And>t r d g i x. paced os g0 t r d g \<Longrightarrow> P t r d g \<Longrightarrow> pending g = {} \<Longrightarrow> runs (world_of g) i \<Longrightarrow> 0 < x \<Longrightarrow>
      x \<le> d i \<Longrightarrow> (\<not> timspec_is_zero (it_value g) \<Longrightarrow> r + x \<le> nanos (it_value g)) \<Longrightarrow>
      P (t + x) (r + x) (d(i := d i - x)) g"
    and "\<And>t r d g x. paced os g0 t r d g \<Longrightarrow> P t r d g \<Longrightarrow> pending g = {} \<Longrightarrow> (\<nexists>i. runs (world_of g) i) \<Longrightarrow> 0 < x \<Longrightarrow>
      (\<not> timspec_is_zero (it_value g) \<Longrightarrow> r + x \<le> nanos (it_value g)) \<Longrightarrow> P (t + x) (r + x) d g"
    and "\<And>t r d g. paced os g0 t r d g \<Longrightarrow> P t r d g \<Longrightarrow> pending g = {} \<Longrightarrow> \<not> timspec_is_zero (it_value g) \<Longrightarrow>
      r = nanos (it_value g) \<Longrightarrow> P t 0 d (g\<lparr>alrm_pending := True, it_value := ts_zero\<rparr>)"
    and "\<And>t r d g i. paced os g0 t r d g \<Longrightarrow> P t r d g \<Longrightarrow> pending g = {} \<Longrightarrow> runs (world_of g) i \<Longrightarrow> d i = 0 \<Longrightarrow>
      P t r d (g\<lparr>chld_pending := True, world_of := child_exits i (world_of g)\<rparr>)"
    and "\<And>t r d g sig g'. paced os g0 t r d g \<Longrightarrow> P t r d g \<Longrightarrow> pending g = {sig} \<Longrightarrow>
      loop_iteration os [sig] g = Inr (False, g') \<Longrightarrow> P t (if sig = SIGALRM then 0 else r) d g'"
  shows "P t r d g"
  using assms(1)
proof (induction rule: paced.induct)
  case (paced_step t r d g t' r' d' g')
  from paced_step(2) show ?case
  proof cases
    case (works i x)
    then show ?thesis using assms(3) [OF paced_step(1,3)] by (simp add: fun_upd_def)
  next
    case (idles x)
    then show ?thesis using assms(4) [OF paced_step(1,3)] by simp
  next
    case fires
    then show ?thesis using assms(5) [OF paced_step(1,3)] by simp
  next
    case (exits i)
    then show ?thesis using assms(6) [OF paced_step(1,3)] by simp
  next
    case (turns sig)
    then show ?thesis using assms(7) [OF paced_step(1,3)] by simp
  qed
qed (use assms(2) in \<open>simp add: start_of_def\<close>)

text \<open>These are runs of the program.\<close>

lemma paced_reachable: "paced os g0 t r d g \<Longrightarrow> reachable os g0 g"
proof (induction rule: paced_induct)
  case (paced_fires t r d g)
  show ?case using reach_step [OF paced_fires.IH timer_fires] paced_fires by blast
next
  case (paced_exits t r d g i)
  show ?case using reach_step [OF paced_exits.IH child_terminates] paced_exits by blast
next
  case (paced_turn t r d g sig g')
  show ?case using reach_step [OF paced_turn.IH wakes_up] paced_turn by blast
qed (auto intro: reach_start)

text \<open>
  The program ends at time \<open>e\<close>: there is no run that goes on forever, and a run that does not go on has
  come, at this time, to a turn that leaves the loop.
\<close>

definition ends_at :: "os \<Rightarrow> globals \<Rightarrow> int \<Rightarrow> bool" where
  "ends_at os g0 e \<longleftrightarrow>
     (\<nexists>f. f 0 = start_of g0 \<and> (\<forall>n. pace os (f n) (f (Suc n)))) \<and>
     (\<forall>t r d g. paced os g0 t r d g \<and> (\<nexists>c. pace os (t, r, d, g) c) \<longrightarrow>
        t = e \<and> (\<exists>sig g'. pending g = {sig} \<and> loop_iteration os [sig] g = Inr (True, g')))"

text \<open>Hence no turn fails, the end is reached, and whenever the loop is left this is the time.\<close>

lemma ends_at_turn:
  assumes "ends_at os g0 e" "paced os g0 t r d g" "pending g = {sig}"
  obtains g' where "loop_iteration os [sig] g = Inr (False, g')"
  | g' where "loop_iteration os [sig] g = Inr (True, g')" "t = e"
proof (cases "\<exists>c. pace os (t, r, d, g) c")
  case True
  then show ?thesis
  proof (elim exE pace_cases, goal_cases)
    case (5 c sig' g')
    then show ?case using that(1) [of g'] assms(3) by simp
  qed (use assms(3) in \<open>simp_all add: pending_def\<close>)
next
  case False
  then obtain sig' g' where "t = e" "pending g = {sig'}" "loop_iteration os [sig'] g = Inr (True, g')"
    using assms(1,2) unfolding ends_at_def by blast
  then show ?thesis using that(2) [of g'] assms(3) by simp
qed

lemma ends_at_reached:
  assumes e: "ends_at os g0 e"
  obtains r d g sig g' where "paced os g0 e r d g" "pending g = {sig}" "loop_iteration os [sig] g = Inr (True, g')"
proof -
  let ?at = "\<lambda>c. paced os g0 (fst c) (fst (snd c)) (fst (snd (snd c))) (snd (snd (snd c)))"
  have "\<exists>c. ?at c \<and> (\<nexists>c'. pace os c c')"
  proof (rule ccontr)
    assume no: "\<nexists>c. ?at c \<and> (\<nexists>c'. pace os c c')"
    have "\<exists>f. \<forall>n. (?at (f n) \<and> (n = 0 \<longrightarrow> f n = start_of g0)) \<and> pace os (f n) (f (Suc n))"
    proof (rule dependent_nat_choice)
      show "\<exists>c. ?at c \<and> (0 = (0::nat) \<longrightarrow> c = start_of g0)"
        using paced_start by (intro exI [of _ "start_of g0"]) simp
      show "\<exists>c'. (?at c' \<and> (Suc n = 0 \<longrightarrow> c' = start_of g0)) \<and> pace os c c'"
        if "?at c \<and> (n = 0 \<longrightarrow> c = start_of g0)" for c n
        using that no paced_step [of os g0 "fst c" "fst (snd c)"] by (metis prod.collapse nat.distinct(1))
    qed
    then show False using e unfolding ends_at_def by blast
  qed
  then show ?thesis using e that unfolding ends_at_def by (metis prod.collapse)
qed

lemma busy_end_sum: "k \<le> length ps \<Longrightarrow> busy_end ps k = arrival_time (hd ps) + (\<Sum>i<k. demand (ps ! i))"
  by (simp add: busy_end_def sum_list_sum_nth atLeast0LessThan)

lemma busy_end_mono:
  assumes "j \<le> k" "k \<le> length ps"
  shows "busy_end ps j \<le> busy_end ps k"
proof -
  have "(\<Sum>i<j. demand (ps ! i)) \<le> (\<Sum>i<k. demand (ps ! i))"
    using assms(1) by (intro sum_mono2) (auto simp: demand_def)
  then show ?thesis using assms by (simp add: busy_end_sum)
qed

section \<open>The interface\<close>

locale work_conserving = punctual +
  fixes left :: "globals \<Rightarrow> nat"
  assumes clock_os: "clock g T \<Longrightarrow> os_ok os"
    and clock_bound: "clock g T \<Longrightarrow> timer_value g = Inr v \<Longrightarrow> 0 \<le> nanos v \<and> (\<not> arrival_queue_empty g \<longrightarrow>
      nanos v \<le> nanos (time_unit (timer_info g)) * (arrival_times g ! arrival_ptr g - T))"
    and clock_armed: "clock g T \<Longrightarrow> \<not> alrm_pending g \<Longrightarrow> \<not> arrival_queue_empty g \<Longrightarrow> \<not> timspec_is_zero (it_value g)"
    and clock_absent: "clock g T \<Longrightarrow> arrival_ptr g \<le> i \<Longrightarrow> i < length (procs (world_of g)) \<Longrightarrow>
      prio_of (world_of g) i = None"
    and clock_busy: "clock g T \<Longrightarrow> pending g = {} \<Longrightarrow> arrival_queue_empty g \<Longrightarrow> \<exists>i. runs (world_of g) i"
    and clock_last: "clock g T \<Longrightarrow> pending g = {sig} \<Longrightarrow> loop_iteration os [sig] g = Inr (True, g') \<Longrightarrow>
      table_inv os g' \<and> arrival_queue_empty g' \<and> (\<forall>i < length (procs (world_of g')). prio_of (world_of g') i = None)"
    and clock_slice: "clock g T \<Longrightarrow> pending g = {SIGALRM} \<Longrightarrow> loop_iteration os [SIGALRM] g = Inr (False, g') \<Longrightarrow>
      arrival_ptr g' = arrival_ptr g \<Longrightarrow> timer_value g = Inr v \<Longrightarrow> 0 < nanos v"
    and clock_left: "clock g T \<Longrightarrow> step os g g' \<Longrightarrow>
      \<not> (pending g = {SIGALRM} \<and> arrival_ptr g' = arrival_ptr g) \<Longrightarrow> left g' < left g"
begin

lemma on_time_clock: "on_time g E \<Longrightarrow> \<exists>T. clock g T"
  by (auto simp: on_time_def)

lemma clock_table: "clock g T \<Longrightarrow> table_inv os g"
  using clock_arrivals by blast

lemma clock_runs: "clock g T \<Longrightarrow> runs (world_of g) i \<Longrightarrow> i < arrival_ptr g"
  using clock_absent [of g T i] by (force simp: runs_def)

text \<open>A step of the program that takes no time.\<close>

lemma instant_step:
  assumes "step os g g'" "on_time g E" "timer_ran g g' = 0"
  shows "on_time g' E \<and> time_unit (timer_info g') = time_unit (timer_info g)"
  using on_time_step [OF assms(1,2)] assms(3) by simp

lemma turn_instant:
  assumes "on_time g E" "pending g = {sig}" "loop_iteration os [sig] g = Inr (False, g')"
  shows "timer_ran g g' = 0"
proof (cases sig)
  case SIGCHLD
  obtain T where "clock g T" using on_time_clock [OF assms(1)] ..
  then show ?thesis using clock_exit_turn [of g T g'] assms SIGCHLD by (simp add: timer_ran_def)
qed (use assms(2) in \<open>simp_all add: timer_ran_def\<close>)

text \<open>The time that has passed is what the timer has run, and what has passed since it was set.\<close>

definition paced_time :: "int \<Rightarrow> int \<Rightarrow> globals \<Rightarrow> bool" where
  "paced_time t r g \<longleftrightarrow> on_time g (t - r) \<and> 0 \<le> r \<and> (if alrm_pending g then r = 0
     else \<not> timspec_is_zero (it_value g) \<longrightarrow> r \<le> nanos (it_value g))"

lemma paced_clock: "paced_time t r g \<Longrightarrow> \<exists>T. clock g T"
  using on_time_clock by (auto simp: paced_time_def)

lemma on_time_paced: "on_time g t \<Longrightarrow> paced_time t 0 g"
  using clock_bound by (auto simp: paced_time_def on_time_def Let_def)

lemma paced_timed:
  assumes "paced os g0 t r d g" "on_time g0 0"
  shows "paced_time t r g"
  using assms
proof (induction rule: paced_induct)
  case paced_start
  then show ?case by (rule on_time_paced)
next
  case (paced_fires t r d g)
  let ?h = "g\<lparr>alrm_pending := True, it_value := ts_zero\<rparr>"
  have "on_time ?h (t - r + timer_ran g ?h)"
    using on_time_step [OF timer_fires] paced_fires by (simp add: paced_time_def)
  with paced_fires show ?case by (simp add: paced_time_def timer_ran_def)
next
  case (paced_exits t r d g i)
  let ?h = "g\<lparr>chld_pending := True, world_of := child_exits i (world_of g)\<rparr>"
  have "on_time ?h (t - r)"
    using instant_step [OF child_terminates] paced_exits by (simp add: paced_time_def timer_ran_def)
  with paced_exits show ?case by (simp add: paced_time_def)
next
  case (paced_turn t r d g sig g')
  have on: "on_time g (t - r)" using paced_turn by (simp add: paced_time_def)
  then have on': "on_time g' (t - r)" using instant_step [OF wakes_up] turn_instant paced_turn.hyps by blast
  show ?case
  proof (cases sig)
    case SIGALRM
    then have "on_time g' t" using on' paced_turn by (auto simp: paced_time_def)
    with SIGALRM show ?thesis by (simp add: on_time_paced)
  next
    case SIGCHLD
    then have l: "loop_iteration os [SIGCHLD] g = Inr (False, g')" "pending g = {SIGCHLD}" using paced_turn by simp_all
    obtain T where "clock g T" using on_time_clock [OF on] ..
    then have "\<not> alrm_pending g'" using clock_exit_turn [OF _ l(2,1)] by simp
    then show ?thesis
      using on' exit_turn_timer(2) [OF l(1)] paced_turn SIGCHLD by (simp add: paced_time_def)
  qed (use paced_turn in simp)
qed (auto simp: paced_time_def)

text \<open>No process is overdue.\<close>

lemma paced_due:
  assumes "paced_time t r g" "\<not> arrival_queue_empty g"
  shows "t \<le> nanos (time_unit (timer_info g)) * arrival_times g ! arrival_ptr g"
proof -
  let ?u = "nanos (time_unit (timer_info g))" let ?a = "arrival_times g ! arrival_ptr g"
  obtain T v where T: "clock g T" "timer_value g = Inr v"
    "if alrm_pending g then t - r = ?u * T + nanos v else t - r = ?u * T \<and> it_value g = v"
    using assms(1) by (auto simp: paced_time_def on_time_def Let_def split: if_splits)
  have v: "nanos v \<le> ?u * (?a - T)" using clock_bound [OF T(1,2)] assms(2) by blast
  moreover have "r \<le> nanos v" if "\<not> alrm_pending g"
    using clock_armed [OF T(1) that assms(2)] assms(1) T(3) that by (simp add: paced_time_def)
  ultimately show ?thesis
    using T(3) assms(1) by (auto simp: paced_time_def right_diff_distrib split: if_splits)
qed

text \<open>A child that has terminated has nothing left to do, one that has not been forked has everything.\<close>

definition paced_todo :: "globals \<Rightarrow> (nat \<Rightarrow> int) \<Rightarrow> globals \<Rightarrow> bool" where
  "paced_todo g0 d g \<longleftrightarrow> (\<forall>i. 0 \<le> d i) \<and> (\<forall>i < arrival_ptr g. prio_of (world_of g) i = None \<longrightarrow> d i = 0) \<and>
     (\<forall>i. arrival_ptr g \<le> i \<longrightarrow> d i = nanos (time_unit (timer_info g0)) * demand (procs (world_of g0) ! i))"

lemma paced_todoD:
  assumes "paced os g0 t r d g" "on_time g0 0" "arrival_ptr g0 = 0"
  shows "paced_todo g0 d g"
  using assms
proof (induction rule: paced_induct)
  case paced_start
  obtain T where "clock g0 T" using on_time_clock [OF paced_start(1)] ..
  then have "0 < nanos (time_unit (timer_info g0))" using clock_arrivals [of g0 T] by (simp add: arrival_clock_def Let_def)
  then show ?case using paced_start by (simp add: paced_todo_def demand_def)
next
  case (paced_works t r d g i x)
  obtain T where T: "clock g T" using paced_clock paced_timed [OF paced_works.hyps(1) paced_works.prems(1)] by blast
  then have "i < arrival_ptr g" using clock_runs paced_works(3) by blast
  moreover have "prio_of (world_of g) i \<noteq> None" using paced_works(3) by (auto simp: runs_def)
  ultimately show ?case using paced_works by (auto simp: paced_todo_def)
next
  case (paced_exits t r d g i)
  obtain T where T: "clock g T" using paced_clock paced_timed [OF paced_exits.hyps(1) paced_exits.prems(1)] by blast
  have i: "i < arrival_ptr g" using clock_runs [OF T paced_exits(3)] .
  have "j = i" if "j < arrival_ptr g" "pid (procs (world_of g) ! j) = pid (procs (world_of g) ! i)" for j
    using table_pid_unique [OF clock_os [OF T] clock_table [OF T] i _ that(2)] clock_table [OF T] that(1)
    by (simp add: table_inv_def Let_def)
  then show ?case using paced_exits by (auto simp: paced_todo_def)
next
  case (paced_turn t r d g sig g')
  obtain T T' where T: "clock g T" "clock g' T'"
    using paced_timed [OF paced_turn.hyps(1) paced_turn.prems(1)]
      paced_timed [OF paced_turns [OF paced_turn.hyps] paced_turn.prems(1)]
      paced_clock by blast
  note tab = clock_table [OF T(1)] clock_table [OF T(2)]
  have "arrival_ptr g \<le> arrival_ptr g'"
    using loop_iteration_grows [OF paced_turn(3)] tab by (simp add: grows_def table_inv_def Let_def)
  then show ?case
    using paced_turn turn_keeps_children [OF paced_turn(3) tab] by (auto simp: paced_todo_def)
qed (auto simp: paced_todo_def)

text \<open>If no child runs, all that have arrived have terminated: the one of highest priority would run.\<close>

lemma highest_runs:
  assumes "i < length (procs w)" "prio_of w i \<noteq> None"
  shows "\<exists>j. runs w j"
proof -
  let ?J = "{j. j < length (procs w) \<and> prio_of w j \<noteq> None}"
  define m where "m = Max ((\<lambda>j. the (prio_of w j)) ` ?J)"
  have f: "finite ?J" "?J \<noteq> {}" using assms by auto
  then have "m \<in> (\<lambda>j. the (prio_of w j)) ` ?J" unfolding m_def by (intro Max_in) auto
  then obtain j where j: "j < length (procs w)" "prio_of w j = Some m" by auto
  have "m' \<le> m" if "k < length (procs w)" "prio_of w k = Some m'" for k m'
    unfolding m_def using f that by (intro Max_ge) (auto intro: rev_image_eqI)
  with j show ?thesis by (auto simp: runs_def)
qed

lemma paced_idle:
  assumes "paced_todo g0 d g" "clock g T" "\<nexists>i. runs (world_of g) i" "i < arrival_ptr g"
  shows "d i = 0"
proof -
  have "i < length (procs (world_of g))" using clock_table [OF assms(2)] assms(4) by (simp add: table_inv_def Let_def)
  then have "prio_of (world_of g) i = None" using highest_runs assms(3) by blast
  then show ?thesis using assms(1,4) by (simp add: paced_todo_def)
qed

text \<open>What a table says of the state when no alarm is pending: the next process starts a group of arrivals.\<close>

lemma next_group:
  assumes "paced_time t r g" "\<not> alrm_pending g" "\<not> arrival_queue_empty g" "0 < arrival_ptr g"
  shows "arrival_times g ! (arrival_ptr g - 1) < arrival_times g ! arrival_ptr g"
proof -
  obtain T where T: "clock g T" "T < arrival_times g ! arrival_ptr g"
    using assms(1-3) by (auto simp: paced_time_def on_time_def Let_def)
  have "arrival_times g ! (arrival_ptr g - 1) \<le> T"
    using clock_arrivals [OF T(1)] assms(4) by (simp add: arrival_clock_def Let_def)
  with T(2) show ?thesis by simp
qed

lemma paced_unit:
  assumes "paced os g0 t r d g" "on_time g0 0"
  shows "time_unit (timer_info g) = time_unit (timer_info g0)" "0 < nanos (time_unit (timer_info g0))"
    "arrival_times g = arrival_times g0" "length (procs (world_of g)) = length (procs (world_of g0))"
proof -
  obtain E where "timed os g0 E g" using reachable_timed [OF paced_reachable [OF assms(1)]] ..
  then show "time_unit (timer_info g) = time_unit (timer_info g0)" using on_time_timed assms(2) by blast
  obtain T where "clock g0 T" using on_time_clock [OF assms(2)] ..
  then show "0 < nanos (time_unit (timer_info g0))" using clock_arrivals [of g0 T] by (simp add: arrival_clock_def Let_def)
  note tab = table_data_cong(2,3) [OF reachable_table [OF paced_reachable [OF assms(1)]]]
  show "arrival_times g = arrival_times g0" "length (procs (world_of g)) = length (procs (world_of g0))"
    using tab by simp_all
qed

text \<open>
  Between the first arrival and the end no time is lost, provided that the processor is not idle while
  there are processes to come.
\<close>

definition conserved :: "globals \<Rightarrow> int \<Rightarrow> (nat \<Rightarrow> int) \<Rightarrow> globals \<Rightarrow> bool" where
  "conserved g0 t d g \<longleftrightarrow> (0 < arrival_ptr g \<longrightarrow> t + (\<Sum>i < arrival_ptr g. d i) =
     nanos (time_unit (timer_info g0)) * busy_end (procs (world_of g0)) (arrival_ptr g))"

lemma conserved_idle:
  assumes "paced os g0 t r d g" "on_time g0 0" "arrival_ptr g0 = 0" "conserved g0 t d g" "0 < arrival_ptr g"
    "\<nexists>i. runs (world_of g) i"
  shows "t = nanos (time_unit (timer_info g0)) * busy_end (procs (world_of g0)) (arrival_ptr g)"
proof -
  obtain T where "clock g T" using paced_clock [OF paced_timed [OF assms(1,2)]] ..
  then have "(\<Sum>i < arrival_ptr g. d i) = 0"
    using paced_idle [OF paced_todoD [OF assms(1-3)] _ assms(6)] by simp
  with assms(4,5) show ?thesis by (simp add: conserved_def)
qed

lemma sum_split: "m \<le> n \<Longrightarrow> (\<Sum>i<n. f i) = (\<Sum>i<m. f i) + (\<Sum>i=m..<n. f i)" for f :: "nat \<Rightarrow> int"
  using sum.atLeastLessThan_concat [of 0 m n f] by (simp add: atLeast0LessThan)

text \<open>Processes are forked when an alarm is handled, and at the time it was handled they were due.\<close>

lemma arrival_turn:
  assumes p: "paced os g0 t r d g" "on_time g0 0" and turn: "pending g = {sig}" "loop_iteration os [sig] g = Inr (False, g')"
    and k: "arrival_ptr g \<le> k" "k < arrival_ptr g'"
  shows "nanos (time_unit (timer_info g0)) * arrival_times g0 ! k \<le> t"
proof -
  let ?u = "nanos (time_unit (timer_info g0))"
  note p' = paced_turns [OF p(1) turn]
  note u' = paced_unit [OF p' p(2)]
  have sig: "sig = SIGALRM"
  proof (rule ccontr)
    assume "sig \<noteq> SIGALRM"
    then have "loop_iteration os [SIGCHLD] g = Inr (False, g')" using turn by (cases sig) auto
    from exit_turn_timer(3) [OF this] k show False by simp
  qed
  have on: "on_time g t" "on_time g' t"
    using paced_timed [OF p] paced_timed [OF p' p(2)] turn(1) sig by (auto simp: paced_time_def)
  obtain T v where T: "clock g T" "timer_value g = Inr v" using on(1) by (auto simp: on_time_def)
  have "\<not> alrm_pending g'" using clock_alarm_turn [OF T(1) _ _ T(2), of g'] turn sig by auto
  then obtain S where S: "clock g' S" "t = ?u * S" using on(2) u'(1) by (auto simp: on_time_def Let_def)
  have "arrival_times g' ! k \<le> S" using clock_arrivals [OF S(1)] k(2) by (simp add: arrival_clock_def Let_def)
  then show ?thesis using u'(2,3) S(2) by (simp add: mult_le_cancel_left_pos)
qed

text \<open>Time is counted from the first arrival.\<close>

lemma first_arrival:
  assumes p: "paced os g0 t r d g" "on_time g0 0" and turn: "pending g = {sig}" "loop_iteration os [sig] g = Inr (False, g')"
    and ptr: "arrival_ptr g = 0" "0 < arrival_ptr g'"
  shows "t = nanos (time_unit (timer_info g0)) * arrival_time (hd (procs (world_of g0)))"
proof -
  let ?u = "nanos (time_unit (timer_info g0))" let ?ps = "procs (world_of g0)"
  note p' = paced_turns [OF p(1) turn]
  note u = paced_unit [OF p] and u' = paced_unit [OF p' p(2)]
  obtain T S where T: "clock g T" "clock g' S"
    using paced_clock [OF paced_timed [OF p]] paced_clock [OF paced_timed [OF p' p(2)]] by blast
  have ne: "?ps \<noteq> []" using clock_table [OF T(2)] ptr(2) u'(4) by (auto simp: table_inv_def Let_def)
  then have h: "arrival_times g0 ! 0 = arrival_time (hd ?ps)" by (cases ?ps) auto
  have "\<not> arrival_queue_empty g" using table_inv_queue [OF clock_table [OF T(1)]] ptr(1) ne u(4) by auto
  then have "t \<le> ?u * arrival_time (hd ?ps)" using paced_due [OF paced_timed [OF p]] u(1,3) ptr(1) h by simp
  then show ?thesis using arrival_turn [OF p turn, of 0] ptr h by simp
qed

lemma conserved_turn:
  assumes p: "paced os g0 t r d g" "on_time g0 0" "arrival_ptr g0 = 0" and c: "conserved g0 t d g"
    and turn: "pending g = {sig}" "loop_iteration os [sig] g = Inr (False, g')"
  shows "conserved g0 t d g'"
proof -
  let ?u = "nanos (time_unit (timer_info g0))" let ?m = "arrival_ptr g" let ?n = "arrival_ptr g'"
  let ?ps = "procs (world_of g0)"
  note p' = paced_turns [OF p(1) turn]
  obtain T T' where T: "clock g T" "clock g' T'"
    using paced_clock [OF paced_timed [OF p(1,2)]] paced_clock [OF paced_timed [OF p' p(2)]] by blast
  note tab = clock_table [OF T(1)] clock_table [OF T(2)]
  have mn: "?m \<le> ?n" using loop_iteration_grows [OF turn(2)] tab by (simp add: grows_def table_inv_def Let_def)
  have n: "?n \<le> length ?ps" using tab(2) paced_unit(4) [OF p' p(2)] by (simp add: table_inv_def Let_def)
  have "t + (\<Sum>i<?m. d i) = ?u * busy_end ?ps ?m" if "0 < ?n"
    using c first_arrival [OF p(1,2) turn _ that] by (cases "0 < ?m") (auto simp: conserved_def busy_end_def)
  moreover have "(\<Sum>i=?m..<?n. d i) = (\<Sum>i=?m..<?n. ?u * demand (?ps ! i))"
    using paced_todoD [OF p] by (intro sum.cong) (simp_all add: paced_todo_def)
  ultimately have "t + (\<Sum>i<?n. d i) = ?u * busy_end ?ps ?n" if "0 < ?n"
    using that mn n
    by (simp add: sum_split [OF mn] busy_end_sum distrib_left sum_distrib_left)
  then show ?thesis by (simp add: conserved_def)
qed

text \<open>The processor is idle only before the first arrival.\<close>

definition never_idle :: "globals \<Rightarrow> bool" where
  "never_idle g0 \<longleftrightarrow> (\<forall>g. reachable os g0 g \<longrightarrow> pending g = {} \<longrightarrow> 0 < arrival_ptr g \<longrightarrow> (\<exists>i. runs (world_of g) i))"

lemma gap_free_busy:
  assumes p: "paced os g0 t r d g" "on_time g0 0" "arrival_ptr g0 = 0" and c: "conserved g0 t d g"
    and q: "pending g = {}" "0 < arrival_ptr g" and gap: "no_gap (procs (world_of g0))"
    and idle: "\<nexists>i. runs (world_of g) i" and x: "0 < x" "\<not> timspec_is_zero (it_value g) \<Longrightarrow> r + x \<le> nanos (it_value g)"
  shows False
proof -
  let ?u = "nanos (time_unit (timer_info g0))" let ?n = "arrival_ptr g" let ?ps = "procs (world_of g0)"
  have p': "paced os g0 (t + x) (r + x) d g" using paced_step [OF p(1) idles [OF q(1) idle x]] .
  note u = paced_unit [OF p(1,2)]
  obtain T where T: "clock g T" using paced_clock [OF paced_timed [OF p(1,2)]] ..
  have ne: "\<not> arrival_queue_empty g" using clock_busy [OF T q(1)] idle by blast
  then have n: "?n < length ?ps"
    using table_inv_queue [OF clock_table [OF T]] clock_table [OF T] u(4) by (auto simp: table_inv_def Let_def)
  then have "arrival_times g ! ?n \<le> busy_end ?ps ?n"
    using gap q(2) u(3) by (simp add: no_gap_def list_all_iff)
  then have "?u * arrival_times g ! ?n \<le> ?u * busy_end ?ps ?n" using u(2) by (simp add: mult_le_cancel_left_pos)
  moreover have "t + x \<le> ?u * arrival_times g ! ?n" using paced_due [OF paced_timed [OF p' p(2)] ne] u(1) by simp
  ultimately show False using conserved_idle [OF p c q(2) idle] x(1) by simp
qed

lemma conservation:
  assumes "paced os g0 t r d g" "on_time g0 0" "arrival_ptr g0 = 0" "no_gap (procs (world_of g0)) \<or> never_idle g0"
  shows "conserved g0 t d g"
  using assms
proof (induction rule: paced_induct)
  case (paced_works t r d g i x)
  obtain T where "clock g T" using paced_clock paced_timed [OF paced_works.hyps(1) paced_works.prems(1)] by blast
  then have i: "i < arrival_ptr g" using clock_runs paced_works.hyps(3) by blast
  have "(\<Sum>j < arrival_ptr g. (d(i := d i - x)) j) = (\<Sum>j < arrival_ptr g. d j - (if j = i then x else 0))"
    by (intro sum.cong) simp_all
  also have "\<dots> = (\<Sum>j < arrival_ptr g. d j) - x" using i by (simp add: sum_subtractf)
  finally show ?case using paced_works by (simp add: conserved_def)
next
  case (paced_idles t r d g x)
  have "arrival_ptr g = 0"
  proof (rule ccontr)
    assume "arrival_ptr g \<noteq> 0"
    then have "no_gap (procs (world_of g0))"
      using paced_idles paced_reachable [OF paced_idles.hyps(1)] unfolding never_idle_def by blast
    then show False
      using gap_free_busy [OF paced_idles.hyps(1) paced_idles.prems(1,2)] paced_idles \<open>arrival_ptr g \<noteq> 0\<close> by blast
  qed
  then show ?case by (simp add: conserved_def)
next
  case (paced_turn t r d g sig g')
  then show ?case using conserved_turn by blast
qed (simp_all add: conserved_def)

text \<open>If the processor cannot be idle, no process is forked that is due later than the others take.\<close>

lemma gap_not_passed:
  assumes "paced os g0 t r d g" "on_time g0 0" "arrival_ptr g0 = 0" "never_idle g0" "k < arrival_ptr g"
  shows "arrival_times g0 ! k \<le> busy_end (procs (world_of g0)) k"
  using assms
proof (induction rule: paced_induct)
  case (paced_turn t r d g sig g')
  let ?u = "nanos (time_unit (timer_info g0))" let ?ps = "procs (world_of g0)"
  note p = paced_turn.hyps(1) paced_turn.prems(1,2) and turn = paced_turn.hyps(2,3)
  note u = paced_unit [OF p(1,2)]
  note p' = paced_turns [OF p(1) turn]
  show ?case
  proof (cases "k < arrival_ptr g")
    case False
    then have k: "arrival_ptr g \<le> k" "k < arrival_ptr g'" using paced_turn.prems by simp_all
    obtain T' where "clock g' T'" using paced_clock [OF paced_timed [OF p' p(2)]] ..
    then have n: "k < length ?ps" using clock_table k(2) paced_unit(4) [OF p' p(2)] by (fastforce simp: table_inv_def Let_def)
    have "t \<le> ?u * busy_end ?ps (arrival_ptr g)"
    proof (cases "arrival_ptr g = 0")
      case True
      then show ?thesis using first_arrival [OF p(1,2) turn] k by (simp add: busy_end_def)
    next
      case False
      have "0 \<le> (\<Sum>i < arrival_ptr g. d i)" using paced_todoD [OF p] by (intro sum_nonneg) (simp add: paced_todo_def)
      then show ?thesis using conservation [OF p] paced_turn.prems(3) False by (simp add: conserved_def)
    qed
    also have "\<dots> \<le> ?u * busy_end ?ps k" using busy_end_mono [OF k(1)] n u(2) by (simp add: mult_le_cancel_left_pos)
    finally have "?u * arrival_times g0 ! k \<le> ?u * busy_end ?ps k" using arrival_turn [OF p(1,2) turn k] by simp
    then show ?thesis using u(2) by (simp only: mult_le_cancel_left_pos)
  qed (use paced_turn in blast)
qed simp_all

lemma all_arrived_when_left:
  assumes p: "paced os g0 t r d g" "on_time g0 0" and turn: "pending g = {sig}" "loop_iteration os [sig] g = Inr (True, g')"
  shows "arrival_ptr g = length (procs (world_of g0))" "i < length (procs (world_of g0)) \<Longrightarrow> prio_of (world_of g) i = None"
proof -
  obtain T where T: "clock g T" using paced_clock [OF paced_timed [OF p(1,2)]] ..
  note last = clock_last [OF T turn] and n = paced_unit(4) [OF p(1,2)]
  have "arrival_ptr g' = length (procs (world_of g'))" using last table_inv_queue by blast
  moreover have "length (procs (world_of g')) = length (procs (world_of g))"
    using table_data_cong(2) [OF loop_iteration_table [OF turn(2)]] .
  ultimately have dead: "i < arrival_ptr g \<and> prio_of (world_of g) i = None" if "i < length (procs (world_of g0))" for i
    using turn_keeps_children [OF turn(2) clock_table [OF T] conjunct1 [OF last]] last that n by simp
  then show "arrival_ptr g = length (procs (world_of g0))"
    using clock_table [OF T] n by (metis le_antisym le_neq_implies_less less_irrefl table_inv_def)
  show "prio_of (world_of g) i = None" if "i < length (procs (world_of g0))" using dead [OF that] ..
qed

text \<open>Hence the loop is left when the first arrival and all the execution times have passed.\<close>

lemma left_when_done:
  assumes p: "paced os g0 t r d g" "on_time g0 0" "arrival_ptr g0 = 0" "no_gap (procs (world_of g0)) \<or> never_idle g0"
    and ps: "procs (world_of g0) \<noteq> []" and turn: "pending g = {sig}" "loop_iteration os [sig] g = Inr (True, g')"
  shows "t = nanos (time_unit (timer_info g0)) * busy_end (procs (world_of g0)) (length (procs (world_of g0)))"
proof -
  note all = all_arrived_when_left [OF p(1,2) turn]
  have "(\<Sum>i < arrival_ptr g. d i) = 0" using paced_todoD [OF p(1-3)] all by (simp add: paced_todo_def)
  then show ?thesis using conservation [OF p] ps all(1) by (simp add: conserved_def)
qed

section \<open>Such a run goes on to the end\<close>

text \<open>If no signal is pending, time passes or something happens.\<close>

lemma pace_next:
  assumes p: "paced os g0 t r d g" "on_time g0 0" "arrival_ptr g0 = 0" and q: "pending g = {}"
  shows "\<exists>c. pace os (t, r, d, g) c"
proof -
  note pt = paced_timed [OF p(1,2)]
  obtain T where T: "clock g T" using paced_clock [OF pt] ..
  have r: "r \<le> nanos (it_value g)" if "\<not> timspec_is_zero (it_value g)" using pt q that by (simp add: paced_time_def)
  show ?thesis
  proof (cases "\<not> timspec_is_zero (it_value g) \<and> r = nanos (it_value g)")
    case True
    then show ?thesis using fires [OF q] by blast
  next
    case late: False
    show ?thesis
    proof (cases "\<exists>i. runs (world_of g) i")
      case True
      then obtain i where i: "runs (world_of g) i" ..
      have d: "0 \<le> d i" using paced_todoD [OF p] by (simp add: paced_todo_def)
      show ?thesis
      proof (cases "d i = 0")
        case False
        then show ?thesis using works [OF q i, of 1 d r os t] d r late by force
      qed (use exits [OF q i] in blast)
    next
      case False
      then have "\<not> timspec_is_zero (it_value g)" using clock_busy [OF T q] clock_armed [OF T] q by auto
      then show ?thesis using idles [OF q False, of 1 r os t d] r late by force
    qed
  qed
qed

text \<open>
  The time of the last alarm that was handled does not go back, and advances with every step that brings
  the program no nearer to its end.
\<close>

definition handled :: "globals \<Rightarrow> int \<Rightarrow> int" where
  "handled g E = E - (case timer_value g of Inr v \<Rightarrow> if alrm_pending g then nanos v else 0 | Inl e \<Rightarrow> 0)"

lemma handled_step:
  assumes "step os g g'" "on_time g E"
  shows "handled g E \<le> handled g' (E + timer_ran g g') \<and>
     (left g' < left g \<or> handled g E < handled g' (E + timer_ran g g'))"
  using assms
proof (induction rule: step.induct)
  case (timer_fires g)
  let ?h = "g\<lparr>alrm_pending := True, it_value := ts_zero\<rparr>"
  obtain T v where T: "clock g T" "timer_value g = Inr v" "it_value g = v"
    using timer_fires by (auto simp: on_time_def Let_def)
  have "timer_value ?h = Inr v" using T(2) timer_value_cong [of ?h g] by simp
  moreover have "left ?h < left g" using clock_left [OF T(1) step.timer_fires] timer_fires by simp
  ultimately show ?case using timer_fires T by (simp add: handled_def timer_ran_def)
next
  case (child_terminates g i)
  let ?h = "g\<lparr>chld_pending := True, world_of := child_exits i (world_of g)\<rparr>"
  obtain T where T: "clock g T" using on_time_clock child_terminates by blast
  have "timer_value ?h = timer_value g" using timer_value_cong [of ?h g] by simp
  moreover have "left ?h < left g" using clock_left [OF T step.child_terminates] child_terminates by simp
  ultimately show ?case using child_terminates by (auto simp: handled_def timer_ran_def split: sum.splits)
next
  case (wakes_up g sig g')
  obtain T v where T: "clock g T" "timer_value g = Inr v" using wakes_up by (auto simp: on_time_def)
  have left: "left g' < left g" if "\<not> (pending g = {SIGALRM} \<and> arrival_ptr g' = arrival_ptr g)"
    using clock_left [OF T(1) step.wakes_up [OF wakes_up(1,2)] that] .
  show ?case
  proof (cases sig)
    case SIGALRM
    then have p: "pending g = {SIGALRM}" and l: "loop_iteration os [SIGALRM] g = Inr (False, g')" using wakes_up by simp_all
    have "\<not> alrm_pending g'" using clock_alarm_turn [OF T(1) p l T(2)] by auto
    moreover have "0 \<le> nanos v" using clock_bound [OF T] by simp
    moreover have "0 < nanos v" if "arrival_ptr g' = arrival_ptr g" using clock_slice [OF T(1) p l that T(2)] .
    ultimately show ?thesis using left p T(2) by (auto simp: handled_def timer_ran_def split: sum.splits)
  next
    case SIGCHLD
    then have p: "pending g = {SIGCHLD}" and l: "loop_iteration os [SIGCHLD] g = Inr (False, g')" using wakes_up by simp_all
    have "\<not> alrm_pending g'" using clock_exit_turn [OF T(1) p l] by simp
    then show ?thesis using left p T(2) exit_turn_timer(7) [OF l] by (simp add: handled_def timer_ran_def)
  qed (use wakes_up in simp)
qed

lemma paced_before_end:
  assumes p: "paced os g0 t r d g" "on_time g0 0" "arrival_ptr g0 = 0" "no_gap (procs (world_of g0)) \<or> never_idle g0"
    and ps: "procs (world_of g0) \<noteq> []"
  shows "t \<le> nanos (time_unit (timer_info g0)) * busy_end (procs (world_of g0)) (length (procs (world_of g0)))"
proof -
  let ?u = "nanos (time_unit (timer_info g0))" let ?ps = "procs (world_of g0)" let ?n = "arrival_ptr g"
  note pt = paced_timed [OF p(1,2)] and u = paced_unit [OF p(1,2)]
  obtain T where T: "clock g T" using paced_clock [OF pt] ..
  have tab: "table_inv os g" using clock_table [OF T] .
  have n: "?n \<le> length ?ps" using tab u(4) by (simp add: table_inv_def Let_def)
  have "t \<le> ?u * busy_end ?ps ?n"
  proof (cases "?n = 0")
    case True
    then have "\<not> arrival_queue_empty g" using table_inv_queue [OF tab] ps u(4) by auto
    then show ?thesis using paced_due [OF pt] True u(1,3) ps by (cases ?ps) (auto simp: busy_end_def)
  next
    case False
    have "0 \<le> (\<Sum>i<?n. d i)" using paced_todoD [OF p(1-3)] by (intro sum_nonneg) (simp add: paced_todo_def)
    then show ?thesis using conservation [OF p] False by (simp add: conserved_def)
  qed
  also have "\<dots> \<le> ?u * busy_end ?ps (length ?ps)"
    using busy_end_mono [OF n] u(2) by (simp add: mult_le_cancel_left_pos)
  finally show ?thesis .
qed

lemma handled_le:
  assumes "paced_time t r g"
  shows "handled g (t - r) \<le> t"
proof -
  obtain T v where "clock g T" "timer_value g = Inr v" using assms by (auto simp: paced_time_def on_time_def)
  then show ?thesis using clock_bound [of g T v] assms by (auto simp: handled_def paced_time_def)
qed

text \<open>
  What is left of a run that ends at time \<open>B\<close>: the time after the last alarm that was handled, the steps of
  the program without the ends of time slices, and the time that has not passed. It decreases with every move.
\<close>

definition pace_left :: "int \<Rightarrow> (configuration \<times> configuration) set" where
  "pace_left B = measures [\<lambda>(t, r, d, g). nat (B - handled g (t - r)), \<lambda>(t, r, d, g). left g, \<lambda>(t, r, d, g). nat (B - t)]"

lemma pace_step_left:
  assumes g: "step os g g'" "t' - r' = t - r + timer_ran g g'" and on: "paced_time t r g" "paced_time t' r' g'"
    and B: "t \<le> B" "t' \<le> B"
  shows "((t', r', d', g'), (t, r, d, g)) \<in> pace_left B"
proof -
  have "on_time g (t - r)" using on(1) by (simp add: paced_time_def)
  from handled_step [OF g(1) this] show ?thesis
    using handled_le [OF on(1)] handled_le [OF on(2)] B g(2) by (auto simp: pace_left_def)
qed

lemma pace_decreases:
  assumes m: "pace os (t, r, d, g) (t', r', d', g')" and p: "paced os g0 t r d g" "on_time g0 0" and B: "t \<le> B" "t' \<le> B"
  shows "((t', r', d', g'), (t, r, d, g)) \<in> pace_left B"
proof -
  note on = paced_timed [OF p] paced_timed [OF paced_step [OF p(1) m] p(2)]
  have instant: "step os g g' \<Longrightarrow> t' - r' = t - r + timer_ran g g' \<Longrightarrow> ?thesis"
    using pace_step_left [OF _ _ on B] .
  from m show ?thesis
  proof cases
    case (works i x)
    then show ?thesis using B by (simp add: pace_left_def)
  next
    case (idles x)
    then show ?thesis using B by (simp add: pace_left_def)
  next
    case fires
    then show ?thesis using timer_fires [of g os] by (intro instant) (simp_all add: timer_ran_def)
  next
    case (exits i)
    then show ?thesis using child_terminates [of g i os] by (intro instant) (simp_all add: timer_ran_def)
  next
    case (turns sig)
    have "on_time g (t - r)" using on(1) by (simp add: paced_time_def)
    then have "timer_ran g g' = 0" using turn_instant turns by blast
    moreover have "r = 0" if "sig = SIGALRM" using on(1) turns that by (simp add: paced_time_def)
    ultimately show ?thesis using turns wakes_up [OF turns(4,5)] by (intro instant) auto
  qed
qed

text \<open>Hence, if no turn fails, every run comes to the end.\<close>

lemma paced_ends_at:
  assumes g0: "on_time g0 0" "arrival_ptr g0 = 0" "no_gap (procs (world_of g0)) \<or> never_idle g0" "procs (world_of g0) \<noteq> []"
    and ok: "\<And>t r d g sig e. paced os g0 t r d g \<Longrightarrow> pending g = {sig} \<Longrightarrow> loop_iteration os [sig] g \<noteq> Inl e"
    and one: "\<And>g. reachable os g0 g \<Longrightarrow> \<not> (alrm_pending g \<and> chld_pending g)"
  shows "ends_at os g0 (nanos (time_unit (timer_info g0)) *
     busy_end (procs (world_of g0)) (length (procs (world_of g0))))" (is "ends_at os g0 ?B")
proof -
  let ?at = "\<lambda>c. paced os g0 (fst c) (fst (snd c)) (fst (snd (snd c))) (snd (snd (snd c)))"
  have finite: False if f: "f 0 = start_of g0" "\<forall>n. pace os (f n) (f (Suc n))" for f
  proof -
    have at: "?at (f n)" for n
    proof (induction n)
      case 0
      then show ?case using f(1) by (intro paced_start) simp
    next
      case (Suc n)
      then show ?case using f(2) paced_step by (metis prod.collapse)
    qed
    have "(f (Suc n), f n) \<in> pace_left ?B" for n
      using pace_decreases [OF _ at g0(1) paced_before_end [OF at g0] paced_before_end [OF at g0], of n]
        f(2) by (metis prod.collapse)
    moreover have "wf (pace_left ?B)" by (simp add: pace_left_def)
    ultimately show False unfolding wf_iff_no_infinite_down_chain by blast
  qed
  moreover have "t = ?B \<and> (\<exists>sig g'. pending g = {sig} \<and> loop_iteration os [sig] g = Inr (True, g'))"
    if p: "paced os g0 t r d g" and stop: "\<nexists>c. pace os (t, r, d, g) c" for t r d g
  proof -
    have "pending g \<noteq> {}" using pace_next [OF p g0(1,2)] stop by blast
    then obtain sig where sig: "pending g = {sig}"
      using one [OF paced_reachable [OF p]] by (cases "alrm_pending g"; cases "chld_pending g") (auto simp: pending_def)
    obtain b g' where l: "loop_iteration os [sig] g = Inr (b, g')"
      using ok [OF p sig] by (cases "loop_iteration os [sig] g") auto
    then have "b" using turns [OF sig, of os g' t r d] stop by (cases b) auto
    with l left_when_done [OF p g0 sig] sig show ?thesis by auto
  qed
  ultimately show ?thesis unfolding ends_at_def by blast
qed

end

end
