(* ===== verification/FIFO_System.thy ===== *)
theory FIFO_System
  imports Arrivals
begin

text \<open>
  The event loop under the FIFO strategy: every arrived child has the running priority until it
  terminates, and the scheduler's counter is the number of children that have not been removed.
\<close>

section \<open>The invariant\<close>

definition fifo_live :: "globals \<Rightarrow> nat set" where
  "fifo_live g = {i. i < arrival_ptr g \<and> prio_of (world_of g) i \<noteq> None}"

text \<open>\<open>n\<close> is the number of terminated children that the scheduler still counts.\<close>

definition fifo_base :: "os \<Rightarrow> nat \<Rightarrow> globals \<Rightarrow> bool" where
  "fifo_base os n g \<longleftrightarrow> os_ok os \<and> current_strategy g = FIFO \<and> table_inv os g \<and> arrival_timer g \<and>
     (\<forall>i < length (procs (world_of g)). prio_of (world_of g) i = None \<or>
        i < arrival_ptr g \<and> prio_of (world_of g) i = Some (run_prio os)) \<and>
     fifo_of g = int (card (fifo_live g) + n) \<and> card (fifo_live g) + n \<le> arrival_ptr g"

definition fifo_exited :: "os \<Rightarrow> globals \<Rightarrow> bool" where
  "fifo_exited os g \<longleftrightarrow> fifo_base os 1 g \<and> length (zombies (world_of g)) = 1"

lemma finite_fifo_live [simp]: "finite (fifo_live g)"
  by (simp add: fifo_live_def)

lemma fifo_baseD:
  assumes "fifo_base os n g"
  shows "os_ok os" "current_strategy g = FIFO" "table_inv os g" "arrival_timer g"
    "fifo_of g = int (card (fifo_live g) + n)" "card (fifo_live g) + n \<le> arrival_ptr g"
  using assms by (simp_all add: fifo_base_def)

lemma fifo_base_frame:
  "fifo_base os n (with_signals g e v a c) = fifo_base os n g"
  "fifo_live (with_signals g e v a c) = fifo_live g"
  "fifo_of (with_signals g e v a c) = fifo_of g"
  by (simp_all add: fifo_base_def fifo_live_def table_inv_def arrival_timer_def with_signals_def)

lemma fifo_base_set_arrival:
  "fifo_base os n g \<Longrightarrow> duration r \<Longrightarrow> fifo_base os n (set_arrival r g)"
  by (simp add: fifo_base_def fifo_live_def table_inv_def arrival_timer_def)

section \<open>The operations\<close>

lemma fifo_add_process:
  assumes base: "fifo_base os 0 g" and ne: "\<not> arrival_queue_empty g"
  obtains g' where "add_process os (At (arrival_ptr g)) (g\<lparr>arrival_ptr := Suc (arrival_ptr g)\<rparr>) = Inr g'"
    "fifo_base os 0 g'" "fifo_of g' = fifo_of g + 1" "arrival_ptr g' = Suc (arrival_ptr g)" "same_timer g g'"
proof -
  let ?i = "arrival_ptr g" let ?w = "world_of g" let ?v = "admit os ?i ?w"
  note b = fifo_baseD [OF base]
  have i: "?i < length (procs ?w)" "in_int (num_process g)" "num_process g = int (length (procs ?w))"
    using ne table_inv_queue [OF b(3)] b(3) by (auto simp: table_inv_def Let_def)
  have so: "sched_ok os" "0 < fork os (forks ?w)" using b(1) by (simp_all add: os_ok_def fork_ok_def)
  have p: "pid (procs ?v ! ?i) = fork os (forks ?w)" using i(1) by simp
  have n: "fifo_inv (fifo_of g)" "in_int (fifo_of g + 1)"
    using b(5,6) i by (auto simp: fifo_inv_def in_int_def)
  define u where "u = ?v\<lparr>prio := (prio ?v)(fork os (forks ?w) \<mapsto> run_prio os)\<rparr>"
  let ?g' = "g\<lparr>arrival_ptr := Suc ?i, fifo_of := fifo_of g + 1, world_of := u\<rparr>"
  have "add_process_FIFO os (At ?i) (fifo_of g) ?v = Inr (fifo_of g + 1, u)"
    using add_process_FIFO_ok [OF so(1), of ?i ?v "fifo_of g"] i(1) p so(2) n by (simp add: u_def)
  then have add: "add_process os (At ?i) (g\<lparr>arrival_ptr := Suc ?i\<rparr>) = Inr ?g'"
    using add_process_admits [OF b(1), of ?i "g\<lparr>arrival_ptr := Suc ?i\<rparr>"] i(1) b(2)
    by (simp add: sched_add_def Let_def)
  have pr: "prio_of u j = (if j = ?i then Some (run_prio os) else prio_of ?w j)" if "j < length (procs ?w)" for j
    unfolding u_def using admitted_prio [OF b(1,3) refl i(1) that] .
  have len: "length (procs u) = length (procs ?w)" "zombies u = zombies ?w" by (simp_all add: u_def)
  have "fifo_live ?g' = insert ?i (fifo_live g)"
    using pr i(1) by (auto simp: fifo_live_def less_Suc_eq)
  then have card: "card (fifo_live ?g') = Suc (card (fifo_live g))" by (simp add: fifo_live_def)
  have "table_inv os ?g'"
    using table_inv_admit [OF b(3) i(1)] by (auto simp: table_inv_def Let_def u_def)
  then have "fifo_base os 0 ?g'"
    using base pr card i(1) b(4-6) len(1) by (auto simp: fifo_base_def arrival_timer_def)
  with add that len(2) show ?thesis by (simp add: same_timer_def)
qed


lemma fifo_child_exits:
  assumes base: "fifo_base os 0 g" and z: "zombies (world_of g) = []" and r: "runs (world_of g) i"
  shows "fifo_exited os (g\<lparr>world_of := child_exits i (world_of g)\<rparr>)"
proof -
  note b = fifo_baseD [OF base]
  let ?w = "world_of g" let ?g = "g\<lparr>world_of := child_exits i ?w\<rparr>"
  have i: "i < arrival_ptr g" "prio_of ?w i \<noteq> None"
    using r base by (auto simp: runs_def fifo_base_def)
  have u: "pid (procs ?w ! j) = pid (procs ?w ! i) \<longleftrightarrow> j = i" if "j < length (procs ?w)" for j
    using table_pid_unique [OF b(1,3) i(1) that] by auto
  have l: "arrival_ptr g \<le> length (procs ?w)" using b(3) by (simp add: table_inv_def Let_def)
  have "fifo_live ?g = fifo_live g - {i}" using u l by (auto simp: fifo_live_def)
  moreover have "i \<in> fifo_live g" using i by (simp add: fifo_live_def)
  ultimately have "card (fifo_live g) = Suc (card (fifo_live ?g))"
    by (metis card_Suc_Diff1 finite_fifo_live)
  then show ?thesis
    using base b(3,4,5,6) z u by (auto simp: fifo_exited_def fifo_base_def table_inv_def arrival_timer_def)
qed

lemma fifo_remove:
  assumes "fifo_exited os g"
  obtains g' where "bindR (wait_null g) remove_current_process = Inr g'" "fifo_base os 0 g'"
    "arrival_ptr g' = arrival_ptr g" "num_process g' = num_process g" "it_value g' = it_value g"
    "alrm_pending g' = alrm_pending g" "chld_pending g' = chld_pending g" "zombies (world_of g') = []"
proof -
  obtain z where base: "fifo_base os 1 g" and z: "zombies (world_of g) = [z]"
    using assms by (auto simp: fifo_exited_def length_Suc_conv)
  note b = fifo_baseD [OF base]
  let ?g' = "g\<lparr>world_of := (world_of g)\<lparr>zombies := []\<rparr>, fifo_of := int (card (fifo_live g))\<rparr>"
  have "in_int (int (card (fifo_live g)))" using b(3,6) by (auto simp: table_inv_def in_int_def Let_def)
  then have "bindR (wait_null g) remove_current_process = Inr ?g'"
    using b(2,5) z by (simp add: remove_current_process_def remove_current_process_FIFO_def wait_null_reaps)
  moreover have "fifo_base os 0 ?g'"
    using base by (auto simp: fifo_base_def fifo_live_def table_inv_def arrival_timer_def prio_of_def)
  ultimately show ?thesis using that [of ?g'] by simp
qed

lemma fifo_context_switch: "fifo_base os n g \<Longrightarrow> context_switch os g = Inr g"
  by (simp add: fifo_base_def context_switch_def context_switch_FIFO_def)

section \<open>FIFO in the event loop\<close>

interpretation fifo_sys: arrival_driven os "fifo_base os 0" fifo_of "\<lambda>i n. \<bar>n\<bar> + 1"
  "fifo_base os 0" "fifo_exited os" "\<lambda>n. n = 0" True for os
proof (unfold_locales, goal_cases)
  case (1 g)
  then show ?case by (rule fifo_baseD)
next
  case (2 g)
  then show ?case by (rule fifo_baseD)
next
  case (3 g r)
  then show ?case by (rule fifo_base_set_arrival)
next
  case (6 g)
  then show ?case using fifo_baseD(1,2) [OF 6] by (simp add: os_ok_def)
next
  case (5 g)
  then obtain g' where "add_process os (At (arrival_ptr g)) (g\<lparr>arrival_ptr := Suc (arrival_ptr g)\<rparr>) = Inr g'"
    "fifo_base os 0 g'" "fifo_of g' = fifo_of g + 1" "arrival_ptr g' = Suc (arrival_ptr g)" "same_timer g g'"
    using fifo_add_process by blast
  moreover have "\<bar>fifo_of g\<bar> = fifo_of g" using fifo_baseD(5) [OF 5(1)] by simp
  ultimately show ?case by simp
next
  case (13 g)
  then show ?case using fifo_baseD(2) [of os 0 g] by (simp add: scheduler_empty_def scheduler_empty_FIFO_def)
next
  case (14 g)
  then show ?case by (simp add: fifo_context_switch)
next
  case (16 g i)
  then show ?case by (rule fifo_child_exits)
next
  case (17 g)
  then show ?case using fifo_remove by metis
qed (simp_all add: fifo_base_frame fifo_exited_def)

lemma fifo_init:
  assumes "os_ok os" "0 < getpid os" "wf_table ps" "clock_ok t0 t1"
  obtains g where "main_init os (show_input FIFO ps) t0 t1 junk = Inr g" "fifo_sys.sys_inv os g"
    "map name (procs (world_of g)) = map name ps" "arrival_ptr g = 0 \<and> fifo_of g = 0"
proof -
  obtain u r where u: "main_init os (show_input FIFO ps) t0 t1 junk =
      Inr ((set_arrival r (loaded os FIFO ps u junk))\<lparr>it_value := r, alrm_pending := (arrival_time (hd ps) = 0)\<rparr>)"
    "unit_ok u" "duration r"
    using main_init_arrivals [OF assms(1-4), of FIFO junk] by blast
  let ?g = "(set_arrival r (loaded os FIFO ps u junk))\<lparr>it_value := r, alrm_pending := (arrival_time (hd ps) = 0)\<rparr>"
  note t = table_inv_loaded [OF assms(3), of os FIFO u junk]
  have "prio_of (world_of ?g) i = None" if "i < length ps" for i
    using assms(2,3) that by (auto simp: prio_of_def world_init_def wf_table_def wf_entry_def list_all_iff)
  then have "fifo_base os 0 ?g"
    using assms(1) t(1) u(2,3)
    by (auto simp: fifo_base_def fifo_live_def table_inv_def arrival_timer_def world_init_def loaded_def
        set_strategy_def globals_static_def set_strategy_FIFO_def FIFO_static_def Let_def)
  moreover have "fifo_of ?g = 0"
    by (simp add: loaded_def set_strategy_def globals_static_def set_strategy_FIFO_def FIFO_static_def)
  ultimately show ?thesis
    using that [of ?g] u(1) t(2) by (simp add: fifo_sys.sys_inv_def arrival_queue_empty_def world_init_def)
qed


lemma fifo_initD:
  assumes "os_ok os" "0 < getpid os" "wf_table ps" "clock_ok t0 t1"
    "main_init os (show_input FIFO ps) t0 t1 junk = Inr g0"
  shows "fifo_sys.sys_inv os g0" "map name (procs (world_of g0)) = map name ps"
    "arrival_ptr g0 = 0 \<and> fifo_of g0 = 0"
  using fifo_init [OF assms(1-4), of junk] assms(5) by (metis Inr_inject)+

lemma fifo_finished:
  assumes "fifo_base os 0 g" "fifo_of g = 0" "i < length (procs (world_of g))"
  shows "prio_of (world_of g) i = None"
proof -
  have "fifo_live g = {}" using fifo_baseD(5) [OF assms(1)] assms(2) by simp
  with assms(1,3) show ?thesis by (auto simp: fifo_base_def fifo_live_def)
qed

section \<open>FIFO can always finish\<close>

lemma fifo_busy_runs:
  assumes "fifo_base os 0 g" "fifo_of g \<noteq> 0"
  shows "\<exists>i. runs (world_of g) i"
proof -
  have "fifo_live g \<noteq> {}" using fifo_baseD(5) [OF assms(1)] assms(2) by auto
  then obtain i where i: "i < arrival_ptr g" "prio_of (world_of g) i \<noteq> None" by (auto simp: fifo_live_def)
  moreover have "arrival_ptr g \<le> length (procs (world_of g))"
    using fifo_baseD(3) [OF assms(1)] by (simp add: table_inv_def Let_def)
  moreover have "prio_of (world_of g) j \<in> {None, Some (run_prio os)}" if "j < length (procs (world_of g))" for j
    using assms(1) that by (auto simp: fifo_base_def)
  ultimately have "runs (world_of g) i"
    unfolding runs_def by (metis empty_iff insert_iff less_le_trans option.inject option.distinct(1) order_refl)
  then show ?thesis by blast
qed

interpretation fifo_fin: arrival_finishing os "fifo_base os 0" fifo_of "\<lambda>i n. \<bar>n\<bar> + 1"
  "fifo_base os 0" "fifo_exited os" "\<lambda>n. n = 0" True "\<lambda>n. nat \<bar>n\<bar>" for os
proof (unfold_locales, goal_cases)
  case (1 g)
  then show ?case by (rule fifo_busy_runs)
next
  case (3 g g')
  then have "current_strategy g = FIFO" "0 < fifo_of g" by (auto simp: fifo_exited_def fifo_base_def)
  with 3(2) show ?case
    by (auto simp: remove_current_process_def remove_current_process_FIFO_def cint_Inr_iff dest!: wait_null_InrD)
qed simp_all

lemma fifo_init_live:
  assumes "os_ok os" "0 < getpid os" "wf_table ps" "clock_ok t0 t1" "UNIT_MEASURE_REPEAT \<le> nanos t1 - nanos t0"
    "main_init os (show_input FIFO ps) t0 t1 junk = Inr g0"
  shows "fifo_fin.live os g0"
  using fifo_initD(1) [OF assms(1-4,6)] main_init_armed [OF assms(1-4) _ assms(5,6)]
  by (simp add: fifo_fin.live_def)


lemma fifo_init_steps:
  assumes "os_ok os" "0 < getpid os" "wf_table ps" "clock_ok t0 t1" "main_init os (show_input FIFO ps) t0 t1 junk = Inr g0"
  shows "fifo_fin.steps_left g0 \<le> 4 * length ps"
  using fifo_fin.steps_left_start [OF fifo_initD(2) [OF assms]] fifo_initD(3) [OF assms] by simp


lemma fifo_init_on_time:
  assumes "os_ok os" "0 < getpid os" "wf_table ps" "clock_ok t0 t1" "UNIT_MEASURE_REPEAT \<le> nanos t1 - nanos t0"
    "main_init os (show_input FIFO ps) t0 t1 junk = Inr g0"
  shows "fifo_sys.prompt.on_time os g0 0"
  using fifo_initD(1) [OF assms(1-4,6)] main_init_clock [OF assms(1-4) _ assms(5,6)]
  by (intro fifo_sys.prompt.on_time_start) simp_all

end
