(* ===== verification/SJF_System.thy ===== *)
theory SJF_System
  imports Arrivals
begin

text \<open>
  The event loop under the non-preemptive SJF strategy. The only turn that can fail is the one after
  the last job has terminated while processes are still to arrive.
\<close>

section \<open>The invariant\<close>

abbreviation waiting :: "globals \<Rightarrow> nat list" where
  "waiting g \<equiv> heap_list (inactive_heap (sjf_of g))"

abbreviation jobs_of :: "globals \<Rightarrow> nat list" where
  "jobs_of g \<equiv> sjf_jobs (sjf_of g)"

definition sjf_base :: "os \<Rightarrow> globals \<Rightarrow> bool" where
  "sjf_base os g \<longleftrightarrow> os_ok os \<and> current_strategy g = SJF \<and> table_inv os g \<and> arrival_timer g \<and>
     sjf_inv (world_of g) (sjf_of g) \<and>
     length (pq (inactive_heap (sjf_of g))) = length (procs (world_of g)) \<and>
     set (jobs_of g) \<subseteq> {..<arrival_ptr g} \<and> sjf_quiet os (sjf_of g) (world_of g) \<and>
     (\<forall>i < length (procs (world_of g)). i \<notin> set (jobs_of g) \<longrightarrow> prio_of (world_of g) i = None)"

definition sjf_sinv :: "os \<Rightarrow> globals \<Rightarrow> bool" where
  "sjf_sinv os g \<longleftrightarrow> sjf_base os g \<and> sjf_settled os (sjf_of g) (world_of g)"

definition sjf_ran :: "os \<Rightarrow> globals \<Rightarrow> bool" where
  "sjf_ran os g \<longleftrightarrow> sjf_sinv os g \<and> (sjf_active (sjf_of g) = Null \<longrightarrow> jobs_of g = [])"

definition sjf_exited :: "os \<Rightarrow> globals \<Rightarrow> bool" where
  "sjf_exited os g \<longleftrightarrow> sjf_base os g \<and> (\<exists>a. sjf_active (sjf_of g) = At a \<and>
     prio_of (world_of g) a = None \<and> zombies (world_of g) = [pid (procs (world_of g) ! a)])"

lemma sjf_baseD:
  assumes "sjf_base os g"
  shows "os_ok os" "current_strategy g = SJF" "table_inv os g" "arrival_timer g"
    "sjf_inv (world_of g) (sjf_of g)" "length (pq (inactive_heap (sjf_of g))) = length (procs (world_of g))"
    "set (jobs_of g) \<subseteq> {..<arrival_ptr g}" "sjf_quiet os (sjf_of g) (world_of g)"
    "i < length (procs (world_of g)) \<Longrightarrow> i \<notin> set (jobs_of g) \<Longrightarrow> prio_of (world_of g) i = None"
  using assms by (auto simp: sjf_base_def)

lemma sjf_frame:
  "sjf_base os (with_signals g e v a c) = sjf_base os g"
  "sjf_sinv os (with_signals g e v a c) = sjf_sinv os g"
  "sjf_ran os (with_signals g e v a c) = sjf_ran os g"
  "sjf_exited os (with_signals g e v a c) = sjf_exited os g"
  "sjf_of (with_signals g e v a c) = sjf_of g"
  by (simp_all add: sjf_base_def sjf_sinv_def sjf_ran_def sjf_exited_def table_inv_def arrival_timer_def
      with_signals_def)

lemma sjf_set_arrival: "sjf_sinv os g \<Longrightarrow> duration r \<Longrightarrow> sjf_sinv os (set_arrival r g)"
  by (simp add: sjf_sinv_def sjf_base_def table_inv_def arrival_timer_def)

section \<open>The operations\<close>

lemma sjf_add:
  assumes sinv: "sjf_sinv os g" and ne: "\<not> arrival_queue_empty g"
  obtains g' where "add_process os (At (arrival_ptr g)) (g\<lparr>arrival_ptr := Suc (arrival_ptr g)\<rparr>) = Inr g'"
    "sjf_sinv os g'" "mset (jobs_of g') = add_mset (arrival_ptr g) (mset (jobs_of g))"
    "arrival_ptr g' = Suc (arrival_ptr g)" "same_timer g g'"
proof -
  let ?i = "arrival_ptr g" let ?w = "world_of g" let ?v = "admit os ?i ?w" let ?s = "sjf_of g"
  have base: "sjf_base os g" using sinv by (simp add: sjf_sinv_def)
  note b = sjf_baseD [OF base]
  have i: "?i < length (procs ?w)" using ne table_inv_queue [OF b(3)] b(3) by (auto simp: table_inv_def Let_def)
  have pw: "pids_ok ?w (jobs_of g)" and hw: "heap_inv ?w (inactive_heap ?s)"
    using b(5) by (simp_all add: sjf_inv_def)
  note pv = pids_ok_admit [OF b(1,3) refl i pw b(7)]
  have "procs ?v ! j = procs ?w ! j" if "j \<in> set (waiting g)" for j
    using that b(7) by (intro admit_simps(4)) (auto simp: sjf_jobs_def)
  then have "heap_inv ?v (inactive_heap ?s)" using heap_inv_cong [OF hw, of ?v] by simp
  then have inv: "sjf_inv ?v ?s" using pv(2) by (simp add: sjf_inv_def)
  have "length (jobs_of g) \<le> ?i"
    using pids_ok_distinct [OF pw] b(7) by (metis card_lessThan card_mono distinct_card finite_lessThan)
  then have room: "length (waiting g) < length (pq (inactive_heap ?s))" using i b(6) by (simp add: sjf_jobs_def)
  obtain s' where s': "add_process_SJF (At ?i) ?s ?v = Inr s'" "sjf_inv ?v s'"
    "mset (sjf_jobs s') = add_mset ?i (mset (jobs_of g))" "sjf_active s' = sjf_active ?s"
    "mset (heap_list (inactive_heap s')) = add_mset ?i (mset (waiting g))"
    "length (pq (inactive_heap s')) = length (pq (inactive_heap ?s))"
    using add_process_SJF_ok [OF inv pv(1) room] .
  let ?g' = "g\<lparr>arrival_ptr := Suc ?i, world_of := ?v, sjf_of := s'\<rparr>"
  have add: "add_process os (At ?i) (g\<lparr>arrival_ptr := Suc ?i\<rparr>) = Inr ?g'"
    using add_process_admits [OF b(1), of ?i "g\<lparr>arrival_ptr := Suc ?i\<rparr>"] i s'(1) b(2)
    by (simp add: sched_add_def Let_def)
  have pr: "prio_of ?v j = (if j = ?i then Some (low_prio os) else prio_of ?w j)" if "j < length (procs ?w)" for j
    using that i admit_others(3) [OF b(1,3) refl _ i] admit_later [OF b(1,3) refl] by (cases j ?i rule: linorder_cases) auto
  have js: "set (sjf_jobs s') = insert ?i (set (jobs_of g))" "set (heap_list (inactive_heap s')) = insert ?i (set (waiting g))"
    using mset_eq_setD [of "sjf_jobs s'" "?i # jobs_of g"] s'(3)
      mset_eq_setD [of "heap_list (inactive_heap s')" "?i # waiting g"] s'(5) by simp_all
  have lt: "j < ?i" if "j \<in> set (jobs_of g)" for j using that b(7) by auto
  have old: "prio_of ?v j = prio_of ?w j" if "j \<in> set (jobs_of g)" for j
    using pr [of j] lt [OF that] i by simp
  have q: "sjf_quiet os s' ?v"
    using b(8) old js(2) i by (auto simp: sjf_quiet_def sjf_jobs_def)
  moreover have "sjf_settled os s' ?v"
    using sinv q s'(4) old
    by (cases "sjf_active ?s") (auto simp: sjf_sinv_def sjf_settled_def sjf_jobs_def active_list_def)
  moreover have "sjf_base os ?g'"
    using base table_inv_admit [OF b(3) i] s'(2,6) js(1) q pr b(7)
    by (auto simp: sjf_base_def table_inv_def arrival_timer_def Let_def)
  ultimately show ?thesis using that [of ?g'] add s'(3) by (simp add: sjf_sinv_def same_timer_def)
qed


lemma sjf_context_switch:
  assumes sinv: "sjf_sinv os g" and ne: "jobs_of g \<noteq> []"
  obtains g' where "context_switch os g = Inr g'" "sjf_ran os g'" "mset (jobs_of g') = mset (jobs_of g)"
    "arrival_ptr g' = arrival_ptr g" "num_process g' = num_process g" "same_timer g g'"
proof -
  let ?w = "world_of g" let ?s = "sjf_of g"
  have base: "sjf_base os g" and st: "sjf_settled os ?s ?w" using sinv by (simp_all add: sjf_sinv_def)
  note b = sjf_baseD [OF base]
  have so: "sched_ok os" using b(1) by (simp add: os_ok_def)
  show ?thesis
  proof (cases "sjf_active ?s")
    case (At a)
    then have "context_switch os g = Inr g"
      using b(2) by (simp add: context_switch_def context_switch_SJF_keeps)
    then show ?thesis using that [of g] sinv At by (simp add: sjf_ran_def)
  next
    case Null
    then have ne': "waiting g \<noteq> []" using ne by (simp add: sjf_jobs_def active_list_def)
    obtain s' i where s': "context_switch_SJF os ?s ?w = Inr (s', ?w\<lparr>prio := (prio ?w)(pid (procs ?w ! i) \<mapsto> run_prio os)\<rparr>)"
      "sjf_active s' = At i" "sjf_inv ?w s'" "mset (sjf_jobs s') = mset (jobs_of g)" "i \<in> set (waiting g)"
      "length (pq (inactive_heap s')) = length (pq (inactive_heap ?s))"
      using context_switch_SJF_starts [OF b(5) so Null ne'] by metis
    define u where "u = ?w\<lparr>prio := (prio ?w)(pid (procs ?w ! i) \<mapsto> run_prio os)\<rparr>"
    let ?g' = "g\<lparr>sjf_of := s', world_of := u\<rparr>"
    have u: "procs u = procs ?w" "forks u = forks ?w" "zombies u = zombies ?w" "sjf_inv u s'"
      using s'(3) by (simp_all add: u_def sjf_inv_def)
    have js: "set (sjf_jobs s') = set (jobs_of g)" using mset_eq_setD [OF s'(4)] .
    have settled: "sjf_settled os s' u"
      using context_switch_SJF_settles [OF b(5) so b(8) Null s'(1) ne'] by (simp add: u_def)
    have ia: "i < arrival_ptr g" "i \<in> set (jobs_of g)" using s'(5) b(7) by (auto simp: sjf_jobs_def)
    have "prio_of u j = None" if "j < length (procs ?w)" "j \<notin> set (jobs_of g)" for j
      using b(9) [OF that] table_pid_unique [OF b(1,3) ia(1) that(1)] ia(2) that(2) by (auto simp: u_def)
    then have "sjf_base os ?g'"
      using base u js s'(6) settled
      by (auto simp: sjf_base_def table_inv_def arrival_timer_def sjf_settled_def Let_def)
    moreover have "context_switch os g = Inr ?g'" using b(2) s'(1) by (simp add: context_switch_def u_def)
    ultimately show ?thesis
      using that [of ?g'] settled s'(2,4) u(3) by (simp add: sjf_ran_def sjf_sinv_def same_timer_def)
  qed
qed

lemma sjf_runs_active:
  assumes ran: "sjf_ran os g" and r: "runs (world_of g) i"
  shows "sjf_active (sjf_of g) = At i"
proof -
  let ?w = "world_of g"
  have base: "sjf_base os g" and st: "sjf_settled os (sjf_of g) ?w"
    using ran by (simp_all add: sjf_ran_def sjf_sinv_def)
  note b = sjf_baseD [OF base]
  obtain m where m: "i < length (procs ?w)" "prio_of ?w i = Some m"
    "\<And>j m'. j < length (procs ?w) \<Longrightarrow> prio_of ?w j = Some m' \<Longrightarrow> m' \<le> m"
    using r by (auto simp: runs_def)
  have i: "i \<in> set (jobs_of g)" using b(9) [OF m(1)] m(2) by auto
  then obtain a where a: "sjf_active (sjf_of g) = At a" using ran by (cases "sjf_active (sjf_of g)") (auto simp: sjf_ran_def)
  have "a < length (procs ?w)" using b(5) a by (simp add: sjf_inv_def sjf_jobs_def active_list_def pids_ok_def)
  then have "run_prio os \<le> m" using m(3) st a by (auto simp: sjf_settled_def)
  moreover have "low_prio os < run_prio os" using b(1) by (simp add: os_ok_def sched_ok_def)
  ultimately have "i \<notin> set (waiting g)" using b(8) m(2) by (auto simp: sjf_quiet_def)
  with i a show ?thesis by (simp add: sjf_jobs_def active_list_def)
qed

lemma sjf_child_exits:
  assumes ran: "sjf_ran os g" and z: "zombies (world_of g) = []" and r: "runs (world_of g) i"
  shows "sjf_exited os (g\<lparr>world_of := child_exits i (world_of g)\<rparr>)"
proof -
  let ?w = "world_of g" let ?g = "g\<lparr>world_of := child_exits i ?w\<rparr>"
  have a: "sjf_active (sjf_of g) = At i" using sjf_runs_active [OF ran r] .
  have base: "sjf_base os g" using ran by (simp add: sjf_ran_def sjf_sinv_def)
  note b = sjf_baseD [OF base]
  have "pid (procs ?w ! j) \<noteq> pid (procs ?w ! i)" if "j \<in> set (waiting g)" for j
    using b(5) a that pids_ok_Cons_neq [of ?w i "waiting g" j]
    by (simp add: sjf_inv_def sjf_jobs_def active_list_def)
  then have "sjf_quiet os (sjf_of g) (child_exits i ?w)" using b(8) by (simp add: sjf_quiet_def)
  moreover have "heap_inv (child_exits i ?w) (inactive_heap (sjf_of g))"
    using heap_inv_cong [of ?w "inactive_heap (sjf_of g)" "child_exits i ?w"] b(5) by (simp add: sjf_inv_def)
  ultimately have "sjf_base os ?g"
    using base by (auto simp: sjf_base_def table_inv_def arrival_timer_def sjf_inv_def)
  with a z show ?thesis by (simp add: sjf_exited_def)
qed

lemma sjf_remove:
  assumes "sjf_exited os g"
  obtains g' where "bindR (wait_null g) remove_current_process = Inr g'" "sjf_sinv os g'"
    "arrival_ptr g' = arrival_ptr g" "num_process g' = num_process g" "it_value g' = it_value g"
    "alrm_pending g' = alrm_pending g" "chld_pending g' = chld_pending g" "zombies (world_of g') = []"
    "jobs_of g' = waiting g"
proof -
  obtain a where base: "sjf_base os g" and a: "sjf_active (sjf_of g) = At a" "prio_of (world_of g) a = None"
    "zombies (world_of g) = [pid (procs (world_of g) ! a)]" using assms by (auto simp: sjf_exited_def)
  note b = sjf_baseD [OF base]
  let ?w = "(world_of g)\<lparr>zombies := []\<rparr>" let ?s = "remove_current_process_SJF (sjf_of g)"
  let ?g = "g\<lparr>world_of := ?w, sjf_of := ?s\<rparr>"
  have w: "prio_of ?w = prio_of (world_of g)" "pids_ok ?w = pids_ok (world_of g)"
    "heap_inv ?w h = heap_inv (world_of g) h" for h
    by (auto simp: prio_of_def pids_ok_def fun_eq_iff intro: heap_inv_cong)
  note r = remove_current_process_SJF_ok [OF b(5) a(1)]
  have h: "inactive_heap ?s = inactive_heap (sjf_of g)" "sjf_active ?s = Null"
    by (simp_all add: remove_current_process_SJF_def)
  have "sjf_base os ?g"
    using base r w h a(2) by (auto simp: sjf_base_def table_inv_def arrival_timer_def sjf_inv_def sjf_quiet_def)
  moreover have "bindR (wait_null g) remove_current_process = Inr ?g"
    using b(2) a(3) by (simp add: remove_current_process_def wait_null_reaps)
  ultimately show ?thesis
    using that [of ?g] h b(8) w(1)
    by (simp add: sjf_sinv_def sjf_settled_def sjf_quiet_def sjf_jobs_def active_list_def)
qed

section \<open>SJF in the event loop\<close>

interpretation sjf_sys: arrival_driven os "sjf_sinv os" "\<lambda>g. mset (jobs_of g)" add_mset
  "sjf_ran os" "sjf_exited os" "\<lambda>m. m = {#}" False for os
proof (unfold_locales, goal_cases)
  case (5 g)
  then show ?case using sjf_add by metis
next
  case (6 g)
  then show ?case using sjf_baseD(1,2) by (auto simp: sjf_sinv_def os_ok_def)
next
  case (14 g)
  then show ?case
    using sjf_baseD(2,5) [of os g] scheduler_empty_SJF_iff [of "world_of g" "sjf_of g"]
    by (auto simp: sjf_sinv_def scheduler_empty_def)
next
  case (15 g)
  then show ?case using sjf_context_switch [of os g] by (metis mset_zero_iff)
next
  case (16 g)
  then have "sjf_active (sjf_of g) = Null" "heap_size (inactive_heap (sjf_of g)) = 0" "current_strategy g = SJF"
    using heap_size_list [of "world_of g" "inactive_heap (sjf_of g)"] sjf_baseD(2,5) [of os g]
    by (auto simp: sjf_sinv_def sjf_jobs_def active_list_def sjf_inv_def split: ptr.splits)
  then show ?case
    using context_switch_SJF_idle [of "sjf_of g" os "world_of g"] by (auto simp: context_switch_def)
next
  case (17 g i)
  then show ?case by (rule sjf_child_exits)
next
  case (18 g)
  then show ?case using sjf_remove by metis
qed (simp_all add: sjf_frame sjf_set_arrival, auto simp: sjf_sinv_def sjf_ran_def sjf_baseD)


lemma sjf_init:
  assumes "os_ok os" "0 < getpid os" "wf_table ps" "length ps \<le> 1073741824" "clock_ok t0 t1"
  obtains g where "main_init os (show_input SJF ps) t0 t1 junk = Inr g" "sjf_sys.sys_inv os g"
    "map name (procs (world_of g)) = map name ps" "arrival_ptr g = 0 \<and> jobs_of g = []"
proof -
  obtain u r where u: "main_init os (show_input SJF ps) t0 t1 junk =
      Inr ((set_arrival r (loaded os SJF ps u junk))\<lparr>it_value := r, alrm_pending := (arrival_time (hd ps) = 0)\<rparr>)"
    "unit_ok u" "duration r"
    using main_init_arrivals [OF assms(1-3,5), of SJF junk] by blast
  let ?g = "(set_arrival r (loaded os SJF ps u junk))\<lparr>it_value := r, alrm_pending := (arrival_time (hd ps) = 0)\<rparr>"
  note t = table_inv_loaded [OF assms(3), of os SJF u junk]
  have s: "sjf_of ?g = set_strategy_SJF (int (length ps)) SJF_static"
    by (simp add: loaded_def set_strategy_def globals_static_def)
  have i: "sjf_inv (world_of ?g) (sjf_of ?g)" "jobs_of ?g = []"
    using sjf_inv_init [of "int (length ps)" "world_of ?g"] assms(4) s by simp_all
  have "sjf_active (sjf_of ?g) = Null" "length (pq (inactive_heap (sjf_of ?g))) = length ps"
    using s by (simp_all add: set_strategy_SJF_def SJF_static_def heap_init_def)
  moreover have "prio_of (world_of ?g) j = None" if "j < length ps" for j
    using assms(2,3) that by (auto simp: prio_of_def world_init_def wf_table_def wf_entry_def list_all_iff)
  ultimately have "sjf_ran os ?g"
    using assms(1) t(1) u(2,3) i
    by (auto simp: sjf_ran_def sjf_sinv_def sjf_base_def table_inv_def arrival_timer_def world_init_def
        sjf_settled_def sjf_quiet_def sjf_jobs_def)
  then show ?thesis
    using that [of ?g] u(1) t(2) i(2) by (simp add: sjf_sys.sys_inv_def arrival_queue_empty_def world_init_def)
qed

lemma sjf_finished:
  "sjf_ran os g \<Longrightarrow> jobs_of g = [] \<Longrightarrow> i < length (procs (world_of g)) \<Longrightarrow> prio_of (world_of g) i = None"
  by (simp add: sjf_ran_def sjf_sinv_def sjf_base_def)


lemma sjf_initD:
  assumes "os_ok os" "0 < getpid os" "wf_table ps" "length ps \<le> 1073741824" "clock_ok t0 t1"
    "main_init os (show_input SJF ps) t0 t1 junk = Inr g0"
  shows "sjf_sys.sys_inv os g0" "map name (procs (world_of g0)) = map name ps"
    "arrival_ptr g0 = 0 \<and> jobs_of g0 = []"
  using sjf_init [OF assms(1-5), of junk] assms(6) by (metis Inr_inject)+

text \<open>The turn that fails, exactly.\<close>

lemma sjf_turn_fails_iff:
  assumes inv: "sjf_sys.sys_inv os g" and p: "pending g = {sig}"
  shows "(\<exists>e. loop_iteration os [sig] g = Inl e) \<longleftrightarrow>
     sig = SIGCHLD \<and> waiting g = [] \<and> \<not> arrival_queue_empty g"
proof (cases sig)
  case SIGALRM
  then show ?thesis using sjf_sys.alarm_turn [OF inv] p by (metis signal.distinct(1) sum.distinct(1))
next
  case SIGCHLD
  have ex: "sjf_exited os g" using inv p SIGCHLD by (simp add: sjf_sys.sys_inv_def)
  then have "sjf_exited os (sigsuspend [SIGCHLD] g)" by (simp add: with_signals_simps sjf_frame)
  then obtain h where h: "bindR (wait_null (sigsuspend [SIGCHLD] g)) remove_current_process = Inr h"
    "jobs_of h = waiting g"
    using sjf_remove by (metis with_signals_simps(5) sjf_frame(5))
  have base: "sjf_base os g" using ex by (simp add: sjf_exited_def)
  have fails: "\<exists>e. loop_iteration os [SIGCHLD] g = Inl e" if "waiting g = []" "\<not> arrival_queue_empty g"
    using loop_iteration_SJF_gap [of g _ _ os] that sjf_baseD(2,5) [OF base] ex
      heap_size_list [of "world_of g" "inactive_heap (sjf_of g)"] by (auto simp: sjf_inv_def sjf_exited_def)
  show ?thesis
  proof (rule sjf_sys.exit_turn [OF inv])
    show "pending g = {SIGCHLD}" using p SIGCHLD by simp
  next
    fix b g' assume "loop_iteration os [SIGCHLD] g = Inr (b, g')"
    with fails SIGCHLD show ?thesis by auto
  next
    fix e g' assume "loop_iteration os [SIGCHLD] g = Inl e" "\<not> arrival_queue_empty g"
      "bindR (wait_null (sigsuspend [SIGCHLD] g)) remove_current_process = Inr g'" "mset (jobs_of g') = {#}"
    with SIGCHLD h show ?thesis by auto
  qed
qed (use p in simp)

section \<open>SJF can finish unless it is about to fail\<close>

lemma sjf_busy_runs:
  assumes "sjf_ran os g" "jobs_of g \<noteq> []"
  shows "\<exists>i. runs (world_of g) i"
proof -
  have base: "sjf_base os g" and st: "sjf_settled os (sjf_of g) (world_of g)"
    using assms(1) by (simp_all add: sjf_ran_def sjf_sinv_def)
  note b = sjf_baseD [OF base]
  obtain a where a: "sjf_active (sjf_of g) = At a"
    using assms by (cases "sjf_active (sjf_of g)") (auto simp: sjf_ran_def)
  have "low_prio os < run_prio os" using b(1) by (simp add: os_ok_def sched_ok_def)
  moreover have "a < length (procs (world_of g))"
    using b(5) a by (simp add: sjf_inv_def sjf_jobs_def active_list_def pids_ok_def)
  ultimately have "runs (world_of g) a"
    using base st a unfolding runs_def sjf_base_def sjf_settled_def sjf_quiet_def sjf_jobs_def active_list_def
    by fastforce
  then show ?thesis by blast
qed

interpretation sjf_fin: arrival_finishing os "sjf_sinv os" "\<lambda>g. mset (jobs_of g)" add_mset
  "sjf_ran os" "sjf_exited os" "\<lambda>m. m = {#}" False size for os
proof (unfold_locales, goal_cases)
  case (1 g)
  then show ?case using sjf_busy_runs by simp
next
  case (3 g g')
  then have "length (jobs_of g) = Suc (length (waiting g))"
    by (auto simp: sjf_exited_def sjf_jobs_def active_list_def)
  moreover have "jobs_of g' = waiting g" using sjf_remove [OF 3(1)] 3(2) by (metis Inr_inject)
  ultimately show ?case by simp
qed simp_all

lemma sjf_init_live:
  assumes "os_ok os" "0 < getpid os" "wf_table ps" "length ps \<le> 1073741824" "clock_ok t0 t1"
    "UNIT_MEASURE_REPEAT \<le> nanos t1 - nanos t0" "main_init os (show_input SJF ps) t0 t1 junk = Inr g0"
  shows "sjf_fin.live os g0"
  using sjf_initD(1) [OF assms(1-5,7)] main_init_armed [OF assms(1-3,5) _ assms(6,7)]
  by (simp add: sjf_fin.live_def)


lemma sjf_init_steps:
  assumes "os_ok os" "0 < getpid os" "wf_table ps" "length ps \<le> 1073741824" "clock_ok t0 t1"
    "main_init os (show_input SJF ps) t0 t1 junk = Inr g0"
  shows "sjf_fin.steps_left g0 \<le> 4 * length ps"
  using sjf_fin.steps_left_start [OF sjf_initD(2) [OF assms]] sjf_initD(3) [OF assms] by simp


lemma sjf_init_on_time:
  assumes "os_ok os" "0 < getpid os" "wf_table ps" "length ps \<le> 1073741824" "clock_ok t0 t1"
    "UNIT_MEASURE_REPEAT \<le> nanos t1 - nanos t0" "main_init os (show_input SJF ps) t0 t1 junk = Inr g0"
  shows "sjf_sys.prompt.on_time os g0 0"
  using sjf_initD(1) [OF assms(1-5,7)] main_init_clock [OF assms(1-3,5) _ assms(6,7)]
  by (intro sjf_sys.prompt.on_time_start) simp_all

end
