(* ===== verification/Paced_System.thy ===== *)
theory Paced_System
  imports Paced RR_Progress FIFO_System SJF_System
begin

text \<open>
  When the programs end. The strategies FIFO, RR and SJF meet the interface of \<open>Paced\<close>: if no process
  arrives after all those before it have terminated, they end when the first arrival and all the
  execution times have passed. SJF fails at a gap, and never gets past it.
\<close>

section \<open>Strategies without time slices\<close>

context arrival_finishing
begin

lemma sys_inv_timer:
  assumes "sys_inv g"
  shows "arrival_timer g"
proof (cases "chld_pending g")
  case True
  then have "exited g" using assms by (simp add: sys_inv_def)
  then obtain g' where g': "bindR (wait_null g) remove_current_process = Inr g'" "inv g'" using remove by metis
  have "timer_info g' = timer_info g" using reap_frame(2) [OF g'(1)] .
  with inv_timer [OF g'(2)] show ?thesis by (simp add: arrival_timer_def)
next
  case False
  then show ?thesis using assms settled_inv inv_timer by (simp add: sys_inv_def)
qed

lemma live_timer_value:
  assumes "live g" "arrival_clock g T" "timer_value g = Inr v"
  shows "0 \<le> nanos v \<and> (\<not> arrival_queue_empty g \<longrightarrow>
      nanos v \<le> nanos (time_unit (timer_info g)) * (arrival_times g ! arrival_ptr g - T))"
proof -
  have inv: "sys_inv g" using assms(1) by (simp add: live_def)
  then have "v = arrival_remaining (timer_info g)" using sys_inv_table(2) assms(3) by (simp add: timer_value_def)
  then show ?thesis
    using sys_inv_timer [OF inv] nanos_nonneg_iff assms(2)
    by (auto simp: arrival_timer_def duration_def arrival_clock_def Let_def)
qed

lemma live_last:
  assumes "live g" "pending g = {sig}" "loop_iteration os [sig] g = Inr (True, g')"
  shows "table_inv os g'" "arrival_queue_empty g'" "settled g'" "idle (view g')"
proof -
  have "sys_inv g" using assms(1) by (simp add: live_def)
  from last_turn [OF this assms(2,3)] turnD [OF this assms(2,3)]
  show "table_inv os g'" "arrival_queue_empty g'" "settled g'" "idle (view g')" using sys_inv_table(1) by simp_all
qed

lemma live_alarm_arrives:
  "live g \<Longrightarrow> pending g = {SIGALRM} \<Longrightarrow> loop_iteration os [SIGALRM] g = Inr (False, g') \<Longrightarrow> arrival_ptr g' \<noteq> arrival_ptr g"
  using alarm_turnD(4) [of g False g'] by (simp add: live_def)

lemma live_busy:
  "live g \<Longrightarrow> pending g = {} \<Longrightarrow> arrival_queue_empty g \<Longrightarrow> \<exists>i. runs (world_of g) i"
  using busy_runs live_settled by (auto simp: live_def)

end

sublocale arrival_finishing \<subseteq> lively: punctual os "\<lambda>g T. live g \<and> arrival_clock g T"
proof (unfold_locales, goal_cases)
  case (1 g T)
  then show ?case using sys_inv_table(1) by (simp add: live_def)
next
  case (2 g T)
  then show ?case using live_step [OF timer_fires, of g] by simp
next
  case (3 g T i)
  then show ?case using live_step [OF child_terminates, of g i] by simp
next
  case (4 g T g')
  then have "sys_inv g" "live g'" using live_step [OF wakes_up, of g SIGCHLD g'] by (simp_all add: live_def)
  with 4 prompt.clock_exit_turn [of g T g'] show ?case by simp
next
  case (5 g T g' v)
  then have "sys_inv g" "live g'" using live_step [OF wakes_up, of g SIGALRM g'] by (simp_all add: live_def)
  with 5 prompt.clock_alarm_turn [of g T g' v] show ?case by simp
qed

text \<open>FIFO.\<close>

lemma fifo_sys_inv_base: "fifo_sys.sys_inv os g \<Longrightarrow> \<exists>k. fifo_base os k g"
  by (auto simp: fifo_sys.sys_inv_def fifo_exited_def split: if_splits)

interpretation fifo_work: work_conserving os "\<lambda>g T. fifo_fin.live os g \<and> arrival_clock g T" fifo_fin.steps_left for os
proof (unfold_locales, goal_cases)
  case (1 g T)
  then show ?case using fifo_sys_inv_base fifo_baseD(1) unfolding fifo_fin.live_def by blast
next
  case (2 g T v)
  then show ?case using fifo_fin.live_timer_value by blast
next
  case (3 g T)
  then show ?case by (simp add: fifo_fin.live_def)
next
  case (4 g T i)
  then obtain k where "fifo_base os k g" using fifo_sys_inv_base unfolding fifo_fin.live_def by blast
  then show ?case using 4 by (auto simp: fifo_base_def)
next
  case (5 g T)
  then show ?case using fifo_fin.live_busy by blast
next
  case (6 g T sig g')
  then show ?case using fifo_fin.live_last [of os g sig g'] fifo_finished by blast
next
  case (7 g T g' v)
  then show ?case using fifo_fin.live_alarm_arrives by blast
next
  case (8 g T g')
  then show ?case using fifo_fin.steps_left_step by (simp add: fifo_fin.live_def)
qed

text \<open>SJF.\<close>

lemma sjf_sys_inv_base: "sjf_sys.sys_inv os g \<Longrightarrow> sjf_base os g"
  by (auto simp: sjf_sys.sys_inv_def sjf_ran_def sjf_sinv_def sjf_exited_def split: if_splits)

interpretation sjf_work: work_conserving os "\<lambda>g T. sjf_fin.live os g \<and> arrival_clock g T" sjf_fin.steps_left for os
proof (unfold_locales, goal_cases)
  case (1 g T)
  then show ?case using sjf_sys_inv_base sjf_baseD(1) by (auto simp: sjf_fin.live_def)
next
  case (2 g T v)
  then show ?case using sjf_fin.live_timer_value by blast
next
  case (3 g T)
  then show ?case by (simp add: sjf_fin.live_def)
next
  case (4 g T i)
  then have "sjf_base os g" using sjf_sys_inv_base by (simp add: sjf_fin.live_def)
  then show ?case using 4 sjf_baseD(7,9) by fastforce
next
  case (5 g T)
  then show ?case using sjf_fin.live_busy by blast
next
  case (6 g T sig g')
  then show ?case using sjf_fin.live_last [of os g sig g'] sjf_finished by simp
next
  case (7 g T g' v)
  then show ?case using sjf_fin.live_alarm_arrives by blast
next
  case (8 g T g')
  then show ?case using sjf_fin.steps_left_step by (simp add: sjf_fin.live_def)
qed

section \<open>Round robin\<close>

lemma rr_live_timer_value:
  assumes "rr_live os g T" "timer_value g = Inr v"
  shows "0 < nanos v \<or> \<not> arrival_queue_empty g" "0 \<le> nanos v"
    "\<not> arrival_queue_empty g \<Longrightarrow> nanos v \<le> nanos (time_unit (timer_info g)) * (arrival_times g ! arrival_ptr g - T)"
proof -
  have base: "rr_base os g" and c: "rr_clock g T" using assms(1) by (simp_all add: rr_live_def rr_sys_inv_def)
  note b = rr_baseD(2,4) [OF base] and u = rr_clockD [OF c]
  have s: "0 < nanos (timeslice_remaining (timer_info g))" using u(1,3) by simp
  have v: "nanos v = (if arrival_queue_empty g then nanos (timeslice_remaining (timer_info g))
      else min (nanos (arrival_remaining (timer_info g))) (nanos (timeslice_remaining (timer_info g))))"
    using assms(2) timer_value_RR [OF b(2,1)] b(1) by (auto simp: timer_value_def Let_def min_def split: if_splits)
  have a: "0 \<le> nanos (arrival_remaining (timer_info g))"
    using b(2) nanos_nonneg_iff by (simp add: timer_inv_def duration_def)
  show "0 < nanos v \<or> \<not> arrival_queue_empty g" "0 \<le> nanos v" using s v a by auto
  show "nanos v \<le> nanos (time_unit (timer_info g)) * (arrival_times g ! arrival_ptr g - T)" if "\<not> arrival_queue_empty g"
    using v u(5) [OF that] that by simp
qed

interpretation rr_worked: work_conserving os "rr_live os" rr_steps_left for os
proof (unfold_locales, goal_cases)
  case (1 g T)
  then show ?case using rr_baseD(1) unfolding rr_live_def rr_sys_inv_def by blast
next
  case (2 g T v)
  then show ?case using rr_live_timer_value by blast
next
  case (3 g T)
  then show ?case by (simp add: rr_live_def)
next
  case (4 g T i)
  then have "rr_base os g" by (simp add: rr_live_def rr_sys_inv_def)
  then show ?case using 4 rr_baseD(7,8) by fastforce
next
  case (5 g T)
  then show ?case using rr_hd_runs [of os g] by (auto simp: rr_live_def)
next
  case (6 g T sig g')
  then have inv: "rr_sys_inv os g" by (simp add: rr_live_def)
  have g': "rr_sys_inv os g'" "arrival_queue_empty g' \<and> queue_of g' = []"
    by (rule rr_turn [OF inv 6(2)], use 6(3) in simp)+
  moreover have "table_inv os g'" using g'(1) rr_baseD(3) by (simp add: rr_sys_inv_def)
  ultimately show ?case using rr_finished_output(2) [of os g'] by simp
next
  case (7 g T g' v)
  obtain T' where T': "T < T'" "nanos (time_unit (timer_info g)) * T' = nanos (time_unit (timer_info g)) * T + nanos v"
    by (rule rr_live_alarm [OF 7(1-3), of v]) (use 7(4,5) in auto)
  have "0 < nanos (time_unit (timer_info g))" using 7(1) rr_clockD(1) unfolding rr_live_def by blast
  then have "nanos (time_unit (timer_info g)) * T < nanos (time_unit (timer_info g)) * T'"
    using T'(1) by (simp add: mult_less_cancel_left_pos)
  with T'(2) show ?case by simp
next
  case (8 g T g')
  then show ?case using rr_steps_left_step [of os g g'] by (simp add: rr_live_def rr_busy_def slice_over_def)
qed

section \<open>The table after initialisation\<close>

lemma create_timer_world: "create_timer_and_init_timespec os g = Inr g' \<Longrightarrow> world_of g' = world_of g"
  by (auto simp: create_timer_and_init_timespec_def init_arrival_remaining_def init_timeslice_remaining_def
      scheduler_exit_def Let_def split: if_splits dest!: set_timer_world)

lemma main_init_procs:
  assumes "sched_ok os" "0 < getpid os" "wf_table ps" "clock_ok t0 t1" "main_init os (show_input s ps) t0 t1 junk = Inr g"
  shows "procs (world_of g) = ps"
proof -
  obtain u where "main_init os (show_input s ps) t0 t1 junk = create_timer_and_init_timespec os (loaded os s ps u junk)"
    using main_init_show [OF assms(1-4)] by blast
  then show ?thesis using assms(5) create_timer_world [of os "loaded os s ps u junk" g] by (simp add: world_init_def)
qed

section \<open>When the programs end\<close>

lemma fifo_ends_at:
  assumes "os_ok os" "0 < getpid os" "wf_table ps" "clock_ok t0 t1" "UNIT_MEASURE_REPEAT \<le> nanos t1 - nanos t0"
    "no_gap ps" "main_init os (show_input FIFO ps) t0 t1 junk = Inr g0"
  shows "ends_at os g0 ((nanos t1 - nanos t0) div UNIT_MEASURE_REPEAT * busy_end ps (length ps))"
proof -
  note c = main_init_clock [OF assms(1-4) _ assms(5,7), simplified]
  have ps: "procs (world_of g0) = ps" "ps \<noteq> []"
    using main_init_procs [OF _ assms(2-4,7)] assms(1,3) by (auto simp: os_ok_def wf_table_def)
  have on: "fifo_fin.lively.on_time os g0 0"
    using fifo_init_live [OF assms(1-5,7)] c by (intro fifo_fin.lively.on_time_start) auto
  have inv: "fifo_sys.sys_inv os g" if "reachable os g0 g" for g
    using fifo_sys.reachable_inv [OF that fifo_initD(1) [OF assms(1-4,7)]] .
  have "ends_at os g0 (nanos (time_unit (timer_info g0)) * busy_end (procs (world_of g0)) (length (procs (world_of g0))))"
  proof (rule fifo_work.paced_ends_at [OF on])
    fix t r d g sig e assume "paced os g0 t r d g" "pending g = {sig}"
    then show "loop_iteration os [sig] g \<noteq> Inl e"
      using fifo_sys.turn_ok [OF inv [OF paced_reachable]] by fastforce
  next
    fix g assume "reachable os g0 g"
    then show "\<not> (alrm_pending g \<and> chld_pending g)" using inv by (auto simp: fifo_sys.sys_inv_def)
  qed (use ps assms(6) fifo_initD(3) [OF assms(1-4,7)] in simp_all)
  then show ?thesis using ps c(6) by simp
qed

lemma rr_ends_at:
  assumes "os_ok os" "0 < getpid os" "wf_table ps" "clock_ok t0 t1" "UNIT_MEASURE_REPEAT \<le> nanos t1 - nanos t0"
    "no_tie (map arrival_time ps)" "no_gap ps" "main_init os (show_input RR ps) t0 t1 junk = Inr g0"
  shows "ends_at os g0 ((nanos t1 - nanos t0) div UNIT_MEASURE_REPEAT * busy_end ps (length ps))"
proof -
  note on = rr_init_on_time [OF assms(1-6,8)]
  have ps: "procs (world_of g0) = ps" "ps \<noteq> []"
    using main_init_procs [OF _ assms(2-4,8)] assms(1,3) by (auto simp: os_ok_def wf_table_def)
  have inv: "rr_sys_inv os g" if "reachable os g0 g" for g
    using rr_reachable_inv [OF that rr_initD(1) [OF assms(1-4,8)]] .
  have "ends_at os g0 (nanos (time_unit (timer_info g0)) * busy_end (procs (world_of g0)) (length (procs (world_of g0))))"
  proof (rule rr_worked.paced_ends_at [OF on(1)])
    fix t r d g sig e assume p: "paced os g0 t r d g" "pending g = {sig}"
    show "loop_iteration os [sig] g \<noteq> Inl e"
      by (rule rr_turn [OF inv [OF paced_reachable [OF p(1)]] p(2)]) simp
  next
    fix g assume "reachable os g0 g"
    then show "\<not> (alrm_pending g \<and> chld_pending g)" using inv by (auto simp: rr_sys_inv_def)
  qed (use ps assms(7) rr_initD(3) [OF assms(1-4,8)] in simp_all)
  then show ?thesis using ps on(2) by simp
qed

text \<open>Under SJF the loop does not survive being idle.\<close>

lemma sjf_turn_busy:
  assumes inv: "sjf_sys.sys_inv os h" and turn: "pending h = {sig}" "loop_iteration os [sig] h = Inr (b, g)"
    and ne: "\<not> arrival_queue_empty g"
  shows "jobs_of g \<noteq> []"
proof (cases sig)
  case SIGALRM
  then have "mset (jobs_of g) = fold add_mset [arrival_ptr h..<arrival_ptr g] (mset (jobs_of h))" "arrival_ptr h < arrival_ptr g"
    using sjf_sys.alarm_turnD(4,7) [OF inv, of b g] turn by simp_all
  then show ?thesis using sjf_sys.fold_added_busy [of "[arrival_ptr h..<arrival_ptr g]"] by auto
next
  case SIGCHLD
  then have l: "pending h = {SIGCHLD}" "loop_iteration os [SIGCHLD] h = Inr (b, g)" using turn by simp_all
  have ex: "sjf_exited os (sigsuspend [SIGCHLD] h)"
    using inv l(1) by (simp add: sjf_sys.sys_inv_def with_signals_simps sjf_frame)
  obtain k where k: "bindR (wait_null (sigsuspend [SIGCHLD] h)) remove_current_process = Inr k" "mset (jobs_of g) = mset (jobs_of k)"
    using sjf_sys.exit_turnD(8) [OF inv l] by metis
  have "jobs_of k = waiting h" using sjf_remove [OF ex] k(1) by (metis Inr_inject with_signals_simps(5) sjf_frame(5))
  moreover have "waiting h \<noteq> []"
    using sjf_turn_fails_iff [OF inv l(1)] l(2) ne sjf_sys.exit_turnD(7) [OF inv l] by auto
  ultimately show ?thesis using k(2) by auto
qed (use turn in simp)

lemma sjf_init_never_idle:
  assumes "os_ok os" "0 < getpid os" "wf_table ps" "length ps \<le> 1073741824" "clock_ok t0 t1"
    "UNIT_MEASURE_REPEAT \<le> nanos t1 - nanos t0" "main_init os (show_input SJF ps) t0 t1 junk = Inr g0"
  shows "sjf_work.never_idle os g0"
proof -
  have "\<exists>i. runs (world_of g) i" if r: "reachable os g0 g" and g: "pending g = {}" "0 < arrival_ptr g" for g
  proof -
    have live: "sjf_fin.live os g" using sjf_fin.live_reachable [OF r sjf_init_live [OF assms]] .
    have "jobs_of g \<noteq> []"
    proof (cases "arrival_queue_empty g")
      case True
      then show ?thesis using live by (auto simp: sjf_fin.live_def)
    next
      case False
      from r show ?thesis
      proof cases
        case reach_start
        then show ?thesis using g(2) sjf_initD(3) [OF assms(1-5,7)] by simp
      next
        case (reach_step h)
        have inv: "sjf_sys.sys_inv os h" using sjf_sys.reachable_inv [OF reach_step(1) sjf_initD(1) [OF assms(1-5,7)]] .
        from reach_step(2) show ?thesis
        proof cases
          case (wakes_up sig)
          show ?thesis using sjf_turn_busy [OF inv wakes_up False] .
        qed (use g(1) in simp_all)
      qed
    qed
    then show ?thesis using sjf_busy_runs sjf_fin.live_settled [OF live g(1)] by blast
  qed
  then show ?thesis unfolding sjf_work.never_idle_def by blast
qed

lemma sjf_init_lively:
  assumes "os_ok os" "0 < getpid os" "wf_table ps" "length ps \<le> 1073741824" "clock_ok t0 t1"
    "UNIT_MEASURE_REPEAT \<le> nanos t1 - nanos t0" "main_init os (show_input SJF ps) t0 t1 junk = Inr g0"
  shows "sjf_fin.lively.on_time os g0 0" "procs (world_of g0) = ps" "ps \<noteq> []" "arrival_ptr g0 = 0"
    "nanos (time_unit (timer_info g0)) = (nanos t1 - nanos t0) div UNIT_MEASURE_REPEAT"
proof -
  note c = main_init_clock [OF assms(1-3,5) _ assms(6,7), simplified]
  show "procs (world_of g0) = ps" "ps \<noteq> []"
    using main_init_procs [OF _ assms(2,3,5,7)] assms(1,3) by (auto simp: os_ok_def wf_table_def)
  show "sjf_fin.lively.on_time os g0 0"
    using sjf_init_live [OF assms] c by (intro sjf_fin.lively.on_time_start) auto
  show "arrival_ptr g0 = 0" using sjf_initD(3) [OF assms(1-5,7)] by simp
  show "nanos (time_unit (timer_info g0)) = (nanos t1 - nanos t0) div UNIT_MEASURE_REPEAT" using c(6) .
qed

text \<open>A turn can fail only when all that have arrived have terminated before the next process is due.\<close>

lemma sjf_overlapping_turn:
  assumes init: "os_ok os" "0 < getpid os" "wf_table ps" "length ps \<le> 1073741824" "clock_ok t0 t1"
    "UNIT_MEASURE_REPEAT \<le> nanos t1 - nanos t0" "main_init os (show_input SJF ps) t0 t1 junk = Inr g0"
    and ov: "overlapping ps" and p: "paced os g0 t r d g" and sig: "pending g = {sig}"
  shows "loop_iteration os [sig] g \<noteq> Inl e"
proof
  assume "loop_iteration os [sig] g = Inl e"
  note i = sjf_init_lively [OF init]
  have inv: "sjf_sys.sys_inv os g"
    using sjf_sys.reachable_inv [OF paced_reachable [OF p] sjf_initD(1) [OF init(1-5,7)]] .
  then have f: "sig = SIGCHLD" "waiting g = []" "\<not> arrival_queue_empty g"
    using sjf_turn_fails_iff [OF inv sig] \<open>loop_iteration os [sig] g = Inl e\<close> by blast+
  have s: "\<not> alrm_pending g" using sig f(1) by simp
  have ex: "sjf_exited os g" using inv sig f(1) by (simp add: sjf_sys.sys_inv_def)
  then obtain a where a: "sjf_base os g" "sjf_active (sjf_of g) = At a" "prio_of (world_of g) a = None"
    by (auto simp: sjf_exited_def)
  have tab: "table_inv os g" using sjf_baseD(3) [OF a(1)] .
  note pt = sjf_work.paced_timed [OF p i(1)] and u = sjf_work.paced_unit [OF p i(1)]
  have n: "arrival_ptr g < length ps"
    using f(3) table_inv_queue [OF tab] tab u(4) i(2) by (auto simp: table_inv_def Let_def)
  have dead: "prio_of (world_of g) j = None" if "j < length ps" for j
    using sjf_baseD(9) [OF a(1), of j] a(2,3) f(2) that u(4) i(2) by (auto simp: sjf_jobs_def active_list_def)
  have "a < arrival_ptr g" using sjf_baseD(7) [OF a(1)] a(2) by (auto simp: sjf_jobs_def active_list_def)
  then have ptr: "0 < arrival_ptr g" by simp
  have "(\<Sum>j < arrival_ptr g. d j) = 0"
    using sjf_work.paced_todoD [OF p i(1,4)] dead n by (simp add: sjf_work.paced_todo_def)
  then have "t = nanos (time_unit (timer_info g0)) * busy_end ps (arrival_ptr g)"
    using sjf_work.conservation [OF p i(1,4)] sjf_init_never_idle [OF init] ptr i(2) by (simp add: sjf_work.conserved_def)
  moreover have "arrival_times g ! arrival_ptr g < busy_end ps (arrival_ptr g)"
    using ov sjf_work.next_group [OF pt s f(3) ptr] ptr n u(3) i(2) by (simp add: overlapping_def list_all_iff)
  ultimately show False
    using sjf_work.paced_due [OF pt f(3)] u(1,2) by (simp add: mult_le_cancel_left_pos)
qed

lemma sjf_ends_at:
  assumes init: "os_ok os" "0 < getpid os" "wf_table ps" "length ps \<le> 1073741824" "clock_ok t0 t1"
    "UNIT_MEASURE_REPEAT \<le> nanos t1 - nanos t0" "main_init os (show_input SJF ps) t0 t1 junk = Inr g0"
    and ov: "overlapping ps"
  shows "ends_at os g0 ((nanos t1 - nanos t0) div UNIT_MEASURE_REPEAT * busy_end ps (length ps))"
proof -
  note i = sjf_init_lively [OF init]
  have "ends_at os g0 (nanos (time_unit (timer_info g0)) * busy_end (procs (world_of g0)) (length (procs (world_of g0))))"
  proof (rule sjf_work.paced_ends_at [OF i(1,4)])
    fix t r d g sig e assume "paced os g0 t r d g" "pending g = {sig}"
    then show "loop_iteration os [sig] g \<noteq> Inl e" by (rule sjf_overlapping_turn [OF init ov])
  next
    fix g assume "reachable os g0 g"
    then have "sjf_sys.sys_inv os g" using sjf_sys.reachable_inv sjf_initD(1) [OF init(1-5,7)] by blast
    then show "\<not> (alrm_pending g \<and> chld_pending g)" by (auto simp: sjf_sys.sys_inv_def)
  qed (use sjf_init_never_idle [OF init] i in simp_all)
  then show ?thesis using i by simp
qed

lemma sjf_gap:
  assumes init: "os_ok os" "0 < getpid os" "wf_table ps" "length ps \<le> 1073741824" "clock_ok t0 t1"
    "UNIT_MEASURE_REPEAT \<le> nanos t1 - nanos t0" "main_init os (show_input SJF ps) t0 t1 junk = Inr g0"
    and k: "k < length ps" "busy_end ps k < arrival_time (ps ! k)" and p: "paced os g0 t r d g"
  shows "arrival_ptr g \<le> k" "pending g = {sig} \<Longrightarrow> loop_iteration os [sig] g \<noteq> Inr (True, g')"
proof -
  note i = sjf_init_lively [OF init]
  show *: "arrival_ptr g \<le> k"
    using sjf_work.gap_not_passed [OF p i(1,4) sjf_init_never_idle [OF init], of k] k i(2) by fastforce
  show "loop_iteration os [sig] g \<noteq> Inr (True, g')" if "pending g = {sig}"
    using sjf_work.all_arrived_when_left(1) [OF p i(1) that, of g'] * k(1) i(2) by auto
qed

end
