(* ===== verification/Test_Inputs.thy ===== *)
theory Test_Inputs
  imports Paced_System
begin

text \<open>
  The inputs that the repository ships for its tests (\<^verbatim>\<open>OS_PJ1_Test\<close>), as their bytes are, and what the
  program does with them.
\<close>

section \<open>Inputs in other formats\<close>

text \<open>The strategy and the table that \<^verbatim>\<open>main\<close> reads from a text.\<close>

definition input_table :: "string \<Rightarrow> (ScheduleStrategy \<times> ProcessInfo list) res" where
  "input_table input =
     bindR (scan_name input) (\<lambda>(strat, s1).
     bindR (str_to_strategy strat) (\<lambda>strategy.
     bindR (read_process_info s1) (\<lambda>(n, ps, s2). Inr (strategy, ps))))"

text \<open>Nothing else of the text matters: the program goes on as with the same table in the format of \<open>Input\<close>.\<close>

lemma main_init_input_table:
  assumes "input_table input = Inr (st, ps)" "wf_table ps"
  shows "main_init os input t0 t1 junk = main_init os (show_input st ps) t0 t1 junk"
proof -
  obtain strat s1 n s2 where r: "scan_name input = Inr (strat, s1)" "str_to_strategy strat = Inr st"
    "read_process_info s1 = Inr (n, ps, s2)"
    using assms(1) by (auto simp: input_table_def)
  have n: "n = int (length ps)" using read_process_info_length [OF r(3)] assms(2) by (cases "n < 0") (auto simp: wf_table_def)
  have "read_process_info (newline @ show_table ps) = Inr (int (length ps), ps, newline)"
    using assms(2) isspace_newline(1) by (intro read_process_info_show) (auto simp: wf_table_def)
  moreover obtain strat' where "scan_name (show_input st ps) = Inr (strat', newline @ show_table ps)" "str_to_strategy strat' = Inr st"
    using scan_name_strategy [of st "show_table ps"] by (cases st) (auto simp: show_input_def)
  ultimately show ?thesis using r n by (simp add: main_init_def Let_def cong: sum.case_cong)
qed

section \<open>The files\<close>

definition crlf :: string where
  "crlf = [CHR 0x0D, CHR 0x0A]"

definition FIFO_1_txt :: string where
  "FIFO_1_txt = ''FIFO'' @ crlf @ ''5'' @ crlf @ ''P1 0 500'' @ crlf @ ''P2 0 500'' @ crlf @ ''P3 0 500'' @
     crlf @ ''P4 0 500'' @ crlf @ ''P5 0 500''"

definition FIFO_2_txt :: string where
  "FIFO_2_txt = ''FIFO'' @ crlf @ ''4'' @ crlf @ ''P1 0 80000'' @ crlf @ ''P2 100 5000'' @ crlf @
     ''P3 200 1000'' @ crlf @ ''P4 300 1000''"

definition FIFO_3_txt :: string where
  "FIFO_3_txt = ''FIFO'' @ crlf @ ''7'' @ crlf @ ''P1 0 8000'' @ crlf @ ''P2 200 5000'' @ crlf @
     ''P3 300 3000'' @ crlf @ ''P4 400 1000'' @ crlf @ ''P5 500 1000'' @ crlf @ ''P6 500 1000'' @ crlf @
     ''P7 600 4000'' @ crlf"

definition FIFO_4_txt :: string where
  "FIFO_4_txt = ''FIFO'' @ crlf @ ''4'' @ crlf @ ''P1 0 2000'' @ crlf @ ''P2 500 500'' @ crlf @
     ''P3 500 200'' @ crlf @ ''P4 1500 500'' @ crlf"

definition FIFO_5_txt :: string where
  "FIFO_5_txt = ''FIFO'' @ crlf @ ''7'' @ crlf @ ''P1 0 8000'' @ crlf @ ''P2 200 5000'' @ crlf @
     ''P3 200 3000'' @ crlf @ ''P4 400 1000'' @ crlf @ ''P5 400 1000'' @ crlf @ ''P6 600 1000'' @ crlf @
     ''P7 600 4000'' @ crlf"

definition PSJF_1_txt :: string where
  "PSJF_1_txt = ''PSJF'' @ crlf @ ''4'' @ crlf @ ''P1 0 10000'' @ crlf @ ''P2 1000 7000'' @ crlf @
     ''P3 2000 5000'' @ crlf @ ''P4 3000 3000'' @ crlf"

definition PSJF_2_txt :: string where
  "PSJF_2_txt = ''PSJF'' @ crlf @ ''5'' @ crlf @ ''P1 0 3000'' @ crlf @ ''P2 1000 1000'' @ crlf @
     ''P3 2000 4000'' @ crlf @ ''P4 5000 2000'' @ crlf @ ''P5 7000 1000''"

definition PSJF_3_txt :: string where
  "PSJF_3_txt = ''PSJF'' @ crlf @ ''4'' @ crlf @ ''P1 0 2000'' @ crlf @ ''P2 500 500'' @ crlf @
     ''P3 1000 500'' @ crlf @ ''P4 1500 500'' @ crlf"

definition PSJF_4_txt :: string where
  "PSJF_4_txt = ''PSJF'' @ crlf @ ''4'' @ crlf @ ''P1 0 7000'' @ crlf @ ''P2 0 2000'' @ crlf @
     ''P3 100 1000'' @ crlf @ ''P4 200 4000'' @ crlf"

definition PSJF_5_txt :: string where
  "PSJF_5_txt = ''PSJF'' @ crlf @ ''5'' @ crlf @ ''P1 100 100'' @ crlf @ ''P2 100 4000'' @ crlf @
     ''P3 200 200'' @ crlf @ ''P4 200 4000'' @ crlf @ ''P5 200 7000''"

definition RR_1_txt :: string where
  "RR_1_txt = ''RR'' @ crlf @ ''5'' @ crlf @ ''P1 0 500'' @ crlf @ ''P2 0 500'' @ crlf @ ''P3 0 500'' @
     crlf @ ''P4 0 500'' @ crlf @ ''P5 0 500''"

definition RR_2_txt :: string where
  "RR_2_txt = ''RR'' @ crlf @ ''2'' @ crlf @ ''P1 600 4000'' @ crlf @ ''P2 800 5000'' @ crlf"

definition RR_3_txt :: string where
  "RR_3_txt = ''RR'' @ crlf @ ''6'' @ crlf @ ''P1 1200 5000'' @ crlf @ ''P2 2400 4000'' @ crlf @
     ''P3 3600 3000'' @ crlf @ ''P4 4800 7000'' @ crlf @ ''P5 5200 6000'' @ crlf @ ''P6 5800 5000'' @ crlf"

definition RR_5_txt :: string where
  "RR_5_txt = ''RR'' @ crlf @ ''7'' @ crlf @ ''P1 0 8000'' @ crlf @ ''P2 200 5000'' @ crlf @
     ''P3 200 3000'' @ crlf @ ''P4 400 1000'' @ crlf @ ''P5 400 1000'' @ crlf @ ''P6 600 1000'' @ crlf @
     ''P7 600 4000'' @ crlf"

definition SJF_1_txt :: string where
  "SJF_1_txt = ''SJF'' @ crlf @ ''4'' @ crlf @ ''P1 0 7000'' @ crlf @ ''P2 0 2000'' @ crlf @
     ''P3 100 1000'' @ crlf @ ''P4 200 4000'' @ crlf"

definition SJF_2_txt :: string where
  "SJF_2_txt = ''SJF'' @ crlf @ ''5'' @ crlf @ ''P1 100 100'' @ crlf @ ''P2 100 4000'' @ crlf @
     ''P3 200 200'' @ crlf @ ''P4 200 4000'' @ crlf @ ''P5 200 7000''"

definition SJF_3_txt :: string where
  "SJF_3_txt = ''SJF'' @ crlf @ ''8'' @ crlf @ ''P1 100 3000'' @ crlf @ ''P2 100 5000'' @ crlf @
     ''P3 100 7000'' @ crlf @ ''P4 200 10'' @ crlf @ ''P5 200 10'' @ crlf @ ''P6 300 4000'' @ crlf @
     ''P7 400 4000'' @ crlf @ ''P8 500 9000''"

definition SJF_4_txt :: string where
  "SJF_4_txt = ''SJF'' @ crlf @ ''5'' @ crlf @ ''P1 0 3000'' @ crlf @ ''P2 1000 1000'' @ crlf @
     ''P3 2000 4000'' @ crlf @ ''P4 5000 2000'' @ crlf @ ''P5 7000 1000''"

definition SJF_5_txt :: string where
  "SJF_5_txt = ''SJF'' @ crlf @ ''4'' @ crlf @ ''P1 0 2000'' @ crlf @ ''P2 500 500'' @ crlf @
     ''P3 1000 500'' @ crlf @ ''P4 1500 500'' @ crlf"

section \<open>What the program does with them\<close>

text \<open>
  The inputs for FIFO, RR and SJF, each with the time in units at which the first arrival and all
  execution times have passed.
\<close>

definition test_inputs :: "(string \<times> int) list" where
  "test_inputs = [
     (FIFO_1_txt, 2500), (FIFO_2_txt, 87000), (FIFO_3_txt, 23000), (FIFO_4_txt, 3200), (FIFO_5_txt, 23000),
     (RR_1_txt, 2500), (RR_2_txt, 9600), (RR_3_txt, 31200), (RR_5_txt, 23000), (SJF_1_txt, 14000),
     (SJF_2_txt, 15400), (SJF_3_txt, 32120), (SJF_4_txt, 11000), (SJF_5_txt, 3500)
     ]"

definition psjf_inputs :: "string list" where
  "psjf_inputs = [
     PSJF_1_txt, PSJF_2_txt, PSJF_3_txt, PSJF_4_txt, PSJF_5_txt
     ]"

text \<open>A table on which the program does not stop.\<close>

definition busy_input :: "string \<Rightarrow> int \<Rightarrow> bool" where
  "busy_input input e \<longleftrightarrow> (case input_table input of Inl err \<Rightarrow> False
     | Inr (st, ps) \<Rightarrow> wf_table ps \<and> length ps \<le> 100 \<and> busy_end ps (length ps) = e \<and>
         (case st of FIFO \<Rightarrow> no_gap ps
          | RR \<Rightarrow> no_gap ps \<and> no_tie (map arrival_time ps)
          | SJF \<Rightarrow> overlapping ps
          | PSJF \<Rightarrow> False))"

text \<open>Each file is read and checked by evaluation.\<close>

lemma busy_FIFO_1: "busy_input FIFO_1_txt 2500"
  by code_simp

lemma busy_FIFO_2: "busy_input FIFO_2_txt 87000"
  by code_simp

lemma busy_FIFO_3: "busy_input FIFO_3_txt 23000"
  by code_simp

lemma busy_FIFO_4: "busy_input FIFO_4_txt 3200"
  by code_simp

lemma busy_FIFO_5: "busy_input FIFO_5_txt 23000"
  by code_simp

lemma busy_RR_1: "busy_input RR_1_txt 2500"
  by code_simp

lemma busy_RR_2: "busy_input RR_2_txt 9600"
  by code_simp

lemma busy_RR_3: "busy_input RR_3_txt 31200"
  by code_simp

lemma busy_RR_5: "busy_input RR_5_txt 23000"
  by code_simp

lemma busy_SJF_1: "busy_input SJF_1_txt 14000"
  by code_simp

lemma busy_SJF_2: "busy_input SJF_2_txt 15400"
  by code_simp

lemma busy_SJF_3: "busy_input SJF_3_txt 32120"
  by code_simp

lemma busy_SJF_4: "busy_input SJF_4_txt 11000"
  by code_simp

lemma busy_SJF_5: "busy_input SJF_5_txt 3500"
  by code_simp

lemma test_inputs_busy: "(input, e) \<in> set test_inputs \<Longrightarrow> busy_input input e"
  unfolding test_inputs_def list.set insert_iff prod.inject empty_iff
  using busy_FIFO_1 busy_FIFO_2 busy_FIFO_3 busy_FIFO_4 busy_FIFO_5 busy_RR_1 busy_RR_2 busy_RR_3
    busy_RR_5 busy_SJF_1 busy_SJF_2 busy_SJF_3 busy_SJF_4 busy_SJF_5 by blast

lemma busy_input_ends:
  assumes os: "os_ok os" "0 < getpid os" and t: "clock_ok t0 t1" "UNIT_MEASURE_REPEAT \<le> nanos t1 - nanos t0"
    and busy: "busy_input input e"
  shows "\<exists>g0. main_init os input t0 t1 junk = Inr g0 \<and> ends_at os g0 ((nanos t1 - nanos t0) div UNIT_MEASURE_REPEAT * e)"
proof -
  obtain st ps where r: "input_table input = Inr (st, ps)" "wf_table ps" "length ps \<le> 1073741824" "busy_end ps (length ps) = e"
    "case st of FIFO \<Rightarrow> no_gap ps | RR \<Rightarrow> no_gap ps \<and> no_tie (map arrival_time ps) | SJF \<Rightarrow> overlapping ps | PSJF \<Rightarrow> False"
    using busy by (auto simp: busy_input_def split: sum.splits prod.splits)
  note m = main_init_input_table [OF r(1,2), of os t0 t1 junk]
  show ?thesis
  proof (cases st)
    case FIFO
    obtain g0 where g0: "main_init os (show_input FIFO ps) t0 t1 junk = Inr g0" using fifo_init [OF os r(2) t(1)] .
    show ?thesis using fifo_ends_at [OF os r(2) t _ g0] g0 m r(4,5) FIFO by simp
  next
    case RR
    obtain g0 where g0: "main_init os (show_input RR ps) t0 t1 junk = Inr g0" using rr_init [OF os r(2) t(1)] .
    show ?thesis using rr_ends_at [OF os r(2) t _ _ g0] g0 m r(4,5) RR by simp
  next
    case SJF
    obtain g0 where g0: "main_init os (show_input SJF ps) t0 t1 junk = Inr g0" using sjf_init [OF os r(2,3) t(1)] .
    show ?thesis using sjf_ends_at [OF os r(2,3) t g0] g0 m r(4,5) SJF by simp
  qed (use r(5) in simp)
qed

text \<open>Under PSJF no process is ever forked: the first alarm fails, and before it no child can terminate.\<close>

definition psjf_stuck :: "globals \<Rightarrow> bool" where
  "psjf_stuck g \<longleftrightarrow> current_strategy g = PSJF \<and> psjf_active (psjf_of g) = Null \<and> \<not> chld_pending g \<and>
     (\<forall>i < length (procs (world_of g)). prio_of (world_of g) i = None)"

lemma psjf_stuck_turn: "psjf_stuck g \<Longrightarrow> pending g = {sig} \<Longrightarrow> \<exists>e. loop_iteration os [sig] g = Inl e"
  using loop_iteration_PSJF_idle [of g os] by (cases sig) (auto simp: psjf_stuck_def)

lemma psjf_stuck_reachable: "reachable os g0 g \<Longrightarrow> psjf_stuck g0 \<Longrightarrow> psjf_stuck g"
proof (induction rule: reachable.induct)
  case (reach_step g g')
  from reach_step(2) show ?case
  proof cases
    case (wakes_up sig)
    then show ?thesis using psjf_stuck_turn [of g sig os] reach_step by auto
  qed (use reach_step in \<open>auto simp: psjf_stuck_def runs_def\<close>)
qed

lemma psjf_input_fails:
  assumes os: "os_ok os" "0 < getpid os" and t: "clock_ok t0 t1" and r: "input_table input = Inr (PSJF, ps)" "wf_table ps"
  shows "\<exists>g0. main_init os input t0 t1 junk = Inr g0 \<and>
    (\<forall>g sig. reachable os g0 g \<and> pending g = {sig} \<longrightarrow> (\<exists>e. loop_iteration os [sig] g = Inl e))"
proof -
  obtain u v where m: "main_init os (show_input PSJF ps) t0 t1 junk =
      Inr ((set_arrival v (loaded os PSJF ps u junk))\<lparr>it_value := v, alrm_pending := (arrival_time (hd ps) = 0)\<rparr>)"
    using main_init_arrivals [OF os r(2) t, of PSJF junk] by blast
  let ?g = "(set_arrival v (loaded os PSJF ps u junk))\<lparr>it_value := v, alrm_pending := (arrival_time (hd ps) = 0)\<rparr>"
  have "psjf_active (psjf_of ?g) = Null" using main_init_psjf_idle [OF m] .
  moreover have "prio_of (world_of ?g) i = None" if "i < length ps" for i
    using os(2) r(2) that by (auto simp: prio_of_def world_init_def wf_table_def wf_entry_def list_all_iff)
  ultimately have "psjf_stuck ?g" by (simp add: psjf_stuck_def world_init_def)
  then show ?thesis
    using m main_init_input_table [OF r, of os t0 t1 junk] psjf_stuck_reachable psjf_stuck_turn by metis
qed

lemma psjf_inputs_tables: "list_all (\<lambda>input. case input_table input of Inr (PSJF, ps) \<Rightarrow> wf_table ps | _ \<Rightarrow> False) psjf_inputs"
  by code_simp

lemma psjf_inputs_read:
  assumes "input \<in> set psjf_inputs"
  obtains ps where "input_table input = Inr (PSJF, ps)" "wf_table ps"
proof -
  have "case input_table input of Inr (PSJF, ps) \<Rightarrow> wf_table ps | _ \<Rightarrow> False"
    using psjf_inputs_tables assms by (auto simp: list_all_iff)
  then show ?thesis using that by (auto split: sum.splits prod.splits ScheduleStrategy.splits)
qed

end
