(* ===== verification/Syscalls.thy ===== *)
theory Syscalls
  imports Event_Loop
begin

text \<open>
  The two system calls of \<^verbatim>\<open>kernel/proj1.c\<close>, which read the clock when a child starts and write a
  line to the kernel log when it ends, and the child's side of \<^verbatim>\<open>fork_a_child\<close>, which calls them
  around its work.
\<close>

section \<open>The kernel side\<close>

text \<open>
  What the system calls touch: the \<^verbatim>\<open>struct timespec\<close> objects of the caller by address (\<open>None\<close> where
  the address is not mapped) and the kernel log.
\<close>

record kernel_state =
  user_mem :: "nat \<Rightarrow> timespec option"
  klog :: "string list"

text \<open>
  The kernel's copying functions are parameters: the number of bytes not copied, with the user
  memory, or the kernel's buffer, after the copy.
\<close>

record kernel_api =
  copy_to_user :: "nat \<Rightarrow> timespec \<Rightarrow> (nat \<Rightarrow> timespec option) \<Rightarrow> int \<times> (nat \<Rightarrow> timespec option)"
  copy_from_user :: "nat \<Rightarrow> (nat \<Rightarrow> timespec option) \<Rightarrow> int \<times> timespec"

definition EFAULT :: int where
  "EFAULT = 14"

definition ENOSYS :: int where
  "ENOSYS = 38"

definition printk :: "string \<Rightarrow> kernel_state \<Rightarrow> kernel_state" where
  "printk line k = k\<lparr>klog := klog k @ [line]\<rparr>"

text \<open>\<^verbatim>\<open>%px\<close>: an address as sixteen hexadecimal digits.\<close>

definition show_px :: "nat \<Rightarrow> string" where
  "show_px a = map (\<lambda>i. ''0123456789abcdef'' ! (a div 16 ^ (15 - i) mod 16)) [0..<16]"

definition show_timespec :: "timespec \<Rightarrow> string" where
  "show_timespec ts = show_int (tv_sec ts) @ ''.'' @ show_int (tv_nsec ts)"

definition print_process_info :: "int \<Rightarrow> timespec \<Rightarrow> timespec \<Rightarrow> kernel_state \<Rightarrow> kernel_state" where
  "print_process_info p start stop k =
     printk (''[Project1] '' @ show_int p @ '' '' @ show_timespec start @ '' '' @ show_timespec stop) k"

definition start_process_safe :: "kernel_api \<Rightarrow> nat \<Rightarrow> timespec \<Rightarrow> kernel_state \<Rightarrow> int \<times> kernel_state" where
  "start_process_safe api start_time_ptr now k =
     (let (bytes_not_copied, mem) = copy_to_user api start_time_ptr now (user_mem k);
          k' = k\<lparr>user_mem := mem\<rparr>
      in if bytes_not_copied \<noteq> 0
         then (- EFAULT, printk (''[Project1] '' @ show_int bytes_not_copied @
                '' bytes can't be copied to user pointer '' @ show_px start_time_ptr @ ''!'') k')
         else (0, k'))"

text \<open>\<open>stop_time\<close> is the local variable of that name, which the function never assigns.\<close>

definition stop_process_safe ::
    "kernel_api \<Rightarrow> timespec \<Rightarrow> int \<Rightarrow> nat \<Rightarrow> timespec \<Rightarrow> kernel_state \<Rightarrow> int \<times> kernel_state" where
  "stop_process_safe api stop_time p start_time_ptr now k =
     (let (bytes_not_copied, start) = copy_from_user api start_time_ptr (user_mem k)
      in if bytes_not_copied \<noteq> 0
         then (- EFAULT, printk (''[Project1] '' @ show_int bytes_not_copied @
                '' bytes can't be read from user pointer '' @ show_px start_time_ptr @ ''!'') k)
         else (0, print_process_info p start stop_time k))"

text \<open>The direct accesses fault on an address that is not mapped.\<close>

definition start_process_unsafe :: "nat \<Rightarrow> timespec \<Rightarrow> kernel_state \<Rightarrow> (int \<times> kernel_state) res" where
  "start_process_unsafe start_time_ptr now k =
     (case user_mem k start_time_ptr of None \<Rightarrow> Inl OutOfBounds
      | Some _ \<Rightarrow> Inr (0, k\<lparr>user_mem := (user_mem k)(start_time_ptr \<mapsto> now)\<rparr>))"

definition stop_process_unsafe :: "int \<Rightarrow> nat \<Rightarrow> timespec \<Rightarrow> kernel_state \<Rightarrow> (int \<times> kernel_state) res" where
  "stop_process_unsafe p start_time_ptr now k =
     (case user_mem k start_time_ptr of None \<Rightarrow> Inl OutOfBounds
      | Some start \<Rightarrow> Inr (0, print_process_info p start now k))"

definition proj1_start_process :: "int \<Rightarrow> nat \<Rightarrow> timespec \<Rightarrow> kernel_state \<Rightarrow> (int \<times> kernel_state) res" where
  "proj1_start_process unused start_time_ptr now k = start_process_unsafe start_time_ptr now k"

definition proj1_stop_process :: "int \<Rightarrow> nat \<Rightarrow> timespec \<Rightarrow> kernel_state \<Rightarrow> (int \<times> kernel_state) res" where
  "proj1_stop_process p start_time_ptr now k = stop_process_unsafe p start_time_ptr now k"

text \<open>The entries of the system call table for the two calls.\<close>

definition syscall :: "int \<Rightarrow> int \<Rightarrow> nat \<Rightarrow> timespec \<Rightarrow> kernel_state \<Rightarrow> (int \<times> kernel_state) res" where
  "syscall nr p ptr' now k =
     (if nr = 335 then proj1_start_process p ptr' now k
      else if nr = 336 then proj1_stop_process p ptr' now k
      else Inr (- ENOSYS, k))"

section \<open>The child's side\<close>

text \<open>The wrappers of \<^verbatim>\<open>main.c\<close>; \<open>addr\<close> is the address of the record's field \<^verbatim>\<open>start_time\<close>.\<close>

definition sys_log_process_start :: "int \<Rightarrow> nat \<Rightarrow> timespec \<Rightarrow> kernel_state \<Rightarrow> kernel_state res" where
  "sys_log_process_start p addr now k = bindR (syscall 335 p addr now k) (\<lambda>(r, k'). Inr k')"

definition sys_log_process_end :: "int \<Rightarrow> nat \<Rightarrow> timespec \<Rightarrow> kernel_state \<Rightarrow> kernel_state res" where
  "sys_log_process_end p addr now k = bindR (syscall 336 p addr now k) (\<lambda>(r, k'). Inr k')"

text \<open>The loop of the child: how many time units it runs, from the \<open>i\<close>-th on.\<close>

function child_loop :: "int \<Rightarrow> int \<Rightarrow> nat res" where
  "child_loop i child_run_time =
     (if i < child_run_time
      then bindR (cint (i + 1)) (\<lambda>i'. bindR (child_loop i' child_run_time) (\<lambda>n. Inr (Suc n)))
      else Inr 0)"
  by pat_completeness auto
termination
  by (relation "measure (\<lambda>(i, n). nat (n - i))") (auto simp: cint_Inr_iff)

declare child_loop.simps [simp del]

text \<open>
  The child's branch of \<^verbatim>\<open>my_fork\<close> and \<^verbatim>\<open>fork_a_child\<close>: \<open>self\<close> is its pid, \<open>t0\<close> and \<open>t1\<close> the clock at
  the two system calls. The result is the number of iterations of the empty loop it executed, the
  world with its own priority set, and the kernel's state when it calls \<^verbatim>\<open>exit(0)\<close>.
\<close>

definition child_process :: "os \<Rightarrow> int \<Rightarrow> int \<Rightarrow> nat \<Rightarrow> timespec \<Rightarrow> timespec \<Rightarrow> world \<Rightarrow> kernel_state \<Rightarrow>
    (nat \<times> world \<times> kernel_state) res" where
  "child_process os self child_run_time addr t0 t1 w k =
     bindR (set_child_priority os self w) (\<lambda>w'.
     bindR (sys_log_process_start self addr t0 k) (\<lambda>k1.
     bindR (child_loop 0 child_run_time) (\<lambda>units.
     bindR (sys_log_process_end self addr t1 k1) (\<lambda>k2.
     Inr (units * run_single_unit, w', k2)))))"

section \<open>Lemmas\<close>

lemma child_loop_eq: "0 \<le> i \<Longrightarrow> in_int n \<Longrightarrow> child_loop i n = Inr (nat (n - i))"
proof (induction i n rule: child_loop.induct)
  case (1 i n)
  show ?case
  proof (cases "i < n")
    case True
    then have "in_int (i + 1)" using 1(2,3) by (auto simp: in_int_def)
    with True 1 show ?thesis
      by (subst child_loop.simps) (simp add: cint_Inr_iff Suc_nat_eq_nat_zadd1)
  next
    case False
    then show ?thesis by (subst child_loop.simps) simp
  qed
qed

lemma run_single_unit_eq: "run_single_unit = 1000000"
  by (simp add: run_single_unit_def run_single_unit_from_eq, simp add: ITERATION_PER_TIMEUNIT_def)


text \<open>The line that a child leaves in the log.\<close>

definition log_line :: "int \<Rightarrow> timespec \<Rightarrow> timespec \<Rightarrow> string" where
  "log_line p start stop = ''[Project1] '' @ show_int p @ '' '' @ show_timespec start @ '' '' @ show_timespec stop"

lemma print_process_info_eq: "print_process_info p start stop k = k\<lparr>klog := klog k @ [log_line p start stop]\<rparr>"
  by (simp add: print_process_info_def printk_def log_line_def)

lemma child_process_ok:
  assumes "sched_ok os" "0 < self" "in_int n" "user_mem k addr \<noteq> None"
  shows "child_process os self n addr t0 t1 w k =
     Inr (nat n * 1000000, w\<lparr>prio := (prio w)(self \<mapsto> run_prio os)\<rparr>,
       k\<lparr>user_mem := (user_mem k)(addr \<mapsto> t0), klog := klog k @ [log_line self t0 t1]\<rparr>)"
proof -
  have "set_child_priority os self w = Inr (w\<lparr>prio := (prio w)(self \<mapsto> run_prio os)\<rparr>)"
    using assms(1,2) by (simp add: set_child_priority_def set_priority_def sched_ok_def)
  moreover have "sys_log_process_start self addr t0 k = Inr (k\<lparr>user_mem := (user_mem k)(addr \<mapsto> t0)\<rparr>)"
    using assms(4) by (auto simp: sys_log_process_start_def syscall_def proj1_start_process_def
        start_process_unsafe_def)
  ultimately show ?thesis
    using child_loop_eq [of 0 n] assms(3)
    by (simp add: child_process_def sys_log_process_end_def syscall_def proj1_stop_process_def
        stop_process_unsafe_def print_process_info_eq run_single_unit_eq)
qed

text \<open>
  The documented behaviour of the copying functions: everything is copied to or from a mapped
  address, and some bytes are not if it is not mapped.
\<close>

definition copy_ok :: "kernel_api \<Rightarrow> bool" where
  "copy_ok api \<longleftrightarrow>
     (\<forall>a ts mem. mem a \<noteq> None \<longrightarrow> copy_to_user api a ts mem = (0, mem(a \<mapsto> ts))) \<and>
     (\<forall>a ts mem. mem a = None \<longrightarrow> fst (copy_to_user api a ts mem) \<noteq> 0) \<and>
     (\<forall>a ts mem. mem a = Some ts \<longrightarrow> copy_from_user api a mem = (0, ts)) \<and>
     (\<forall>a mem. mem a = None \<longrightarrow> fst (copy_from_user api a mem) \<noteq> 0)"

lemma start_process_safe_eq:
  assumes "copy_ok api"
  shows "start_process_unsafe a now k = Inr (start_process_safe api a now k) \<longleftrightarrow> user_mem k a \<noteq> None"
proof (cases "user_mem k a")
  case (Some ts)
  have "copy_to_user api a now (user_mem k) = (0, (user_mem k)(a \<mapsto> now))"
    using assms Some by (simp add: copy_ok_def)
  with Some show ?thesis by (simp add: start_process_unsafe_def start_process_safe_def Let_def)
qed (simp add: start_process_unsafe_def)

lemma kernel_state_klog_eq: "k\<lparr>klog := a\<rparr> = k\<lparr>klog := b\<rparr> \<longleftrightarrow> a = b"
  by (cases k) simp

lemma stop_process_safe_log:
  assumes "copy_ok api" "user_mem k a = Some start"
  shows "stop_process_safe api stop_time p a now k = (0, k\<lparr>klog := klog k @ [log_line p start stop_time]\<rparr>)"
    "stop_process_unsafe p a now k = Inr (0, k\<lparr>klog := klog k @ [log_line p start now]\<rparr>)"
  using assms
  by (simp_all add: stop_process_safe_def stop_process_unsafe_def copy_ok_def print_process_info_eq)

end
