(* ===== verification/Manual_Tests.thy ===== *)
theory Manual_Tests
  imports Syscalls
begin

text \<open>
  The functions at the end of \<^verbatim>\<open>main.c\<close> with which the authors tried out the kernel's scheduling by
  hand. Nothing calls them. Each forks at most once, so each is a function of what \<^verbatim>\<open>fork\<close> returned
  in the process at hand; the result is the sequence of calls that lead up to the fork and of those that this
  process makes after it, together with the priorities it has set.
\<close>

section \<open>The functions\<close>

text \<open>
  One process after a fork: the value returned by \<^verbatim>\<open>fork\<close> there (zero in the child), its own pid,
  and the pid of its parent when it asks for it.
\<close>

record side =
  fork_res :: int
  self_pid :: int
  getppid :: int

text \<open>
  The calls of the tests whose effect lies outside the process. The calls that prepare the signal
  set of \<^verbatim>\<open>fork_signal_test\<close> (\<^verbatim>\<open>sigemptyset\<close>, \<^verbatim>\<open>sigaddset\<close>, \<^verbatim>\<open>sigprocmask\<close>) are one, with the set
  they block.
\<close>

datatype call =
    Fork
  | Printf string
  | Run_single_unit
  | Sched_yield
  | Sleep nat
  | Set_handler signal
  | Block "signal set"
  | Alarm nat
  | Sigsuspend_unblocked "signal set"
  | Wait

definition parent_is_terminated :: "side \<Rightarrow> bool" where
  "parent_is_terminated p \<longleftrightarrow> getppid p = 1"

definition my_fork :: "os \<Rightarrow> side \<Rightarrow> world \<Rightarrow> (int \<times> world) res" where
  "my_fork os p w =
     (if fork_res p = 0 then bindR (set_child_priority os (self_pid p) w) (\<lambda>w'. Inr (fork_res p, w'))
      else Inr (fork_res p, w))"

definition priority_test :: "os \<Rightarrow> world \<Rightarrow> (call list \<times> world) res" where
  "priority_test os w =
     bindR (set_parent_priority os w) (\<lambda>w'. Inr (replicate 1000 Run_single_unit, w'))"

definition fork_test :: "os \<Rightarrow> side \<Rightarrow> world \<Rightarrow> (call list \<times> world) res" where
  "fork_test os p w =
     bindR (set_parent_priority os w) (\<lambda>w1.
     bindR (my_fork os p w1) (\<lambda>(pid', w2).
     Inr (Fork # (if pid' \<noteq> 0 then replicate 1000 Run_single_unit
          else if parent_is_terminated p then [Printf (''Success'' @ newline)]
          else [Printf (''Error: the child runs before the parent terminates.'' @ newline)]), w2)))"

definition fork_priority_test :: "os \<Rightarrow> side \<Rightarrow> world \<Rightarrow> (call list \<times> world) res" where
  "fork_priority_test os p w =
     bindR (set_parent_priority os w) (\<lambda>w1.
     bindR (my_fork os p w1) (\<lambda>(pid', w2).
     Inr (Fork # (if pid' \<noteq> 0 then Sched_yield # replicate 1000 Run_single_unit
          else if parent_is_terminated p then [Printf (''Success'' @ newline)]
          else [Printf (''Error: the child runs before the parent terminates.'' @ newline)]), w2)))"

definition fork_block_test :: "os \<Rightarrow> side \<Rightarrow> world \<Rightarrow> (call list \<times> world) res" where
  "fork_block_test os p w =
     bindR (set_parent_priority os w) (\<lambda>w1.
     bindR (my_fork os p w1) (\<lambda>(pid', w2).
     Inr (Fork # (if pid' \<noteq> 0 then [Sleep 10]
          else if parent_is_terminated p then [Printf ''Error: The child runs after the parent terminates'']
          else [Printf (''Success'' @ newline)]), w2)))"

text \<open>
  The handler that \<^verbatim>\<open>fork_signal_test\<close> installs for \<^verbatim>\<open>SIGALRM\<close> does nothing. It is installed, the signal is
  blocked and the alarm set before the fork.
\<close>

definition sigalrmtest :: "int \<Rightarrow> call list" where
  "sigalrmtest unused = []"

definition fork_signal_test :: "os \<Rightarrow> side \<Rightarrow> world \<Rightarrow> (call list \<times> world) res" where
  "fork_signal_test os p w =
     bindR (set_parent_priority os w) (\<lambda>w1.
     bindR (my_fork os p w1) (\<lambda>(pid', w2).
     Inr ([Set_handler SIGALRM, Block {SIGALRM}, Alarm 1, Fork] @
          (if pid' \<noteq> 0 then
             [Sigsuspend_unblocked {SIGALRM}] @ sigalrmtest 14 @
             [Printf (''The parent is awoken by a signal!'' @ newline), Wait]
           else
             Printf (''The child begins running!'' @ newline) # replicate 500 Run_single_unit @
             [Printf (''IF the parent has been awoken by a signal after the child began running, then success, else error.''
                @ newline)]),
          w2)))"

section \<open>Both sides\<close>

text \<open>With permission to set priorities, both sides of a fork go on, and only the child lowers its priority.\<close>

lemma my_fork_parent: "fork_res p \<noteq> 0 \<Longrightarrow> my_fork os p w = Inr (fork_res p, w)"
  by (simp add: my_fork_def)

lemma my_fork_child:
  assumes "sched_ok os" "fork_res p = 0" "0 < self_pid p"
  shows "my_fork os p w = Inr (0, w\<lparr>prio := (prio w)(self_pid p \<mapsto> run_prio os)\<rparr>)"
  using assms by (simp add: my_fork_def set_child_priority_def set_priority_def sched_ok_def)

text \<open>
  In \<^verbatim>\<open>fork_signal_test\<close> the signal is blocked and the alarm set before there are two processes, so
  the alarm cannot be lost: nothing but the fork lies between its setting and the \<^verbatim>\<open>sigsuspend\<close> of the parent.
\<close>

lemma fork_signal_test_prefix:
  assumes "fork_signal_test os p w = Inr (cs, w')"
  shows "\<exists>rest. cs = [Set_handler SIGALRM, Block {SIGALRM}, Alarm 1, Fork] @ rest \<and>
    (fork_res p \<noteq> 0 \<longrightarrow> hd rest = Sigsuspend_unblocked {SIGALRM})"
  using assms by (auto simp: fork_signal_test_def my_fork_def split: if_splits)

end
