(* ===== verification/Time_Calc.thy ===== *)
theory Time_Calc
  imports Syscalls
begin

text \<open>
  \<^verbatim>\<open>time_calc.py\<close>, which reads the lines of the kernel log and computes how long each child ran. An
  exception ends the script, so errors are the exceptions that the code can raise. The main result
  is that it reads the lines of \<^verbatim>\<open>proj1.c\<close> as they are meant, whatever stands before them.
\<close>

section \<open>What the script uses of Python\<close>

datatype py_error = StopIteration | ValueError

text \<open>The characters up to 255 that \<^verbatim>\<open>str.split\<close> and \<^verbatim>\<open>int\<close> treat as white space.\<close>

definition py_isspace :: "char \<Rightarrow> bool" where
  "py_isspace c \<longleftrightarrow> isspace c \<or> (of_char c :: nat) \<in> {28, 29, 30, 31, 133, 160}"

text \<open>\<^verbatim>\<open>line.split()\<close>\<close>

function py_split :: "string \<Rightarrow> string list" where
  "py_split s = (case dropWhile py_isspace s of [] \<Rightarrow> []
     | c # t \<Rightarrow> (c # takeWhile (\<lambda>c. \<not> py_isspace c) t) # py_split (dropWhile (\<lambda>c. \<not> py_isspace c) t))"
  by pat_completeness auto
termination
proof (relation "measure length", simp_all)
  fix s t :: string and c :: char
  assume d: "dropWhile py_isspace s = c # t"
  have "length (dropWhile (\<lambda>c. \<not> py_isspace c) t) \<le> length t" by (rule length_dropWhile_le)
  moreover have "Suc (length t) \<le> length s" using length_dropWhile_le [of py_isspace s] d by simp
  ultimately show "length (dropWhile (\<lambda>c. \<not> py_isspace c) t) < length s" by simp
qed

declare py_split.simps [simp del]

text \<open>\<^verbatim>\<open>string.split(sep)\<close> for a separator of one character\<close>

fun split_on :: "char \<Rightarrow> string \<Rightarrow> string list" where
  "split_on sep [] = [[]]"
| "split_on sep (c # cs) =
     (if c = sep then [] # split_on sep cs
      else case split_on sep cs of [] \<Rightarrow> [[c]] | w # ws \<Rightarrow> (c # w) # ws)"

text \<open>
  \<^verbatim>\<open>int(string)\<close>: white space around the number, a sign, and digits, between which single underscores
  are allowed.
\<close>

fun digits_ok :: "string \<Rightarrow> bool" where
  "digits_ok [] \<longleftrightarrow> False"
| "digits_ok [c] \<longleftrightarrow> isdigit c"
| "digits_ok (c # d # cs) \<longleftrightarrow> isdigit c \<and> (if d = CHR ''_'' then digits_ok cs else digits_ok (d # cs))"

definition py_digits :: "string \<Rightarrow> py_error + int" where
  "py_digits s = (if digits_ok s then Inr (digits_val 0 (filter isdigit s)) else Inl ValueError)"

definition py_strip :: "string \<Rightarrow> string" where
  "py_strip s = rev (dropWhile py_isspace (rev (dropWhile py_isspace s)))"

definition py_int :: "string \<Rightarrow> py_error + int" where
  "py_int s = (case py_strip s of [] \<Rightarrow> Inl ValueError
     | c # t \<Rightarrow> if c = CHR ''-'' then map_sum id uminus (py_digits t)
              else if c = CHR ''+'' then py_digits t
              else py_digits (c # t))"

section \<open>The script\<close>

definition line_filter :: "string list \<Rightarrow> py_error + string list" where
  "line_filter strings = (case dropWhile (\<lambda>x. x \<noteq> ''[Project1]'') strings of
       [] \<Rightarrow> Inl StopIteration
     | _ # important_part \<Rightarrow> Inr important_part)"

record TimeInfo' =
  nsec :: int

definition TimeInfo_init :: "string \<Rightarrow> py_error + TimeInfo'" where
  "TimeInfo_init string = (case split_on CHR ''.'' string of
       [sec, nano_sec] \<Rightarrow> (case py_int nano_sec of Inl e \<Rightarrow> Inl e
         | Inr n \<Rightarrow> (case py_int sec of Inl e \<Rightarrow> Inl e
             | Inr s \<Rightarrow> Inr \<lparr>nsec = n + s * 10 ^ 9\<rparr>))
     | _ \<Rightarrow> Inl ValueError)"

definition TimeInfo_sub :: "TimeInfo' \<Rightarrow> TimeInfo' \<Rightarrow> TimeInfo'" where
  "TimeInfo_sub self other = self\<lparr>nsec := nsec self - nsec other\<rparr>"

text \<open>One turn of the loop: the pid and the difference that it prints.\<close>

definition calc_line :: "string \<Rightarrow> py_error + string \<times> TimeInfo'" where
  "calc_line line = (case line_filter (py_split line) of Inl e \<Rightarrow> Inl e
     | Inr [pid', begin', end'] \<Rightarrow>
         (case TimeInfo_init end' of Inl e \<Rightarrow> Inl e
          | Inr stop \<Rightarrow> (case TimeInfo_init begin' of Inl e \<Rightarrow> Inl e
              | Inr start \<Rightarrow> Inr (pid', TimeInfo_sub stop start)))
     | Inr _ \<Rightarrow> Inl ValueError)"

text \<open>The loop over the input, up to its end or to an exception; the lines printed before it stay.\<close>

fun time_calc :: "string list \<Rightarrow> (string \<times> TimeInfo') list \<times> py_error option" where
  "time_calc [] = ([], None)"
| "time_calc (line # lines) = (case calc_line line of Inl e \<Rightarrow> ([], Some e)
     | Inr out \<Rightarrow> (let (outs, e) = time_calc lines in (out # outs, e)))"

section \<open>Splitting\<close>

lemma py_split_word:
  assumes "w \<noteq> []" "list_all (\<lambda>c. \<not> py_isspace c) w" "r = [] \<or> py_isspace (hd r)"
  shows "py_split (w @ r) = w # py_split r"
proof -
  obtain c cs where w: "w = c # cs" using assms(1) by (cases w) auto
  have "case r of [] \<Rightarrow> True | c # _ \<Rightarrow> \<not> \<not> py_isspace c" using assms(3) by (cases r) auto
  from takeWhile_word [OF _ this, of cs] assms(2) w show ?thesis by (subst py_split.simps) auto
qed

lemma py_split_append:
  assumes "py_isspace c"
  shows "py_split (s @ c # t) = py_split s @ py_split t"
proof (induction s rule: py_split.induct)
  case (1 s)
  show ?case
  proof (cases "dropWhile py_isspace s")
    case Nil
    then have "dropWhile py_isspace (s @ c # t) = dropWhile py_isspace t" using assms by (simp add: dropWhile_append)
    then have "py_split (s @ c # t) = py_split t" by (subst (1 2) py_split.simps) simp
    moreover have "py_split s = []" using Nil by (simp add: py_split.simps [of s] del: dropWhile_eq_Nil_conv)
    ultimately show ?thesis by simp
  next
    case (Cons d u)
    then have "\<not> (\<forall>x \<in> set s. py_isspace x)" using dropWhile_eq_Nil_conv [of py_isspace s] by simp
    then have "dropWhile py_isspace (s @ c # t) = d # u @ c # t" using Cons by (auto simp: dropWhile_append)
    moreover have "takeWhile (\<lambda>c. \<not> py_isspace c) (u @ c # t) = takeWhile (\<lambda>c. \<not> py_isspace c) u"
      using assms by (auto simp: takeWhile_append takeWhile_eq_all_conv [THEN iffD2])
    moreover have "dropWhile (\<lambda>c. \<not> py_isspace c) (u @ c # t) = dropWhile (\<lambda>c. \<not> py_isspace c) u @ c # t"
      using assms by (auto simp: dropWhile_append)
    ultimately show ?thesis using 1 [OF Cons] Cons by (subst (1 2) py_split.simps) simp
  qed
qed

lemma split_on_word: "sep \<notin> set w \<Longrightarrow> split_on sep w = [w]"
  by (induction w) auto

lemma split_on_append: "sep \<notin> set w \<Longrightarrow> split_on sep (w @ sep # r) = w # split_on sep r"
  by (induction w) auto

section \<open>Numbers\<close>

lemma digits_ok_all: "xs \<noteq> [] \<Longrightarrow> list_all isdigit xs \<Longrightarrow> digits_ok xs"
  by (induction xs rule: digits_ok.induct) (auto simp: isdigit_def)

lemma py_digits_show_nat: "py_digits (show_nat n) = Inr (int n)"
  using show_nat_digits [of n] digits_ok_all [of "show_nat n"] digits_val_show_nat [of n]
  by (simp add: py_digits_def list_all_iff)

lemma digit_chars:
  "isdigit c \<Longrightarrow> \<not> py_isspace c" "isdigit c \<Longrightarrow> c \<noteq> CHR ''.''" "\<not> py_isspace CHR ''-''" "\<not> py_isspace CHR ''.''"
  by (auto simp: py_isspace_def isspace_def isdigit_def)

lemma show_int_chars:
  "show_int i \<noteq> []" "list_all (\<lambda>c. \<not> py_isspace c) (show_int i)" "CHR ''.'' \<notin> set (show_int i)"
proof -
  have d: "show_nat n \<noteq> []" "\<forall>c \<in> set (show_nat n). isdigit c" for n
    using show_nat_digits [of n] by (simp_all add: list_all_iff)
  show "show_int i \<noteq> []" using d(1) by (simp add: show_int_def)
  show "list_all (\<lambda>c. \<not> py_isspace c) (show_int i)" "CHR ''.'' \<notin> set (show_int i)"
    using d(2) digit_chars by (auto simp: show_int_def list_all_iff)
qed

lemma py_strip_word: "list_all (\<lambda>c. \<not> py_isspace c) w \<Longrightarrow> py_strip w = w"
  using dropWhile_eq_self_iff [of py_isspace w] dropWhile_eq_self_iff [of py_isspace "rev w"]
  by (cases "w = []") (auto simp: py_strip_def list_all_iff hd_rev)

lemma py_int_show_int: "py_int (show_int i) = Inr i"
proof -
  obtain c cs where c: "show_nat (nat \<bar>i\<bar>) = c # cs" "isdigit c" by (rule show_nat_Cons)
  have "py_digits (c # cs) = Inr \<bar>i\<bar>" using py_digits_show_nat [of "nat \<bar>i\<bar>"] c(1) by simp
  then show ?thesis
    using py_strip_word [OF show_int_chars(2) [of i]] c(1) not_isspace_digit [OF c(2)]
    by (auto simp: py_int_def show_int_def)
qed

lemma TimeInfo_init_show: "TimeInfo_init (show_timespec ts) = Inr \<lparr>nsec = nanos ts\<rparr>"
  using split_on_append [OF show_int_chars(3) [of "tv_sec ts"]] split_on_word [OF show_int_chars(3) [of "tv_nsec ts"]]
  by (simp add: TimeInfo_init_def show_timespec_def py_int_show_int nanos_def BILLION_def)

lemma show_timespec_chars:
  "show_timespec ts \<noteq> []" "list_all (\<lambda>c. \<not> py_isspace c) (show_timespec ts)"
  using show_int_chars digit_chars(4) by (auto simp: show_timespec_def)

section \<open>The script on the kernel log\<close>

lemma py_split_log_line:
  "py_split (log_line p start stop) = [''[Project1]'', show_int p, show_timespec start, show_timespec stop]"
proof -
  have sp: "py_isspace CHR '' ''" by (simp add: py_isspace_def isspace_def)
  have one: "py_split w = [w]" if "w \<noteq> []" "list_all (\<lambda>c. \<not> py_isspace c) w" for w
    using py_split_word [OF that, of "[]"] by (simp add: py_split.simps [of "[]"])
  have "list_all (\<lambda>c. \<not> py_isspace c) ''[Project1]''" by (simp add: py_isspace_def isspace_def)
  then show ?thesis
    using py_split_append [OF sp, of "''[Project1]''"] py_split_append [OF sp, of "show_int p"]
      py_split_append [OF sp, of "show_timespec start"] one show_int_chars show_timespec_chars
    by (simp add: log_line_def)
qed

lemma calc_line_log:
  assumes "''[Project1]'' \<notin> set (py_split pre)"
  shows "calc_line (pre @ '' '' @ log_line p start stop) = Inr (show_int p, \<lparr>nsec = nanos stop - nanos start\<rparr>)"
proof -
  have "py_isspace CHR '' ''" by (simp add: py_isspace_def isspace_def)
  then have "py_split (pre @ '' '' @ log_line p start stop) =
      py_split pre @ [''[Project1]'', show_int p, show_timespec start, show_timespec stop]"
    using py_split_append [of "CHR '' ''" pre] py_split_log_line by simp
  moreover have "dropWhile (\<lambda>x. x \<noteq> ''[Project1]'') (py_split pre @ ''[Project1]'' # r) = ''[Project1]'' # r" for r
    using assms by (subst dropWhile_append2) auto
  ultimately show ?thesis
    by (simp add: calc_line_def line_filter_def TimeInfo_init_show TimeInfo_sub_def)
qed

lemma time_calc_log:
  "(\<forall>(pre, p, start, stop) \<in> set recs. ''[Project1]'' \<notin> set (py_split pre)) \<Longrightarrow>
   time_calc (map (\<lambda>(pre, p, start, stop). pre @ '' '' @ log_line p start stop) recs) =
     (map (\<lambda>(pre, p, start, stop). (show_int p, \<lparr>nsec = nanos stop - nanos start\<rparr>)) recs, None)"
proof (induction recs)
  case (Cons r recs)
  then show ?case using calc_line_log by (cases r) simp
qed simp

end
