(* ===== verification/Unsorted_Input.thy ===== *)
theory Unsorted_Input
  imports Clock
begin

text \<open>
  Inputs that are not in order of arrival. The program has a comparison function for sorting them,
  but never sorts; the lemmas follow what happens at the first process that is due before the one
  above it, for the strategies whose only timer events are arrivals.
\<close>

text \<open>As documented, \<^verbatim>\<open>timer_settime\<close> fails on a value with a negative field.\<close>

definition timer_rejects :: "os \<Rightarrow> bool" where
  "timer_rejects os \<longleftrightarrow> (\<forall>v. tv_sec v < 0 \<or> tv_nsec v < 0 \<longrightarrow> timer_settime os v = -1)"

lemma set_timer_rejects:
  assumes "timer_rejects os" "current_strategy g \<noteq> RR" "nanos (arrival_remaining (timer_info g)) < 0"
  shows "set_timer os g = Inl (Exit (- 1))"
proof -
  have "tv_sec (arrival_remaining (timer_info g)) < 0 \<or> tv_nsec (arrival_remaining (timer_info g)) < 0"
    using assms(3) by (auto simp: nanos_def BILLION_def)
  then have "timer_settime os (arrival_remaining (timer_info g)) = -1" using assms(1) unfolding timer_rejects_def by blast
  with assms(2) show ?thesis by (simp add: set_timer_def timer_value_def scheduler_exit_def Let_def)
qed

section \<open>What a run keeps\<close>

definition same_setting :: "globals \<Rightarrow> globals \<Rightarrow> bool" where
  "same_setting g g' \<longleftrightarrow> time_unit (timer_info g') = time_unit (timer_info g) \<and>
     current_strategy g' = current_strategy g \<and> num_process g' = num_process g \<and>
     arrival_times g' = arrival_times g"

lemma same_setting_refl [simp]: "same_setting g g"
  by (simp add: same_setting_def)

lemma same_setting_trans [trans]: "same_setting a b \<Longrightarrow> same_setting b c \<Longrightarrow> same_setting a c"
  by (simp add: same_setting_def)

lemma add_process_setting: "add_process os p g = Inr g' \<Longrightarrow> same_setting g g'"
  using table_data_cong(3) [OF add_process_table, of os p g g']
  by (auto simp: add_process_def sched_add_def same_setting_def Let_def split: ScheduleStrategy.splits prod.splits)

section \<open>The first process that is out of order\<close>

text \<open>The arrivals handled together end before a process that is due at another time.\<close>

lemma add_simultaneous_stops:
  assumes "add_simultaneous os a g = Inr (t, g')" "0 < arrival_ptr g" "arrival_ptr g \<le> Suc k"
    "arrival_times g ! Suc k \<noteq> arrival_times g ! k"
  shows "arrival_ptr g' \<le> Suc k \<and> arrival_ptr g \<le> arrival_ptr g' \<and> same_setting g g' \<and>
    (arrival_queue_empty g' \<or> timeunits_until_next_arrival g' = Inr t)"
  using assms
proof (induction os a g arbitrary: t g' rule: add_simultaneous.induct)
  case (1 os a g)
  from 1(2) consider "g' = g" "arrival_queue_empty g \<or> timeunits_until_next_arrival g = Inr t"
    | g2 where "\<not> arrival_queue_empty g" "timeunits_until_next_arrival g = Inr 0"
        "add_process os (At (arrival_ptr g)) (g\<lparr>arrival_ptr := Suc (arrival_ptr g)\<rparr>) = Inr g2"
        "add_simultaneous os 0 g2 = Inr (t, g')"
    by (subst (asm) add_simultaneous.simps) (auto simp: get_arrived_process_def split: if_splits)
  then show ?case
  proof cases
    case 2
    have p: "arrival_ptr g2 = Suc (arrival_ptr g)" using add_process_frame [OF 2(3)] by simp
    have s: "same_setting g g2" using add_process_setting [OF 2(3)] by (simp add: same_setting_def)
    have "arrival_ptr g \<noteq> Suc k" using timeunits_until_next_arrival_eq [OF 2(2) 1(3)] 1(5) by auto
    then have "arrival_ptr g2 \<le> Suc k" "arrival_times g2 ! Suc k \<noteq> arrival_times g2 ! k"
      using p 1(4,5) s by (simp_all add: same_setting_def)
    then show ?thesis
      using 1(1) [OF 2(1,2) refl _ _ 2(3,4)] p same_setting_trans [OF s] by (simp add: get_arrived_process_def)
  qed (use 1 in simp)
qed

text \<open>An alarm that is handled without error leaves that process and the one before it for later.\<close>

lemma handle_timer_unsorted:
  assumes os: "timer_rejects os" and st: "current_strategy g \<noteq> RR"
    and u: "0 < nanos (time_unit (timer_info g))"
    and n: "num_process g = int (length (procs (world_of g)))" and k: "arrival_ptr g \<le> k" "Suc k < length (procs (world_of g))"
    and desc: "arrival_times g ! Suc k < arrival_times g ! k" and h: "handle_timer os g = Inr g'"
  shows "arrival_ptr g' \<le> k \<and> same_setting g g'"
proof -
  let ?h = "g\<lparr>event_type := PROCESS_ARRIVAL\<rparr>"
  obtain g2 t g3 g4 where
    g2: "add_process os (At (arrival_ptr g)) (?h\<lparr>arrival_ptr := Suc (arrival_ptr g)\<rparr>) = Inr g2" and
    g3: "add_simultaneous os 0 g2 = Inr (t, g3)" and
    g4: "update_arrival_remaining t g3 = Inr g4" "set_timer os g4 = Inr g'"
    using h st by (auto simp: handle_timer_def get_expire_reason_def subtract_time_passed_def handle_arrival_def
        get_arrived_process_def)
  have s2: "same_setting g g2" using add_process_setting [OF g2] by (simp add: same_setting_def)
  have p2: "arrival_ptr g2 = Suc (arrival_ptr g)" using add_process_frame [OF g2] by simp
  have "arrival_times g2 ! Suc k \<noteq> arrival_times g2 ! k" using s2 desc by (simp add: same_setting_def)
  then have g3': "arrival_ptr g3 \<le> Suc k" "0 < arrival_ptr g3" "same_setting g g3"
    "arrival_queue_empty g3 \<or> timeunits_until_next_arrival g3 = Inr t"
    using add_simultaneous_stops [OF g3, of k] p2 k(1) same_setting_trans [OF s2] by auto
  obtain r where r: "timespec_multiply (time_unit (timer_info g3)) t = Inr r"
    "g4 = g3\<lparr>timer_info := (timer_info g3)\<lparr>arrival_remaining := r\<rparr>\<rparr>"
    using g4(1) by (auto simp: update_arrival_remaining_def)
  have s4: "same_setting g3 g4" "arrival_ptr g4 = arrival_ptr g3" using r(2) by (simp_all add: same_setting_def)
  have "arrival_ptr g3 \<noteq> Suc k"
  proof
    assume e: "arrival_ptr g3 = Suc k"
    have "\<not> arrival_queue_empty g3" using e n k(2) g3'(3) by (simp add: arrival_queue_empty_def same_setting_def)
    then have "t = arrival_times g3 ! Suc k - arrival_times g3 ! k"
      using timeunits_until_next_arrival_eq [OF _ g3'(2)] g3'(4) e by simp
    then have "t < 0" using desc g3'(3) by (simp add: same_setting_def)
    then have "nanos r < 0"
      using timespec_multiply_nanos [OF r(1)] u g3'(3) by (simp add: same_setting_def mult_less_0_iff)
    then show False
      using set_timer_rejects [OF os, of g4] g4(2) r(2) g3'(3) st by (simp add: same_setting_def)
  qed
  moreover have "arrival_ptr g' = arrival_ptr g4" "same_setting g4 g'"
    using g4(2) by (auto simp: set_timer_def scheduler_exit_def same_setting_def Let_def split: if_splits)
  ultimately show ?thesis using g3'(1,3) s4 same_setting_trans by (metis le_SucE)
qed

section \<open>Runs on such an input\<close>

lemma loop_iteration_unsorted:
  assumes "timer_rejects os" "current_strategy g \<noteq> RR" "0 < nanos (time_unit (timer_info g))"
    "num_process g = int (length (procs (world_of g)))" "arrival_ptr g \<le> k" "Suc k < length (procs (world_of g))"
    "arrival_times g ! Suc k < arrival_times g ! k" "pending g = {sig}" "loop_iteration os [sig] g = Inr (b, g')"
  shows "arrival_ptr g' \<le> k \<and> same_setting g g' \<and> \<not> b"
proof -
  have *: "arrival_ptr g' \<le> k \<and> same_setting g g'"
  proof (cases sig)
    case SIGALRM
    with assms(9) have l: "loop_iteration os [SIGALRM] g = Inr (b, g')" by simp
    let ?h = "sigsuspend [SIGALRM] g"
    obtain k' where k': "handle_timer os ?h = Inr k'" "g' = k' \<or> context_switch os k' = Inr g'"
      using l by (auto simp: loop_iteration_def handle_event_def sigsuspend_def signal_handler_def split: if_splits)
    have "arrival_ptr k' \<le> k \<and> same_setting ?h k'"
      by (rule handle_timer_unsorted [OF assms(1) _ _ _ _ _ _ k'(1)])
        (use assms in \<open>simp_all add: sigsuspend_def signal_handler_def\<close>)
    moreover have "same_setting g ?h" by (simp add: same_setting_def sigsuspend_def signal_handler_def)
    moreover have "same_setting k' g' \<and> arrival_ptr g' = arrival_ptr k'"
      using k'(2) context_switch_timer [of os k' g'] context_switch_strategy [of os k' g']
        table_data_cong(3) [OF context_switch_table, of os k' g'] by (auto simp: same_setting_def)
    ultimately show ?thesis using same_setting_trans by metis
  next
    case SIGCHLD
    then have "loop_iteration os [SIGCHLD] g = Inr (b, g')" using assms(9) by simp
    then show ?thesis using exit_turn_timer assms(5) by (simp add: same_setting_def)
  qed (use assms(8) in simp)
  then have "\<not> arrival_queue_empty g'" using assms(4,6) by (simp add: arrival_queue_empty_def same_setting_def)
  then have "\<not> b" using assms(9) by (auto simp: loop_iteration_def handle_event_def split: if_splits)
  with * show ?thesis by simp
qed

lemma reachable_unsorted:
  assumes "reachable os g0 g" "timer_rejects os" "current_strategy g0 \<noteq> RR" "0 < nanos (time_unit (timer_info g0))"
    "num_process g0 = int (length (procs (world_of g0)))" "arrival_ptr g0 \<le> k" "Suc k < length (procs (world_of g0))"
    "arrival_times g0 ! Suc k < arrival_times g0 ! k"
  shows "arrival_ptr g \<le> k \<and> same_setting g0 g"
  using assms(1)
proof (induction rule: reachable.induct)
  case (reach_step g g')
  then have IH: "arrival_ptr g \<le> k" "same_setting g0 g" by simp_all
  then have n: "length (procs (world_of g)) = length (procs (world_of g0))"
    by (auto simp: same_setting_def dest: map_eq_imp_length_eq)
  from reach_step(2) IH n assms(2-) show ?case
  proof (induction rule: step.induct)
    case (wakes_up g sig g')
    have "arrival_ptr g' \<le> k \<and> same_setting g g' \<and> \<not> False"
      by (rule loop_iteration_unsorted [OF wakes_up(6) _ _ _ wakes_up(3) _ _ wakes_up(1,2)])
        (use wakes_up in \<open>simp_all add: same_setting_def\<close>)
    then show ?case using same_setting_trans [OF wakes_up(4)] by simp
  qed (simp_all add: same_setting_def)
qed (use assms(6) in simp)


lemma set_timer_frame: "set_timer os g = Inr g' \<Longrightarrow> \<exists>v. g' = g\<lparr>it_value := v\<rparr>"
  by (auto simp: set_timer_def scheduler_exit_def Let_def split: if_splits)

lemma create_timer_frame:
  assumes "create_timer_and_init_timespec os g = Inr g'"
  shows "arrival_ptr g' = arrival_ptr g \<and> num_process g' = num_process g \<and> world_of g' = world_of g"
  using assms by (auto simp: create_timer_and_init_timespec_def init_arrival_remaining_def init_timeslice_remaining_def
      scheduler_exit_def Let_def split: if_splits dest!: set_timer_frame)

lemma main_init_size:
  assumes "main_init os input t0 t1 junk = Inr g"
  shows "arrival_ptr g = 0 \<and> length (procs (world_of g)) = nat (num_process g)"
  using assms
  by (auto simp: main_init_def arrival_queue_init_def set_strategy_def Let_def split: ScheduleStrategy.splits
      dest!: create_timer_frame read_process_info_length)

end
