(* ===== verification/Sample_Data.thy ===== *)
theory Sample_Data
  imports RR_Deadlock RR_Policy Test_Inputs Manual_Tests Time_Calc Unsorted_Input
begin

text \<open>
  Concrete kernels, inputs, scheduler states and a short run of the program, on which the
  hypotheses of the properties are discharged by evaluation in the kernel.
\<close>

section \<open>A kernel and an input\<close>

definition ex_os :: os where
  "ex_os = \<lparr>sched_get_priority_min = 1, sched_get_priority_max = 99, sched_setscheduler = (\<lambda>p q. 0),
     fork = (\<lambda>k. 1000 + int k), getpid = 77, timer_create = 0, timer_settime = (\<lambda>t. 0)\<rparr>"

definition ex_entry :: "string \<Rightarrow> int \<Rightarrow> int \<Rightarrow> ProcessInfo" where
  "ex_entry n a t = \<lparr>arrival_time = a, time_needed = t, remaining_time = t, pid = 0,
     status = NOT_STARTED, name = n\<rparr>"

definition ex_table :: "ProcessInfo list" where
  "ex_table = [ex_entry ''P1'' 0 3, ex_entry ''P2'' 0 2]"

definition ex_junk :: TimerInfo where
  "ex_junk = \<lparr>time_unit = ts_zero, arrival_remaining = ts_zero, timeslice_remaining = ts_zero\<rparr>"

definition ex_t1 :: timespec where
  "ex_t1 = \<lparr>tv_sec = 1, tv_nsec = 700000000\<rparr>"

definition ex_t2 :: timespec where
  "ex_t2 = \<lparr>tv_sec = 1, tv_nsec = 25\<rparr>"

lemma ex_os_ok: "os_ok ex_os" "0 < getpid ex_os" "sched_ok ex_os" "timer_ok ex_os"
  by (auto simp: os_ok_def sched_ok_def fork_ok_def timer_ok_def ex_os_def inj_on_def)

lemma ex_clock_ok: "clock_ok ts_zero ex_t1"
  by (simp add: clock_ok_def duration_def normal_def nanos_def in_long_def ex_t1_def BILLION_def)

lemma ex_table_ok: "wf_table ex_table"
  by (simp add: ex_table_def wf_table_def wf_entry_def ex_entry_def arrivals_sorted_def in_int_def
      PROCESS_NAME_MAX_def isspace_def)

section \<open>A run\<close>

definition exit_of :: "nat \<Rightarrow> globals \<Rightarrow> globals" where
  "exit_of i g = g\<lparr>chld_pending := True, world_of := child_exits i (world_of g)\<rparr>"

text \<open>Both processes arrive at once; the first terminates, then the second, then the loop is left.\<close>

definition ex_g0 :: globals where
  "ex_g0 = projr (main_init ex_os (show_input RR ex_table) ts_zero ex_t1 ex_junk)"

definition ex_g1 :: globals where
  "ex_g1 = snd (projr (loop_iteration ex_os [SIGALRM] ex_g0))"

definition ex_g3 :: globals where
  "ex_g3 = snd (projr (loop_iteration ex_os [SIGCHLD] (exit_of 0 ex_g1)))"

definition ex_g5 :: globals where
  "ex_g5 = snd (projr (loop_iteration ex_os [SIGCHLD] (exit_of 1 ex_g3)))"

text \<open>A result that is not an error and has a property.\<close>

definition yields :: "'a res \<Rightarrow> ('a \<Rightarrow> bool) \<Rightarrow> bool" where
  "yields r P \<longleftrightarrow> (case r of Inl e \<Rightarrow> False | Inr x \<Rightarrow> P x)"

lemma yieldsD: "yields r P \<Longrightarrow> r = Inr (projr r) \<and> P (projr r)"
  by (cases r) (simp_all add: yields_def)

lemma yields_iff: "yields r P \<longleftrightarrow> (\<exists>x. r = Inr x \<and> P x)"
  by (cases r) (simp_all add: yields_def)

lemma yields_turn: "yields r (\<lambda>(b, g). b = c \<and> P g) \<Longrightarrow> r = Inr (c, snd (projr r)) \<and> P (snd (projr r))"
  by (cases r) (auto simp: yields_def)

text \<open>The run, evaluated once.\<close>

definition ready :: "globals \<Rightarrow> bool" where
  "ready g \<longleftrightarrow> \<not> alrm_pending g \<and> \<not> chld_pending g"

definition at_g0 :: "globals \<Rightarrow> bool" where
  "at_g0 g \<longleftrightarrow> alrm_pending g \<and> \<not> chld_pending g \<and> nanos (time_unit (timer_info g)) = 1700000 \<and>
     nanos (arrival_remaining (timer_info g)) = 0 \<and> nanos (timeslice_remaining (timer_info g)) = 850000000"

definition at_g1 :: "globals \<Rightarrow> bool" where
  "at_g1 g \<longleftrightarrow> ready g \<and> queue_of g = [0, 1] \<and> length (procs (world_of g)) = 2 \<and>
     prio_of (world_of g) 0 = Some 98 \<and> prio_of (world_of g) 1 = Some 1 \<and>
     arrival_ptr g = 2 \<and> nanos (it_value g) = 850000000"

definition at_g3 :: "globals \<Rightarrow> bool" where
  "at_g3 g \<longleftrightarrow> ready g \<and> queue_of g = [1] \<and> arrival_ptr g = 2 \<and> length (procs (world_of g)) = 2 \<and>
     prio_of (world_of g) 0 = None \<and> prio_of (world_of g) 1 = Some 98"

lemma ex_run:
  "yields (main_init ex_os (show_input RR ex_table) ts_zero ex_t1 ex_junk) (\<lambda>g0. at_g0 g0 \<and>
   yields (loop_iteration ex_os [SIGALRM] g0) (\<lambda>(b1, g1). b1 = False \<and> at_g1 g1 \<and>
   yields (loop_iteration ex_os [SIGCHLD] (exit_of 0 g1)) (\<lambda>(b3, g3). b3 = False \<and> at_g3 g3 \<and>
   yields (loop_iteration ex_os [SIGCHLD] (exit_of 1 g3)) (\<lambda>(b5, g5). b5 = True \<and> queue_of g5 = []))))"
  by code_simp

lemmas ex_r0 = yieldsD [OF ex_run, folded ex_g0_def]
lemmas ex_r1 = yields_turn [OF conjunct2 [OF conjunct2 [OF ex_r0]], folded ex_g1_def]
lemmas ex_r3 = yields_turn [OF conjunct2 [OF conjunct2 [OF ex_r1]], folded ex_g3_def]
lemmas ex_r5 = yields_turn [OF conjunct2 [OF conjunct2 [OF ex_r3]], folded ex_g5_def]

lemma ex_turns:
  "main_init ex_os (show_input RR ex_table) ts_zero ex_t1 ex_junk = Inr ex_g0"
  "loop_iteration ex_os [SIGALRM] ex_g0 = Inr (False, ex_g1)"
  "loop_iteration ex_os [SIGCHLD] (exit_of 0 ex_g1) = Inr (False, ex_g3)"
  "loop_iteration ex_os [SIGCHLD] (exit_of 1 ex_g3) = Inr (True, ex_g5)"
  using ex_r0 ex_r1 ex_r3 ex_r5 by blast+

lemma ex_states: "at_g0 ex_g0" "at_g1 ex_g1" "at_g3 ex_g3"
  using ex_r0 ex_r1 ex_r3 by blast+

lemma ex_pending: "pending ex_g0 = {SIGALRM}" "pending ex_g1 = {}" "pending (exit_of 0 ex_g1) = {SIGCHLD}"
  "pending ex_g3 = {}" "pending (exit_of 1 ex_g3) = {SIGCHLD}"
  using ex_states by (simp_all add: at_g0_def at_g1_def at_g3_def ready_def exit_of_def)

lemma ex_runs: "runs (world_of ex_g1) 0" "runs (world_of ex_g3) 1"
  using ex_states(2,3) by (auto simp: at_g1_def at_g3_def runs_def less_2_cases_iff)

lemma reach_wakes_up:
  "reachable os g0 g \<Longrightarrow> pending g = {sig} \<Longrightarrow> loop_iteration os [sig] g = Inr (False, g') \<Longrightarrow> reachable os g0 g'"
  by (blast intro: reach_step wakes_up)

lemma reach_exit:
  "reachable os g0 g \<Longrightarrow> pending g = {} \<Longrightarrow> runs (world_of g) i \<Longrightarrow> reachable os g0 (exit_of i g)"
  unfolding exit_of_def by (blast intro: reach_step child_terminates)

lemma ex_reachable: "reachable ex_os ex_g0 ex_g1" "reachable ex_os ex_g0 ex_g3"
  "reachable ex_os ex_g0 (exit_of 1 ex_g3)"
proof -
  show 1: "reachable ex_os ex_g0 ex_g1" using reach_wakes_up [OF reach_start ex_pending(1) ex_turns(2)] .
  show 3: "reachable ex_os ex_g0 ex_g3"
    using reach_wakes_up [OF reach_exit [OF 1 ex_pending(2) ex_runs(1)] ex_pending(3) ex_turns(3)] .
  show "reachable ex_os ex_g0 (exit_of 1 ex_g3)" using reach_exit [OF 3 ex_pending(4) ex_runs(2)] .
qed

section \<open>A table of children and scheduler states on it\<close>

definition ex_child :: "string \<Rightarrow> int \<Rightarrow> int \<Rightarrow> int \<Rightarrow> ProcessInfo" where
  "ex_child n a t p = (ex_entry n a t)\<lparr>pid := p\<rparr>"

definition ex_world :: world where
  "ex_world = \<lparr>procs = [ex_child ''A'' 0 5 1000, ex_child ''B'' 0 2 1001, ex_child ''C'' 1 4 1002],
     prio = [1000 \<mapsto> 1, 1001 \<mapsto> 1, 1002 \<mapsto> 1], forks = 3, zombies = []\<rparr>"

definition ex_rr :: RR_state where
  "ex_rr = \<lparr>rr_pq = [Some (At 0), Some (At 1), None], current_process_id = 1,
     previous_active_id = 0, process_count = 2\<rparr>"

definition ex_heap :: Heap where
  "ex_heap = \<lparr>pq = [Some (At 1), Some (At 0), None], heap_size = 2\<rparr>"

definition ex_sjf :: SJF_state where
  "ex_sjf = \<lparr>inactive_heap = ex_heap, sjf_active = Null\<rparr>"

definition ex_psjf :: PSJF_state where
  "ex_psjf = \<lparr>psjf_pq = ex_heap, psjf_active = At 1, last_context_switch_time = 0, current_time = 0\<rparr>"

definition ex_psjf_idle :: PSJF_state where
  "ex_psjf_idle = ex_psjf\<lparr>psjf_active := Null\<rparr>"

definition ex_heap0 :: Heap where
  "ex_heap0 = \<lparr>pq = [Some (At 0), None, None], heap_size = 1\<rparr>"

definition ex_sjf_busy :: SJF_state where
  "ex_sjf_busy = \<lparr>inactive_heap = ex_heap0, sjf_active = At 2\<rparr>"

lemma ex_rr_inv: "rr_inv ex_rr" "rr_queue ex_rr = [1, 0]" "rr_jobs ex_rr = [0, 1]"
  by (simp_all add: ex_rr_def rr_inv_def rr_queue_def rr_jobs_def ptr_indices_def holds_def)

lemma ex_pids: "pids_ok ex_world [0, 1, 2]"
  by (simp add: ex_world_def pids_ok_def ex_child_def)

lemma ex_heap_inv: "heap_inv ex_world ex_heap" "heap_list ex_heap = [1, 0]"
  by (auto simp: ex_heap_def heap_inv_def heap_list_def ptr_indices_def heap_holds_def holds_def
      is_heap_def par_def key_of_def ex_world_def ex_child_def ex_entry_def less_Suc_eq
      less_eq_job_key_def less_job_key_def)


lemma ex_heap0_inv: "heap_inv ex_world ex_heap0" "heap_list ex_heap0 = [0]"
  by (simp_all add: ex_heap0_def heap_inv_def heap_list_def ptr_indices_def heap_holds_def holds_def
      is_heap_def ex_world_def)

text \<open>Simultaneous arrivals at time 4 under PSJF, with job 0 running.\<close>

definition ex_psjf1 :: PSJF_state where
  "ex_psjf1 = \<lparr>psjf_pq = ex_heap0, psjf_active = At 0, last_context_switch_time = 0, current_time = 0\<rparr>"

definition ex_world2 :: world where
  "ex_world2 = ex_world\<lparr>procs := [ex_child ''A'' 0 9 1000, ex_child ''B'' 4 7 1001, ex_child ''C'' 4 8 1002]\<rparr>"

definition ex_world3 :: world where
  "ex_world3 = ex_world\<lparr>procs := [ex_child ''A'' 0 9 1000, ex_child ''B'' 4 2 1001, ex_child ''C'' 4 8 1002]\<rparr>"

lemma ex_psjf1_ok: "psjf_inv ex_world3 ex_psjf1" "psjf_can_add 1 ex_psjf1 ex_world3"
proof -
  have "heap_inv ex_world3 ex_heap0"
    by (simp add: ex_heap0_def heap_inv_def heap_list_def ptr_indices_def heap_holds_def holds_def
        is_heap_def ex_world3_def)
  moreover have "psjf_jobs ex_psjf1 = [0]" using ex_heap0_inv(2) by (simp add: ex_psjf1_def)
  ultimately show "psjf_inv ex_world3 ex_psjf1" "psjf_can_add 1 ex_psjf1 ex_world3"
    by (simp_all add: psjf_inv_def psjf_can_add_def psjf_synced_def pids_ok_def in_int_def)
      (simp_all add: ex_psjf1_def ex_heap0_def ex_world3_def ex_child_def ex_entry_def)
qed

definition ex_api :: kernel_api where
  "ex_api = \<lparr>copy_to_user = (\<lambda>a ts mem. if mem a = None then (16, mem) else (0, mem(a \<mapsto> ts))),
     copy_from_user = (\<lambda>a mem. case mem a of None \<Rightarrow> (16, ts_zero) | Some ts \<Rightarrow> (0, ts))\<rparr>"

lemma ex_api_ok: "copy_ok ex_api"
  by (simp add: copy_ok_def ex_api_def)

section \<open>A run that gets stuck\<close>

text \<open>
  The second process arrives 500 time units after the first, which is the length of a time slice.
  The timer fires at that time, and is disarmed; then the first process terminates.
\<close>

definition ex_tie :: "ProcessInfo list" where
  "ex_tie = [ex_entry ''P1'' 0 800, ex_entry ''P2'' 500 100]"

definition alarm_of :: "globals \<Rightarrow> globals" where
  "alarm_of g = g\<lparr>alrm_pending := True, it_value := ts_zero\<rparr>"

definition ex_d0 :: globals where
  "ex_d0 = projr (main_init ex_os (show_input RR ex_tie) ts_zero ex_t1 ex_junk)"

definition ex_d1 :: globals where
  "ex_d1 = snd (projr (loop_iteration ex_os [SIGALRM] ex_d0))"

definition ex_d3 :: globals where
  "ex_d3 = snd (projr (loop_iteration ex_os [SIGALRM] (alarm_of ex_d1)))"

definition ex_d5 :: globals where
  "ex_d5 = snd (projr (loop_iteration ex_os [SIGCHLD] (exit_of 0 ex_d3)))"

lemma ex_tie_ok: "wf_table ex_tie"
  by (simp add: ex_tie_def wf_table_def wf_entry_def ex_entry_def arrivals_sorted_def in_int_def
      PROCESS_NAME_MAX_def isspace_def)

definition at_d1 :: "globals \<Rightarrow> bool" where
  "at_d1 g \<longleftrightarrow> ready g \<and> \<not> timspec_is_zero (it_value g) \<and> \<not> arrival_queue_empty g \<and>
     nanos (time_unit (timer_info g)) = 1700000 \<and>
     nanos (arrival_remaining (timer_info g)) = nanos (timeslice_remaining (timer_info g))"

definition at_d3 :: "globals \<Rightarrow> bool" where
  "at_d3 g \<longleftrightarrow> ready g \<and> length (procs (world_of g)) = 2 \<and>
     prio_of (world_of g) 0 = Some 98 \<and> prio_of (world_of g) 1 = None"

definition at_d5 :: "globals \<Rightarrow> bool" where
  "at_d5 g \<longleftrightarrow> ready g \<and> timspec_is_zero (it_value g) \<and> queue_of g = [] \<and> arrival_ptr g = 1 \<and>
     \<not> arrival_queue_empty g"

lemma ex_tie_run:
  "yields (main_init ex_os (show_input RR ex_tie) ts_zero ex_t1 ex_junk) (\<lambda>g0. (alrm_pending g0 \<and> \<not> chld_pending g0) \<and>
   yields (loop_iteration ex_os [SIGALRM] g0) (\<lambda>(b1, g1). b1 = False \<and> at_d1 g1 \<and>
   yields (loop_iteration ex_os [SIGALRM] (alarm_of g1)) (\<lambda>(b3, g3). b3 = False \<and> at_d3 g3 \<and>
   yields (loop_iteration ex_os [SIGCHLD] (exit_of 0 g3)) (\<lambda>(b5, g5). b5 = False \<and> at_d5 g5))))"
  by code_simp

lemmas ex_s0 = yieldsD [OF ex_tie_run, folded ex_d0_def]
lemmas ex_s1 = yields_turn [OF conjunct2 [OF conjunct2 [OF ex_s0]], folded ex_d1_def]
lemmas ex_s3 = yields_turn [OF conjunct2 [OF conjunct2 [OF ex_s1]], folded ex_d3_def]
lemmas ex_s5 = yields_turn [OF conjunct2 [OF conjunct2 [OF ex_s3]], folded ex_d5_def]

lemma ex_tie_turns:
  "main_init ex_os (show_input RR ex_tie) ts_zero ex_t1 ex_junk = Inr ex_d0"
  "loop_iteration ex_os [SIGALRM] ex_d0 = Inr (False, ex_d1)"
  "loop_iteration ex_os [SIGALRM] (alarm_of ex_d1) = Inr (False, ex_d3)"
  "loop_iteration ex_os [SIGCHLD] (exit_of 0 ex_d3) = Inr (False, ex_d5)"
  using ex_s0 ex_s1 ex_s3 ex_s5 by blast+

lemma ex_tie_states: "alrm_pending ex_d0 \<and> \<not> chld_pending ex_d0" "at_d1 ex_d1" "at_d3 ex_d3" "at_d5 ex_d5"
  using ex_s0 ex_s1 ex_s3 ex_s5 by blast+

lemma ex_tie_reachable: "reachable ex_os ex_d0 ex_d1" "reachable ex_os ex_d0 ex_d5"
proof -
  have p: "pending ex_d0 = {SIGALRM}" "pending ex_d1 = {}" "pending (alarm_of ex_d1) = {SIGALRM}"
    "pending ex_d3 = {}" "pending (exit_of 0 ex_d3) = {SIGCHLD}"
    using ex_tie_states by (simp_all add: at_d1_def at_d3_def ready_def alarm_of_def exit_of_def)
  have r: "runs (world_of ex_d3) 0" using ex_tie_states(3) by (auto simp: at_d3_def runs_def less_2_cases_iff)
  show 1: "reachable ex_os ex_d0 ex_d1" using reach_wakes_up [OF reach_start p(1) ex_tie_turns(2)] .
  have "reachable ex_os ex_d0 (alarm_of ex_d1)"
    unfolding alarm_of_def using reach_step [OF 1 timer_fires [OF p(2)]] ex_tie_states(2)
    by (simp add: at_d1_def)
  then have "reachable ex_os ex_d0 ex_d3" using reach_wakes_up p(3) ex_tie_turns(3) by blast
  then show "reachable ex_os ex_d0 ex_d5"
    using reach_wakes_up [OF reach_exit p(5) ex_tie_turns(4)] p(4) r by blast
qed


section \<open>Runs under the other strategies\<close>

lemma runs_code [code]:
  "runs w i \<longleftrightarrow> i < length (procs w) \<and> (case prio_of w i of None \<Rightarrow> False
     | Some m \<Rightarrow> list_all (\<lambda>j. case prio_of w j of None \<Rightarrow> True | Some m' \<Rightarrow> m' \<le> m) [0..<length (procs w)])"
  by (auto simp: runs_def list_all_iff split: option.splits)

text \<open>After the first alarm the child \<open>i\<close> terminates, then the child \<open>j\<close>, then the loop is left.\<close>

definition two_exits :: "string \<Rightarrow> nat \<Rightarrow> nat \<Rightarrow> bool" where
  "two_exits input i j \<longleftrightarrow>
     yields (main_init ex_os input ts_zero ex_t1 ex_junk) (\<lambda>g0. (alrm_pending g0 \<and> \<not> chld_pending g0) \<and>
     yields (loop_iteration ex_os [SIGALRM] g0) (\<lambda>(b1, g1). b1 = False \<and> (ready g1 \<and> runs (world_of g1) i) \<and>
     yields (loop_iteration ex_os [SIGCHLD] (exit_of i g1)) (\<lambda>(b3, g3). b3 = False \<and> (ready g3 \<and> runs (world_of g3) j) \<and>
     yields (loop_iteration ex_os [SIGCHLD] (exit_of j g3)) (\<lambda>(b5, g5). b5 = True))))"

lemma two_exitsE:
  assumes "two_exits input i j"
  obtains g0 g1 g3 g5 where "main_init ex_os input ts_zero ex_t1 ex_junk = Inr g0" "pending g0 = {SIGALRM}"
    "reachable ex_os g0 g1" "ready g1" "reachable ex_os g0 (exit_of j g3)" "pending (exit_of j g3) = {SIGCHLD}"
    "loop_iteration ex_os [SIGCHLD] (exit_of j g3) = Inr (True, g5)"
proof -
  obtain g0 g1 g3 g5 where g: "main_init ex_os input ts_zero ex_t1 ex_junk = Inr g0" "pending g0 = {SIGALRM}"
    "loop_iteration ex_os [SIGALRM] g0 = Inr (False, g1)" "ready g1" "runs (world_of g1) i"
    "loop_iteration ex_os [SIGCHLD] (exit_of i g1) = Inr (False, g3)" "ready g3" "runs (world_of g3) j"
    "loop_iteration ex_os [SIGCHLD] (exit_of j g3) = Inr (True, g5)"
    using assms by (auto simp: two_exits_def yields_iff)
  have p: "pending g1 = {}" "pending (exit_of i g1) = {SIGCHLD}" "pending g3 = {}" "pending (exit_of j g3) = {SIGCHLD}"
    using g(4,7) by (simp_all add: ready_def exit_of_def)
  have 1: "reachable ex_os g0 g1" using reach_wakes_up [OF reach_start g(2,3)] .
  have "reachable ex_os g0 (exit_of j g3)"
    using reach_exit [OF reach_wakes_up [OF reach_exit [OF 1 p(1) g(5)] p(2) g(6)] p(3) g(8)] .
  with that g p 1 show ?thesis by blast
qed

lemma ex_fifo_run: "two_exits (show_input FIFO ex_table) 0 1"
  by code_simp

lemma ex_sjf_run: "two_exits (show_input SJF ex_table) 1 0"
  by code_simp


text \<open>The only job terminates before the second process arrives.\<close>

definition idle_gap :: "string \<Rightarrow> bool" where
  "idle_gap input \<longleftrightarrow>
     yields (main_init ex_os input ts_zero ex_t1 ex_junk) (\<lambda>g0. (alrm_pending g0 \<and> \<not> chld_pending g0) \<and>
     yields (loop_iteration ex_os [SIGALRM] g0) (\<lambda>(b1, g1). b1 = False \<and> ready g1 \<and> runs (world_of g1) 0 \<and>
       heap_list (inactive_heap (sjf_of g1)) = [] \<and> \<not> arrival_queue_empty g1))"

lemma idle_gapE:
  assumes "idle_gap input"
  obtains g0 g where "main_init ex_os input ts_zero ex_t1 ex_junk = Inr g0" "reachable ex_os g0 g"
    "pending g = {SIGCHLD}" "heap_list (inactive_heap (sjf_of g)) = []" "\<not> arrival_queue_empty g"
proof -
  obtain g0 g1 where g: "main_init ex_os input ts_zero ex_t1 ex_junk = Inr g0" "pending g0 = {SIGALRM}"
    "loop_iteration ex_os [SIGALRM] g0 = Inr (False, g1)" "pending g1 = {}" "runs (world_of g1) 0"
    "heap_list (inactive_heap (sjf_of g1)) = []" "\<not> arrival_queue_empty g1"
    using assms by (auto simp: idle_gap_def yields_iff ready_def)
  then show ?thesis
    using that [of g0 "exit_of 0 g1"] reach_exit [OF reach_wakes_up [OF reach_start g(2,3)] g(4,5)]
    by (simp add: exit_of_def arrival_queue_empty_def)
qed

lemma ex_gap: "idle_gap (show_input SJF ex_tie)"
  by code_simp


section \<open>An input that is not in order of arrival\<close>

definition strict_os :: os where
  "strict_os = ex_os\<lparr>timer_settime := (\<lambda>v. if tv_sec v < 0 \<or> tv_nsec v < 0 then -1 else 0)\<rparr>"

definition ex_late :: "ProcessInfo list" where
  "ex_late = [ex_entry ''P1'' 5 3, ex_entry ''P2'' 3 2]"

lemma strict_os_ok: "timer_rejects strict_os"
  by (simp add: timer_rejects_def strict_os_def)

definition fired :: "globals \<Rightarrow> globals" where
  "fired g = g\<lparr>alrm_pending := True, it_value := ts_zero\<rparr>"

lemma ex_late_run:
  "yields (main_init strict_os (show_input FIFO ex_late) ts_zero ex_t1 ex_junk) (\<lambda>g. ready g \<and>
     current_strategy g = FIFO \<and> map arrival_time (procs (world_of g)) = [5, 3] \<and>
     nanos (time_unit (timer_info g)) = 1700000 \<and> \<not> timspec_is_zero (it_value g) \<and>
     (case loop_iteration strict_os [SIGALRM] (fired g) of Inl e \<Rightarrow> e = Exit (- 1) | Inr p \<Rightarrow> False))"
  by code_simp



section \<open>The run, with its time\<close>

lemma ex_timed: "timed ex_os ex_g0 0 ex_g1" "timed ex_os ex_g0 850000000 (fired ex_g1)"
proof -
  have "timed ex_os ex_g0 (0 + timer_ran ex_g0 ex_g1) ex_g1"
    by (rule timed_step [OF timed_start wakes_up [OF ex_pending(1) ex_turns(2)]])
  then show t: "timed ex_os ex_g0 0 ex_g1" using ex_states(1) by (simp add: timer_ran_def at_g0_def)
  have "\<not> timspec_is_zero (it_value ex_g1)" "timer_ran ex_g1 (fired ex_g1) = 850000000"
    using ex_states(2) by (auto simp: at_g1_def ready_def timer_ran_def fired_def timspec_is_zero_def nanos_def)
  with timed_step [OF t timer_fires [OF ex_pending(2)]]
  show "timed ex_os ex_g0 850000000 (fired ex_g1)" by (simp add: fired_def)
qed


section \<open>An input with a gap\<close>

definition ex_apart :: "ProcessInfo list" where
  "ex_apart = [ex_entry ''P1'' 0 3, ex_entry ''P2'' 9 2]"

lemma ex_apart_ok: "wf_table ex_apart"
  by (simp add: ex_apart_def wf_table_def wf_entry_def ex_entry_def arrivals_sorted_def in_int_def
      PROCESS_NAME_MAX_def isspace_def)

lemma ex_apart_run:
  "yields (main_init ex_os (show_input SJF ex_apart) ts_zero ex_t1 ex_junk) (\<lambda>g0. (alrm_pending g0 \<and> \<not> chld_pending g0) \<and>
   yields (loop_iteration ex_os [SIGALRM] g0) (\<lambda>(b, g). b = False \<and> arrival_ptr g = 1 \<and> \<not> arrival_queue_empty g))"
  by code_simp

section \<open>A kernel that makes no processes\<close>

definition no_fork_os :: os where
  "no_fork_os = ex_os\<lparr>fork := (\<lambda>k. -1), sched_setscheduler := (\<lambda>p q. if p < 0 then -1 else 0)\<rparr>"

lemma no_fork_run:
  "yields (main_init no_fork_os (show_input FIFO ex_table) ts_zero ex_t1 ex_junk) (\<lambda>g.
     current_strategy g = FIFO \<and> arrival_ptr g < length (procs (world_of g)))"
  by code_simp

end
