(* ===== verification/Spec2Isabelle.thy ===== *)
theory Spec2Isabelle
  imports Sample_Data
begin

text \<open>
  A verification of a user-level process scheduler for Linux, written in C.

  \<^bold>\<open>The program.\<close> \<^verbatim>\<open>main\<close> (\<^verbatim>\<open>src/main.c\<close>) reads a strategy (FIFO, RR, SJF or PSJF) and a table of
  processes, each with a name, an arrival time and an execution time in time units. It gives itself
  the highest real-time priority, measures a time unit, arms a timer and waits for signals in an
  event loop. An alarm means that a process arrives, or under RR that a time slice is over; then the
  loop forks a child for the process and hands it to the scheduler of the strategy. A \<^verbatim>\<open>SIGCHLD\<close> means
  that the running child has terminated. At the end of each turn the scheduler switches contexts: it
  gives the child that is to run the second highest priority and every other child the lowest, and
  the kernel does the rest. A child runs an empty loop for its time and reports its start and its
  end with two system calls that the project adds to the kernel (\<^verbatim>\<open>src/kernel_files/kernel/proj1.c\<close>).
  When all processes have arrived and the scheduler is empty, names and pids are printed.

  \<^bold>\<open>The theories\<close>, each importing the ones it needs:
  \<^item> \<open>Sched_Prelude\<close>: the result type (a sum whose left side is an error: failed assertion, exit, or an
    undefined behaviour of C such as signed overflow, an index out of bounds, an indeterminate value
    or a null pointer, or a call that blocks for good), checked \<^verbatim>\<open>int\<close> and 64-bit arithmetic, arrays, shared lemmas.
  \<^item> \<open>Timespec\<close>: \<^verbatim>\<open>struct timespec\<close> and its arithmetic (\<^verbatim>\<open>main.c\<close>, \<^verbatim>\<open>timespec_*\<close>, \<^verbatim>\<open>min_timespecp\<close>).
  \<^item> \<open>Sched_Types\<close>: \<^verbatim>\<open>scheduler.h\<close>. The process table is an explicit store, \<open>procs\<close> of the record \<open>world\<close>,
    and a \<^verbatim>\<open>ProcessInfo *\<close> is null or an index of it, so that PSJF can change a process while the heap
    holds it. The other fields are what the kernel keeps: priorities by pid, forks so far, zombies.
  \<^item> \<open>Proc_Heap\<close>: \<^verbatim>\<open>heap.c\<close>. \<open>FIFO_Sched\<close>, \<open>RR_Sched\<close>, \<open>SJF_Sched\<close>, \<open>PSJF_Sched\<close>: the files of these names;
    the static variables of a file are a record that each function takes and returns.
  \<^item> \<open>Sched_Interface\<close>: the locales through which the event loop sees a scheduler (\<open>job_scheduler\<close>,
    \<open>one_runner\<close>), interpreted in the theories of the schedulers; the interface of the heap is the locale
    \<open>priority_queue\<close>, interpreted on \<^verbatim>\<open>heap.c\<close>.
  \<^item> \<open>Input\<close>: \<^verbatim>\<open>read_process_info\<close> and what it uses of \<^verbatim>\<open>scanf\<close>. \<open>Timer\<close>: the globals of \<^verbatim>\<open>main.c\<close>, the
    arrival queue and the timer. \<open>Event_Loop\<close>: the dispatching functions, \<^verbatim>\<open>main\<close> up to the loop
    (\<open>main_init\<close>), the body of the loop (\<open>handle_event\<close>, \<open>loop_iteration\<close>) and the output.
  \<^item> \<open>Syscalls\<close>: \<^verbatim>\<open>proj1.c\<close>, both variants, and the child's side of \<^verbatim>\<open>fork_a_child\<close>. \<open>Time_Calc\<close>: the
    script \<^verbatim>\<open>time_calc.py\<close> over the kernel log. \<open>Manual_Tests\<close>: the functions at the end of \<^verbatim>\<open>main.c\<close> that
    try out the kernel's scheduling.
  \<^item> \<open>System\<close>: the program with its environment as a step relation. \<open>Clock\<close>: runs measured by the time
    the timer has run, and the locale \<open>punctual\<close> for strategies that keep such a clock. \<open>Arrivals\<close>: the
    loop over arrivals for any strategy (locale \<open>arrivals\<close>), and the event loop for strategies without
    time slices (\<open>arrival_driven\<close>, which is \<open>punctual\<close> by a sublocale, and \<open>arrival_finishing\<close>, which bounds
    the length of runs). They are interpreted in \<open>RR_System\<close>, \<open>FIFO_System\<close> and \<open>SJF_System\<close>, which hold the
    invariants of the whole program. \<open>RR_Policy\<close>: round robin as a deterministic machine over a list and two
    numbers (\<open>policy_alarm\<close>, \<open>policy_exit\<close>), and that the program makes its moves. \<open>RR_Progress\<close>: the clock of the RR program and when it can go on.
    \<open>RR_Deadlock\<close>: when it cannot.
  \<^item> \<open>Children\<close>: no operation ends a child. \<open>Paced\<close>: runs in which every child works off its execution time
    (\<open>pace\<close>, a step relation over the time that has passed and the time each child still needs, and \<open>paced\<close>, what
    it reaches); \<open>ends_at\<close>: no such run is infinite and all of them leave the loop at the given time; the locale
    \<open>work_conserving\<close> for strategies that leave the processor idle only if no child could run. \<open>Paced_System\<close>
    interprets it for FIFO, RR and SJF. \<open>Test_Inputs\<close>: the files of \<^verbatim>\<open>src/OS_PJ1_Test\<close>, byte by byte.
  \<^item> \<open>Unsorted_Input\<close>: inputs that are
    not in order of arrival. \<open>Sample_Data\<close>: inputs and states for the witnesses.

  \<^bold>\<open>What is shown.\<close> The whole program: under RR and FIFO no turn of the loop fails in any reachable
  state, for any sorted input; every turn under RR is a move of the abstract round-robin policy, and nobody is overtaken; the priorities are those of
  the policy in every reachable state; when the loop is left every child has been forked, has
  terminated and been reaped, and the output is right; RR has a deadlock if and only if a process is due at
  a multiple of a time slice; FIFO has none; SJF fails exactly when it
  becomes idle before the last arrival; under both, every run ends after at most four steps per
  process. Time: the processes arrive exactly when they are due, and under RR every other alarm comes
  at a multiple of the time slice; if the input leaves no gap, every run of FIFO, RR and SJF comes to its end when the
  first arrival and all execution times have passed, and all test inputs for them are of this kind; SJF never
  gets past a gap. Data: in every reachable state the table, the timer and the arrays of the schedulers
  are well formed. The schedulers: the heap is a priority queue and sorts, the array of RR with its
  two indices is a queue and is fair, SJF starts a shortest job and does not preempt, PSJF switches
  to a shortest job and accounts for the time of the running one. Arithmetic and input: the timespec
  arithmetic is exact within its 64 bits, one timer simulates two, reading a printed table gives it
  back, and the script reads the log that the children leave in the kernel. Errors: PSJF fails at the first arrival of every input, and mishandles simultaneous ones; two
  signals at once can lose a termination; malformed inputs end in a failed assertion; a kernel that refuses ends the program with its answer; an input that is
  not in order of arrival never comes to a normal end.

  \<^bold>\<open>What is assumed of the environment\<close>, as parameters (the record \<open>os\<close>) and named hypotheses:
  \<open>sched_ok\<close>, \<open>fork_ok\<close>, \<open>timer_ok\<close> (together \<open>os_ok\<close>): the calls succeed as documented for a privileged
  caller, forks give fresh positive pids, and a pid is not reused during the run; \<open>timer_rejects\<close>: a timer cannot be set to a negative value;
  \<open>clock_ok\<close>: the clock is monotonic and the measurement takes
  less than 292 years; \<open>copy_ok\<close>: copying to and from user memory. In the step relation the kernel runs a
  child of the highest priority, so only such a child can terminate; the timer may fire at any
  moment while it is armed; one signal is handled per turn (what two at once do is stated separately). A new child
  inherits the priority of its parent; when it first runs it sets its own priority to the running
  one, which it then already has, so the step relation leaves that out.

  \<^bold>\<open>Bounds.\<close> An \<^verbatim>\<open>int\<close> has 32 bits, \<^verbatim>\<open>time_t\<close> and \<^verbatim>\<open>long\<close> have 64. The index computations of the heap stay
  within \<^verbatim>\<open>int\<close> for up to \<open>2 ^ 30\<close> processes. There is no fuel: every loop of the program but the event
  loop is a total function with a termination proof, and the event loop is the step relation, whose
  runs are shown to be bounded, under RR in terms of the number of time slices that end in them (a child
  that never terminates keeps the loop going, slice after slice). How long the handlers take is not modelled: time is
  what the timer counts and what the children use.

  \<^bold>\<open>Not modelled.\<close> \<^verbatim>\<open>src/kernel_files/include/linux/syscalls.h\<close> is the kernel's own header, to which
  the project adds the prototypes of its two system calls; it has no code. The Makefile and the shell
  scripts have no logic of the program. Of \<^verbatim>\<open>time_calc.py\<close> the floating point
  division for the output is left out: the result is the number of nanoseconds. The
  texts that \<^verbatim>\<open>perror\<close> prints are not part of the state; \<^verbatim>\<open>scheduler_exit\<close> is an error value with its status,
  without the signal that it sends to the process group first. The \<^verbatim>\<open>timer_id\<close> of \<^verbatim>\<open>TimerInfo\<close> is left out.
  Nothing is proved of what the manual tests report, which is up to the kernel's scheduler; they
  are translated as the sequences of their calls.
\<close>

section \<open>The whole program under the round-robin policy\<close>

text \<open>
  C1. On every well-formed input file for the round-robin policy the initialisation succeeds, and
  in every state that the program can reach from there, for every order of alarms and terminations
  of the running child, the turn of the event loop that handles the pending signal returns: no
  assertion fails, no array is left, no indeterminate value is read, no integer overflows. The loop
  is left exactly when every process has arrived and the run queue is empty.
\<close>

theorem rr_program_never_fails:
  assumes "os_ok os" "0 < getpid os" "wf_table ps" "clock_ok t0 t1"
  shows "\<exists>g0. main_init os (show_input RR ps) t0 t1 junk = Inr g0 \<and>
    (\<forall>g sig. reachable os g0 g \<and> pending g = {sig} \<longrightarrow>
      (\<exists>b g'. loop_iteration os [sig] g = Inr (b, g') \<and>
        (b \<longleftrightarrow> arrival_queue_empty g' \<and> queue_of g' = [])))"
proof -
  obtain g0 where g0: "main_init os (show_input RR ps) t0 t1 junk = Inr g0" "rr_sys_inv os g0"
    using rr_init [OF assms] by blast
  then show ?thesis using rr_reachable_turn by blast
qed

theorem rr_program_never_fails_witness:
  "main_init ex_os (show_input RR ex_table) ts_zero ex_t1 ex_junk = Inr ex_g0 \<and>
   reachable ex_os ex_g0 (exit_of 1 ex_g3) \<and> pending (exit_of 1 ex_g3) = {SIGCHLD} \<and>
   (\<exists>b g'. loop_iteration ex_os [SIGCHLD] (exit_of 1 ex_g3) = Inr (b, g') \<and>
      (b \<longleftrightarrow> arrival_queue_empty g' \<and> queue_of g' = []))"
  using rr_program_never_fails [OF ex_os_ok(1,2) ex_table_ok ex_clock_ok, of ex_junk]
    ex_turns(1) ex_reachable(3) ex_pending(5) by auto

text \<open>
  C2. The program refines the abstract round-robin policy, move by move. The policy is a deterministic machine:
  a list of jobs, the number of processes that have arrived, and the times left of the slice and until the next arrival.
  The program starts in its start state, and in every state that is reached: what happens between
  two turns does not change it; an alarm makes exactly its move for an alarm (the processes that are due
  together go to the back, or the slice is over, the front goes to the back and a new slice of 500 time units
  begins); a termination is that of the front, whose child is the one to be reaped, and takes it out. The loop is left when
  the queue of the policy is empty and every process has arrived.
\<close>

theorem rr_program_refines:
  assumes "os_ok os" "0 < getpid os" "wf_table ps" "clock_ok t0 t1"
    "main_init os (show_input RR ps) t0 t1 junk = Inr g0" "reachable os g0 g"
    "u = (nanos t1 - nanos t0) div 1000" "ts = map arrival_time ps"
  shows "policy_of g0 = policy_start u ts \<and>
    (pending g = {} \<longrightarrow> (\<forall>g'. step os g g' \<longrightarrow> policy_of g' = policy_of g)) \<and>
    (pending g = {SIGALRM} \<longrightarrow> (\<exists>b g'. loop_iteration os [SIGALRM] g = Inr (b, g') \<and>
       policy_of g' = policy_alarm u ts (policy_of g) \<and>
       (b \<longleftrightarrow> arrived (policy_of g') = length ts \<and> run_queue (policy_of g') = []))) \<and>
    (pending g = {SIGCHLD} \<longrightarrow> run_queue (policy_of g) \<noteq> [] \<and>
       zombies (world_of g) = [fork os (hd (run_queue (policy_of g)))] \<and>
       (\<exists>b g'. loop_iteration os [SIGCHLD] g = Inr (b, g') \<and> policy_of g' = policy_exit (policy_of g) \<and>
         (b \<longleftrightarrow> arrived (policy_of g') = length ts \<and> run_queue (policy_of g') = [])))"
  using rr_policy_start [OF assms(1-5)] rr_policy_quiet rr_policy_alarm [OF assms(1-6)]
    rr_policy_exit [OF assms(1-6)] assms(7,8) by simp

theorem rr_program_refines_witness:
  "policy_of ex_g0 = policy_start 1700000 [0, 0] \<and> policy_of ex_g1 = policy_alarm 1700000 [0, 0] (policy_of ex_g0) \<and>
   run_queue (policy_of ex_g1) = [0, 1] \<and> slice_left (policy_of ex_g1) = 850000000 \<and>
   policy_of ex_g5 = policy_exit (policy_of (exit_of 1 ex_g3))"
proof -
  have u: "1700000 = (nanos ex_t1 - nanos ts_zero) div 1000" "[0, 0] = map arrival_time ex_table"
    by (simp_all add: ex_t1_def nanos_def BILLION_def ex_table_def ex_entry_def)
  note r = rr_program_refines [OF ex_os_ok(1,2) ex_table_ok ex_clock_ok ex_turns(1) _ u]
  have "policy_of ex_g0 = policy_start 1700000 [0, 0]" "policy_of ex_g1 = policy_alarm 1700000 [0, 0] (policy_of ex_g0)"
    "policy_of ex_g5 = policy_exit (policy_of (exit_of 1 ex_g3))"
    using r [OF reach_start] r [OF ex_reachable(3)] ex_pending(1,5) ex_turns(2,4) by simp_all
  then show ?thesis
    by (simp add: policy_alarm_def policy_start_def policy_arrive_def batch_end_def Let_def upt_rec)
qed

text \<open>
  C3. In every reachable state without a pending termination the priorities of the children are
  exactly those the policy asks for: the front of the run queue has the second highest priority,
  every other job in the queue the lowest, and no other child exists.
\<close>

theorem rr_program_one_runs:
  assumes "os_ok os" "0 < getpid os" "wf_table ps" "clock_ok t0 t1"
    "main_init os (show_input RR ps) t0 t1 junk = Inr g0" "reachable os g0 g"
    "\<not> chld_pending g" "i < length (procs (world_of g))"
  shows "prio_of (world_of g) i =
     (if queue_of g \<noteq> [] \<and> i = hd (queue_of g) then Some (run_prio os)
      else if i \<in> set (queue_of g) then Some (low_prio os) else None)"
proof -
  have "rr_sys_inv os g" using rr_reachable_inv [OF assms(6) rr_initD(1) [OF assms(1-5)]] .
  then have "settled os g" "rr_base os g" using assms(7) by (simp_all add: rr_sys_inv_def)
  then show ?thesis
    using rr_baseD(8) assms(8)
    by (cases "queue_of g") (auto simp: rr_settled_def rr_quiet_def)
qed

theorem rr_program_one_runs_witness:
  "prio_of (world_of ex_g1) 0 = Some 98 \<and> prio_of (world_of ex_g1) 1 = Some 1"
  using rr_program_one_runs [OF ex_os_ok(1,2) ex_table_ok ex_clock_ok ex_turns(1) ex_reachable(1), of 0]
    rr_program_one_runs [OF ex_os_ok(1,2) ex_table_ok ex_clock_ok ex_turns(1) ex_reachable(1), of 1]
    ex_states(2) by (simp add: at_g1_def ex_os_def ready_def)

text \<open>
  C4. When the loop is left, every process of the input has been forked, has terminated and has
  been reaped, and the program prints the names of the input in order, each with the pid of its
  child.
\<close>

theorem rr_program_ends:
  assumes "os_ok os" "0 < getpid os" "wf_table ps" "clock_ok t0 t1"
    "main_init os (show_input RR ps) t0 t1 junk = Inr g0" "reachable os g0 g"
    "pending g = {sig}" "loop_iteration os [sig] g = Inr (True, g')"
  shows "main_output g' = zip (map name ps) (map (fork os) [0..<length ps]) \<and>
     (\<forall>i < length ps. prio_of (world_of g') i = None) \<and> zombies (world_of g') = []"
proof -
  note init = rr_initD [OF assms(1-5)]
  have g': "rr_sys_inv os g'" "arrival_queue_empty g'" "queue_of g' = []"
    using rr_reachable_turn [OF init(1) assms(6,7)] assms(8) by auto
  have "map name (procs (world_of g')) = map name ps"
    using table_data_cong(1) [OF loop_iteration_table [OF assms(8)]]
      table_data_cong(1) [OF reachable_table [OF assms(6)]] init(4) by simp
  moreover from this have "length (procs (world_of g')) = length ps" by (metis length_map)
  ultimately show ?thesis using rr_finished_output [OF g'] by simp
qed

theorem rr_program_ends_witness: "main_output ex_g5 = [(''P1'', 1000), (''P2'', 1001)]"
  using rr_program_ends [OF ex_os_ok(1,2) ex_table_ok ex_clock_ok ex_turns(1) ex_reachable(3)
      ex_pending(5) ex_turns(4)]
  by (simp add: ex_table_def ex_entry_def ex_os_def upt_rec)


text \<open>
  One timer stands for two: after an alarm has been handled under the round-robin policy the
  timer is armed again, with one exception. It is set to zero, and so disarmed, exactly when a
  process was due to arrive at the very end of a time slice.
\<close>

theorem rr_timer_rearmed:
  assumes "rr_sys_inv os g" "0 < nanos (time_unit (timer_info g))" "handle_timer os g = Inr g'"
  shows "timspec_is_zero (it_value g') \<longleftrightarrow> \<not> arrival_queue_empty g \<and>
     nanos (arrival_remaining (timer_info g)) = nanos (timeslice_remaining (timer_info g))"
  using rr_timer_armed [OF _ _ assms(2,3)] assms(1) by (simp add: rr_sys_inv_def)

theorem rr_timer_rearmed_witness:
  "(\<exists>g'. handle_timer ex_os ex_g0 = Inr g' \<and> \<not> timspec_is_zero (it_value g')) \<and>
   (\<exists>g'. handle_timer ex_os ex_d1 = Inr g' \<and> timspec_is_zero (it_value g'))"
proof -
  have inv: "rr_sys_inv ex_os ex_g0" "rr_sys_inv ex_os ex_d0"
    using rr_initD(1) [OF ex_os_ok(1,2) ex_table_ok ex_clock_ok ex_turns(1)]
      rr_initD(1) [OF ex_os_ok(1,2) ex_tie_ok ex_clock_ok ex_tie_turns(1)] .
  have inv1: "rr_sys_inv ex_os ex_d1" using rr_reachable_inv [OF ex_tie_reachable(1) inv(2)] .
  obtain g h where "handle_timer ex_os ex_g0 = Inr g" "handle_timer ex_os ex_d1 = Inr h"
    using rr_handle_timer inv(1) inv1 by (metis rr_sys_inv_def)
  with rr_timer_rearmed [OF inv(1)] rr_timer_rearmed [OF inv1] ex_states(1) ex_tie_states(2)
  show ?thesis by (simp add: at_g0_def at_d1_def)
qed

text \<open>
  C5. For inputs that avoid this exception the round-robin program has no deadlock: if the measured time unit is
  not zero and no process arrives at a positive multiple of 500 time units, the end of a time
  slice, then from every reachable state the program can still come to its end, and it stops
  nowhere but in a wake-up that leaves the loop.
\<close>

theorem rr_always_can_finish:
  assumes "os_ok os" "0 < getpid os" "wf_table ps" "clock_ok t0 t1" "1000 \<le> nanos t1 - nanos t0"
    "\<forall>p \<in> set ps. arrival_time p mod 500 = 0 \<longrightarrow> arrival_time p = 0"
    "main_init os (show_input RR ps) t0 t1 junk = Inr g0" "reachable os g0 g"
  shows "(\<exists>h sig g'. reachable os g h \<and> pending h = {sig} \<and> loop_iteration os [sig] h = Inr (True, g')) \<and>
    ((\<nexists>g'. step os g g') \<longrightarrow> (\<exists>sig g'. pending g = {sig} \<and> loop_iteration os [sig] g = Inr (True, g')))"
proof -
  have "no_tie (map arrival_time ps)" "UNIT_MEASURE_REPEAT \<le> nanos t1 - nanos t0"
    using assms(5,6) by (simp_all add: no_tie_def RR_TIMES_OF_UNIT_def UNIT_MEASURE_REPEAT_def)
  from rr_init_live [OF assms(1-4) this(2,1) assms(7)] have "rr_live os g0 0" .
  then obtain T where "rr_live os g T" using rr_live_reachable [OF assms(8)] by blast
  then show ?thesis using rr_live_finish rr_live_progress unfolding can_finish_def by blast
qed

theorem rr_always_can_finish_witness:
  "\<exists>h sig g'. reachable ex_os ex_g1 h \<and> pending h = {sig} \<and> loop_iteration ex_os [sig] h = Inr (True, g')"
proof -
  have "1000 \<le> nanos ex_t1 - nanos ts_zero" by (simp add: ex_t1_def nanos_def BILLION_def)
  moreover have "\<forall>p \<in> set ex_table. arrival_time p mod 500 = 0 \<longrightarrow> arrival_time p = 0"
    by (simp add: ex_table_def ex_entry_def)
  ultimately show ?thesis
    using rr_always_can_finish [OF ex_os_ok(1,2) ex_table_ok ex_clock_ok _ _ ex_turns(1) ex_reachable(1)] by blast
qed

text \<open>
  C6. How long a round-robin run can be, for every well-formed input: at most four steps per process and two
  for each time slice that ends in it. So a run is
  infinite only if time slices end forever.
\<close>

theorem rr_runs_bounded:
  assumes "os_ok os" "0 < getpid os" "wf_table ps" "clock_ok t0 t1"
    "main_init os (show_input RR ps) t0 t1 junk = Inr (f 0)" "\<forall>i < k. step os (f i) (f (Suc i))"
  shows "k \<le> 4 * length ps +
    2 * card {i. i < k \<and> pending (f i) = {SIGALRM} \<and> arrival_ptr (f (Suc i)) = arrival_ptr (f i)}"
proof -
  note init = rr_initD [OF assms(1-5)]
  have "\<not> arrival_queue_empty (f 0)"
    using table_inv_queue [OF rr_baseD(3), of os "f 0"] init assms(3) by (auto simp: rr_sys_inv_def wf_table_def)
  then have "rr_busy os (f 0)" using init(1) by (simp add: rr_busy_def)
  moreover have "rr_steps_left (f 0) \<le> 4 * length ps" using init by (simp add: rr_steps_left_def)
  ultimately show ?thesis using rr_run_bound [OF _ assms(6)] unfolding slice_over_def by fastforce
qed

theorem rr_runs_bounded_witness:
  "\<exists>f. f 0 = ex_g0 \<and> (\<forall>i < 2. step ex_os (f i) (f (Suc i))) \<and>
     2 \<le> 8 + 2 * card {i. i < 2 \<and> pending (f i) = {SIGALRM} \<and> arrival_ptr (f (Suc i)) = arrival_ptr (f i)}"
proof -
  define f where "f = (\<lambda>i::nat. if i = 0 then ex_g0 else if i = 1 then ex_g1 else fired ex_g1)"
  have "step ex_os ex_g1 (fired ex_g1)"
    unfolding fired_def using ex_states(2) by (intro timer_fires) (auto simp: at_g1_def ready_def timspec_is_zero_def nanos_def)
  then have "\<forall>i < 2. step ex_os (f i) (f (Suc i))"
    using wakes_up [OF ex_pending(1) ex_turns(2)] by (auto simp: f_def less_2_cases_iff)
  moreover have "f 0 = ex_g0" by (simp add: f_def)
  ultimately show ?thesis
    using rr_runs_bounded [OF ex_os_ok(1,2) ex_table_ok ex_clock_ok, of ex_junk f 2] ex_turns(1)
    by (intro exI [of _ f]) (simp add: ex_table_def)
qed

text \<open>
  C7. The exception is a deadlock, and it is the only one. On a well-formed input, if the measured time unit is not
  zero, the program can reach a state in which processes are still to arrive, no signal is pending and
  no step is possible, if and only if some process is due at a positive multiple of 500 time units, the
  length of a time slice.
\<close>

theorem rr_deadlock_iff:
  assumes "os_ok os" "0 < getpid os" "wf_table ps" "clock_ok t0 t1" "1000 \<le> nanos t1 - nanos t0"
    "main_init os (show_input RR ps) t0 t1 junk = Inr g0"
  shows "(\<exists>g. reachable os g0 g \<and> pending g = {} \<and> \<not> arrival_queue_empty g \<and> (\<nexists>g'. step os g g')) \<longleftrightarrow>
    (\<exists>p \<in> set ps. arrival_time p mod 500 = 0 \<and> arrival_time p \<noteq> 0)"
proof -
  have "UNIT_MEASURE_REPEAT \<le> nanos t1 - nanos t0" using assms(5) by (simp add: UNIT_MEASURE_REPEAT_def)
  from rr_deadlock_iff_tie [OF assms(1-4) this assms(6)] show ?thesis
    by (simp add: deadlock_def no_tie_def RR_TIMES_OF_UNIT_def)
qed

theorem rr_deadlock_iff_witness:
  "\<exists>g0 g. main_init ex_os (show_input RR ex_tie) ts_zero ex_t1 ex_junk = Inr g0 \<and> reachable ex_os g0 g \<and>
     pending g = {} \<and> \<not> arrival_queue_empty g \<and> (\<nexists>g'. step ex_os g g')"
proof -
  have "1000 \<le> nanos ex_t1 - nanos ts_zero" "\<exists>p \<in> set ex_tie. arrival_time p mod 500 = 0 \<and> arrival_time p \<noteq> 0"
    by (simp_all add: ex_t1_def nanos_def BILLION_def ex_tie_def ex_entry_def)
  with rr_deadlock_iff [OF ex_os_ok(1,2) ex_tie_ok ex_clock_ok _ ex_tie_turns(1)] ex_tie_turns(1) show ?thesis by blast
qed

text \<open>
  C8. Under RR every alarm comes at the right time and does what is due then, for inputs without that coincidence.
  Measure a run by the time its timer has run. If a process is due when the alarm comes, it
  and the others due at the same time go to the back of the queue, in the order of the
  input; otherwise the time is a multiple of 500 time units, the time slice, and the front goes to the back.
\<close>

theorem rr_alarms_on_time:
  assumes "os_ok os" "0 < getpid os" "wf_table ps" "clock_ok t0 t1" "1000 \<le> nanos t1 - nanos t0"
    "\<forall>p \<in> set ps. arrival_time p mod 500 = 0 \<longrightarrow> arrival_time p = 0"
    "main_init os (show_input RR ps) t0 t1 junk = Inr g0" "timed os g0 E g" "pending g = {SIGALRM}"
    "u = (nanos t1 - nanos t0) div 1000"
  shows "\<exists>g'. loop_iteration os [SIGALRM] g = Inr (False, g') \<and>
    (if arrival_ptr g < length ps \<and> E = u * arrival_time (ps ! arrival_ptr g)
     then arrival_ptr g < arrival_ptr g' \<and> queue_of g' = queue_of g @ [arrival_ptr g..<arrival_ptr g']
     else E mod (u * 500) = 0 \<and> arrival_ptr g' = arrival_ptr g \<and> queue_of g' = rotate1 (queue_of g))"
proof -
  have n: "no_tie (map arrival_time ps)" "UNIT_MEASURE_REPEAT \<le> nanos t1 - nanos t0"
    using assms(5,6) by (simp_all add: no_tie_def RR_TIMES_OF_UNIT_def UNIT_MEASURE_REPEAT_def)
  note init = rr_init_on_time [OF assms(1-4) n(2,1) assms(7)]
  note r = timed_reachable [OF assms(8)]
  have g: "rr_punct.on_time os g E" "nanos (time_unit (timer_info g)) = u"
    using rr_punct.on_time_timed [OF assms(8) init(1)] init(2) assms(10) by (simp_all add: UNIT_MEASURE_REPEAT_def)
  have at: "arrival_times g = map arrival_time ps"
    using table_data_cong(3) [OF reachable_table [OF r]] init(3) by simp
  have inv: "rr_sys_inv os g" using rr_reachable_inv [OF r rr_initD(1) [OF assms(1-4,7)]] .
  have "\<not> arrival_queue_empty g \<longleftrightarrow> arrival_ptr g < length ps"
    using table_inv_queue [OF rr_baseD(3), of os g] inv rr_sys_inv_arrived [OF inv] map_eq_imp_length_eq [OF at]
    by (auto simp: rr_sys_inv_def)
  then have e: "\<not> arrival_queue_empty g \<and> E = u * arrival_times g ! arrival_ptr g \<longleftrightarrow>
      arrival_ptr g < length ps \<and> E = u * arrival_time (ps ! arrival_ptr g)" by (auto simp: at)
  show ?thesis using rr_alarm_on_time [OF g(1) assms(9)] unfolding g(2) e by metis
qed

theorem rr_alarms_on_time_witness:
  "\<exists>g'. timed ex_os ex_g0 850000000 (fired ex_g1) \<and> loop_iteration ex_os [SIGALRM] (fired ex_g1) = Inr (False, g') \<and>
     queue_of g' = [1, 0]"
proof -
  have g1: "pending (fired ex_g1) = {SIGALRM}" "arrival_ptr (fired ex_g1) = 2" "queue_of (fired ex_g1) = [0, 1]"
    using ex_states(2) by (simp_all add: at_g1_def ready_def fired_def)
  have "1000 \<le> nanos ex_t1 - nanos ts_zero" "\<forall>p \<in> set ex_table. arrival_time p mod 500 = 0 \<longrightarrow> arrival_time p = 0"
    by (simp_all add: ex_t1_def nanos_def BILLION_def ex_table_def ex_entry_def)
  from rr_alarms_on_time [OF ex_os_ok(1,2) ex_table_ok ex_clock_ok this ex_turns(1) ex_timed(2) g1(1) refl]
  show ?thesis using ex_timed(2) g1(2,3) by (auto simp: ex_table_def)
qed

section \<open>The whole program under FIFO and SJF\<close>

text \<open>
  C9. Under FIFO, too, the initialisation succeeds on every well-formed input and no turn of the
  event loop fails in any reachable state; the loop is left exactly when every process has arrived
  and the counter of the scheduler is zero; and, if the measured time unit is not zero, the program
  can come to its end from every reachable state.
\<close>

theorem fifo_program_never_fails:
  assumes "os_ok os" "0 < getpid os" "wf_table ps" "clock_ok t0 t1"
  shows "\<exists>g0. main_init os (show_input FIFO ps) t0 t1 junk = Inr g0 \<and>
    (\<forall>g sig. reachable os g0 g \<and> pending g = {sig} \<longrightarrow>
      (\<exists>b g'. loop_iteration os [sig] g = Inr (b, g') \<and>
        (b \<longleftrightarrow> arrival_queue_empty g' \<and> fifo_of g' = 0))) \<and>
    (1000 \<le> nanos t1 - nanos t0 \<longrightarrow> (\<forall>g. reachable os g0 g \<longrightarrow>
      (\<exists>h sig g'. reachable os g h \<and> pending h = {sig} \<and> loop_iteration os [sig] h = Inr (True, g'))))"
proof -
  obtain g0 where g0: "main_init os (show_input FIFO ps) t0 t1 junk = Inr g0" "fifo_sys.sys_inv os g0"
    using fifo_init [OF assms] by blast
  have "\<exists>b g'. loop_iteration os [sig] g = Inr (b, g') \<and> (b \<longleftrightarrow> arrival_queue_empty g' \<and> fifo_of g' = 0)"
    if "reachable os g0 g" "pending g = {sig}" for g sig
    using fifo_sys.turn_ok [OF fifo_sys.reachable_inv [OF that(1) g0(2)] that(2)] by blast
  moreover have "can_finish os g" if "1000 \<le> nanos t1 - nanos t0" "reachable os g0 g" for g
    using fifo_fin.live_finish [OF fifo_fin.live_reachable [OF that(2) fifo_init_live [OF assms _ g0(1)]]] that(1)
    by (simp add: UNIT_MEASURE_REPEAT_def)
  ultimately show ?thesis using g0(1) unfolding can_finish_def by metis
qed

theorem fifo_program_never_fails_witness:
  "\<exists>g0 g. main_init ex_os (show_input FIFO ex_table) ts_zero ex_t1 ex_junk = Inr g0 \<and>
     reachable ex_os g0 g \<and> pending g = {SIGCHLD} \<and> (\<exists>b g'. loop_iteration ex_os [SIGCHLD] g = Inr (b, g')) \<and>
     (\<exists>h sig g'. reachable ex_os g h \<and> pending h = {sig} \<and> loop_iteration ex_os [sig] h = Inr (True, g'))"
proof (rule two_exitsE [OF ex_fifo_run])
  fix g0 g1 g3 g5
  assume "main_init ex_os (show_input FIFO ex_table) ts_zero ex_t1 ex_junk = Inr g0"
    "reachable ex_os g0 (exit_of 1 g3)" "pending (exit_of 1 g3) = {SIGCHLD}"
  moreover have "1000 \<le> nanos ex_t1 - nanos ts_zero" by (simp add: ex_t1_def nanos_def BILLION_def)
  ultimately show ?thesis
    using fifo_program_never_fails [OF ex_os_ok(1,2) ex_table_ok ex_clock_ok, of ex_junk]
    by (metis Inr_inject)
qed

text \<open>
  C10. Under FIFO every arrived child that has not terminated has the running priority, in every
  reachable state, and the counter of the scheduler is the number of those children plus the one
  whose termination is pending.
\<close>

theorem fifo_program_counts:
  assumes "os_ok os" "0 < getpid os" "wf_table ps" "clock_ok t0 t1"
    "main_init os (show_input FIFO ps) t0 t1 junk = Inr g0" "reachable os g0 g"
  shows "fifo_of g = int (card {i. i < arrival_ptr g \<and> prio_of (world_of g) i \<noteq> None}) + (if chld_pending g then 1 else 0) \<and>
     (\<forall>i < length (procs (world_of g)). prio_of (world_of g) i \<in> {None, Some (run_prio os)})"
proof -
  have inv: "fifo_sys.sys_inv os g"
    using fifo_sys.reachable_inv [OF assms(6) fifo_initD(1) [OF assms(1-5)]] .
  then have "fifo_base os (if chld_pending g then 1 else 0) g"
    by (auto simp: fifo_sys.sys_inv_def fifo_exited_def split: if_splits)
  then show ?thesis by (auto simp: fifo_base_def fifo_live_def)
qed

theorem fifo_program_counts_witness:
  "\<exists>g0 g. main_init ex_os (show_input FIFO ex_table) ts_zero ex_t1 ex_junk = Inr g0 \<and> reachable ex_os g0 g \<and>
     fifo_of g = int (card {i. i < arrival_ptr g \<and> prio_of (world_of g) i \<noteq> None})"
proof (rule two_exitsE [OF ex_fifo_run])
  fix g0 g1 g3 g5
  assume g: "main_init ex_os (show_input FIFO ex_table) ts_zero ex_t1 ex_junk = Inr g0"
    "reachable ex_os g0 g1" "ready g1"
  from fifo_program_counts [OF ex_os_ok(1,2) ex_table_ok ex_clock_ok g(1,2)] g show ?thesis
    by (auto simp: ready_def)
qed

text \<open>
  C11. Under SJF the initialisation succeeds on every well-formed input of at most \<open>2 ^ 30\<close> processes,
  and a turn of the event loop in a reachable state fails in one situation only, and always there:
  a child has terminated, no job is waiting, and another process is still to arrive. From every
  reachable state without a pending termination the program can come to its end, if the measured
  time unit is not zero.
\<close>

theorem sjf_program_fails_iff_idle:
  assumes "os_ok os" "0 < getpid os" "wf_table ps" "length ps \<le> 1073741824" "clock_ok t0 t1"
  shows "\<exists>g0. main_init os (show_input SJF ps) t0 t1 junk = Inr g0 \<and>
    (\<forall>g sig. reachable os g0 g \<and> pending g = {sig} \<longrightarrow>
      ((\<exists>e. loop_iteration os [sig] g = Inl e) \<longleftrightarrow>
        sig = SIGCHLD \<and> heap_list (inactive_heap (sjf_of g)) = [] \<and> \<not> arrival_queue_empty g)) \<and>
    (1000 \<le> nanos t1 - nanos t0 \<longrightarrow> (\<forall>g. reachable os g0 g \<and> \<not> chld_pending g \<longrightarrow>
      (\<exists>h sig g'. reachable os g h \<and> pending h = {sig} \<and> loop_iteration os [sig] h = Inr (True, g'))))"
proof -
  obtain g0 where g0: "main_init os (show_input SJF ps) t0 t1 junk = Inr g0" "sjf_sys.sys_inv os g0"
    using sjf_init [OF assms] by blast
  moreover have "can_finish os g" if "1000 \<le> nanos t1 - nanos t0" "reachable os g0 g" "\<not> chld_pending g" for g
    using sjf_fin.live_finish [OF sjf_fin.live_reachable [OF that(2) sjf_init_live [OF assms _ g0(1)]]] that(1,3)
    by (simp add: UNIT_MEASURE_REPEAT_def)
  moreover have "(\<exists>e. loop_iteration os [sig] g = Inl e) \<longleftrightarrow>
      sig = SIGCHLD \<and> heap_list (inactive_heap (sjf_of g)) = [] \<and> \<not> arrival_queue_empty g"
    if "reachable os g0 g" "pending g = {sig}" for g sig
    using sjf_turn_fails_iff [OF sjf_sys.reachable_inv [OF that(1) g0(2)] that(2)] .
  ultimately show ?thesis unfolding can_finish_def by metis
qed

theorem sjf_program_fails_iff_idle_witness:
  "\<exists>g0 g e. main_init ex_os (show_input SJF ex_tie) ts_zero ex_t1 ex_junk = Inr g0 \<and> reachable ex_os g0 g \<and>
     pending g = {SIGCHLD} \<and> loop_iteration ex_os [SIGCHLD] g = Inl e"
proof (rule idle_gapE [OF ex_gap])
  fix g0 g
  assume g: "main_init ex_os (show_input SJF ex_tie) ts_zero ex_t1 ex_junk = Inr g0" "reachable ex_os g0 g"
    "pending g = {SIGCHLD}" "heap_list (inactive_heap (sjf_of g)) = []" "\<not> arrival_queue_empty g"
  have "length ex_tie \<le> 1073741824" by (simp add: ex_tie_def)
  from sjf_program_fails_iff_idle [OF ex_os_ok(1,2) ex_tie_ok this ex_clock_ok, of ex_junk] g
  show ?thesis by (metis Inr_inject)
qed

text \<open>
  C12. In every reachable state under SJF without a pending termination the active job is the only
  child with the running priority, every waiting job has the lowest, no other child exists, and a
  job is active whenever there is one.
\<close>

theorem sjf_program_one_runs:
  assumes "os_ok os" "0 < getpid os" "wf_table ps" "length ps \<le> 1073741824" "clock_ok t0 t1"
    "main_init os (show_input SJF ps) t0 t1 junk = Inr g0" "reachable os g0 g" "\<not> chld_pending g"
  shows "(\<forall>i < length (procs (world_of g)). prio_of (world_of g) i =
       (if sjf_active (sjf_of g) = At i then Some (run_prio os)
        else if i \<in> set (heap_list (inactive_heap (sjf_of g))) then Some (low_prio os) else None)) \<and>
     (sjf_active (sjf_of g) = Null \<longrightarrow> heap_list (inactive_heap (sjf_of g)) = [])"
proof -
  have "sjf_sys.sys_inv os g" using sjf_sys.reachable_inv [OF assms(7) sjf_initD(1) [OF assms(1-6)]] .
  then have "sjf_ran os g" using assms(8) by (simp add: sjf_sys.sys_inv_def)
  then show ?thesis
    by (cases "sjf_active (sjf_of g)")
      (auto simp: sjf_ran_def sjf_sinv_def sjf_base_def sjf_settled_def sjf_quiet_def sjf_jobs_def active_list_def)
qed

theorem sjf_program_one_runs_witness:
  "\<exists>g0 g. main_init ex_os (show_input SJF ex_table) ts_zero ex_t1 ex_junk = Inr g0 \<and> reachable ex_os g0 g \<and>
     (sjf_active (sjf_of g) = Null \<longrightarrow> heap_list (inactive_heap (sjf_of g)) = [])"
proof (rule two_exitsE [OF ex_sjf_run])
  fix g0 g1 g3 g5
  assume g: "main_init ex_os (show_input SJF ex_table) ts_zero ex_t1 ex_junk = Inr g0"
    "reachable ex_os g0 g1" "ready g1"
  have "length ex_table \<le> 1073741824" "\<not> chld_pending g1" using g(3) by (simp_all add: ex_table_def ready_def)
  with sjf_program_one_runs [OF ex_os_ok(1,2) ex_table_ok _ ex_clock_ok g(1,2)] g show ?thesis by blast
qed

text \<open>
  C13. When the loop is left under FIFO or SJF, every process of the input has been forked, has
  terminated and has been reaped, and its name and pid are printed in the order of the input.
\<close>

theorem fifo_sjf_program_ends:
  assumes "os_ok os" "0 < getpid os" "wf_table ps" "length ps \<le> 1073741824" "clock_ok t0 t1"
    "st \<in> {FIFO, SJF}" "main_init os (show_input st ps) t0 t1 junk = Inr g0" "reachable os g0 g"
    "pending g = {sig}" "loop_iteration os [sig] g = Inr (True, g')"
  shows "main_output g' = zip (map name ps) (map (fork os) [0..<length ps]) \<and>
     (\<forall>i < length ps. prio_of (world_of g') i = None) \<and> zombies (world_of g') = []"
proof -
  have "arrival_queue_empty g' \<and> table_inv os g' \<and> zombies (world_of g') = [] \<and>
      (\<forall>i < length (procs (world_of g')). prio_of (world_of g') i = None) \<and>
      map name (procs (world_of g0)) = map name ps"
  proof (cases "st = FIFO")
    case True
    note init = fifo_initD [OF assms(1-3,5) assms(7) [unfolded True]]
    have "fifo_base os 0 g' \<and> zombies (world_of g') = [] \<and> arrival_queue_empty g' \<and> fifo_of g' = 0"
      using fifo_sys.last_turn [OF fifo_sys.reachable_inv [OF assms(8) init(1)] assms(9,10)] .
    then show ?thesis using fifo_finished fifo_baseD(3) init(2) by blast
  next
    case False
    then have "st = SJF" using assms(6) by simp
    note init = sjf_initD [OF assms(1-5) assms(7) [unfolded this]]
    have "sjf_ran os g' \<and> zombies (world_of g') = [] \<and> arrival_queue_empty g' \<and> mset (sjf_jobs (sjf_of g')) = {#}"
      using sjf_sys.last_turn [OF sjf_sys.reachable_inv [OF assms(8) init(1)] assms(9,10)] .
    then show ?thesis using sjf_finished init(2) by (auto simp: sjf_ran_def sjf_sinv_def sjf_base_def)
  qed
  moreover from this have "map name (procs (world_of g')) = map name ps"
    using table_data_cong(1) [OF loop_iteration_table [OF assms(10)]]
      table_data_cong(1) [OF reachable_table [OF assms(8)]] by simp
  moreover from this have "length (procs (world_of g')) = length ps" by (metis length_map)
  ultimately show ?thesis using table_output [of os g'] by simp
qed

theorem fifo_sjf_program_ends_witness:
  "\<exists>g g'. loop_iteration ex_os [SIGCHLD] g = Inr (True, g') \<and> main_output g' = [(''P1'', 1000), (''P2'', 1001)] \<and>
     current_strategy g = SJF"
proof (rule two_exitsE [OF ex_sjf_run])
  fix g0 g1 g3 g5
  assume g: "main_init ex_os (show_input SJF ex_table) ts_zero ex_t1 ex_junk = Inr g0"
    "reachable ex_os g0 (exit_of 0 g3)" "pending (exit_of 0 g3) = {SIGCHLD}"
    "loop_iteration ex_os [SIGCHLD] (exit_of 0 g3) = Inr (True, g5)"
  have l: "length ex_table \<le> 1073741824" "SJF \<in> {FIFO, SJF}" by (simp_all add: ex_table_def)
  have "sjf_sys.sys_inv ex_os (exit_of 0 g3)"
    using sjf_sys.reachable_inv [OF g(2) sjf_initD(1) [OF ex_os_ok(1,2) ex_table_ok l(1) ex_clock_ok g(1)]] .
  then have "current_strategy (exit_of 0 g3) = SJF"
    using g(3) by (simp add: sjf_sys.sys_inv_def sjf_exited_def sjf_base_def)
  moreover have "main_output g5 = [(''P1'', 1000), (''P2'', 1001)]"
    using fifo_sjf_program_ends [OF ex_os_ok(1,2) ex_table_ok l(1) ex_clock_ok l(2) g]
    by (simp add: ex_table_def ex_entry_def ex_os_def upt_rec)
  ultimately show ?thesis using g(4) by blast
qed

text \<open>
  C14. Under FIFO and SJF the program terminates: no run from the start, whatever the times at which
  the timer fires and the children terminate, has more than four steps per process, and it stops
  nowhere but in a wake-up that leaves the loop or, under SJF only, fails.
\<close>

theorem fifo_sjf_terminates:
  assumes "os_ok os" "0 < getpid os" "wf_table ps" "length ps \<le> 1073741824" "clock_ok t0 t1"
    "UNIT_MEASURE_REPEAT \<le> nanos t1 - nanos t0" "st \<in> {FIFO, SJF}"
    "main_init os (show_input st ps) t0 t1 junk = Inr g0"
  shows "(\<forall>f k. f 0 = g0 \<and> (\<forall>i < k. step os (f i) (f (Suc i))) \<longrightarrow> k \<le> 4 * length ps) \<and>
    (\<forall>g. reachable os g0 g \<and> (\<nexists>g'. step os g g') \<longrightarrow> (\<exists>sig. pending g = {sig} \<and>
       ((\<exists>g'. loop_iteration os [sig] g = Inr (True, g')) \<or> st = SJF \<and> (\<exists>e. loop_iteration os [sig] g = Inl e))))"
proof (cases "st = FIFO")
  case True
  note m = assms(8) [unfolded True]
  note live = fifo_init_live [OF assms(1-3,5,6) m]
  have "k \<le> 4 * length ps" if "f 0 = g0" "\<forall>i < k. step os (f i) (f (Suc i))" for f k
    using fifo_fin.run_bound [of os f k] fifo_initD(1) [OF assms(1-3,5) m] fifo_init_steps [OF assms(1-3,5) m] that
    by simp
  then show ?thesis using fifo_fin.live_progress [OF fifo_fin.live_reachable [OF _ live]] by blast
next
  case False
  then have st: "st = SJF" using assms(7) by simp
  note m = assms(8) [unfolded st]
  note live = sjf_init_live [OF assms(1-6) m]
  have "k \<le> 4 * length ps" if "f 0 = g0" "\<forall>i < k. step os (f i) (f (Suc i))" for f k
    using sjf_fin.run_bound [of os f k] sjf_initD(1) [OF assms(1-5) m] sjf_init_steps [OF assms(1-5) m] that
    by simp
  then show ?thesis using sjf_fin.live_progress [OF sjf_fin.live_reachable [OF _ live]] st by blast
qed

theorem fifo_sjf_terminates_witness:
  "\<exists>g0. main_init ex_os (show_input FIFO ex_table) ts_zero ex_t1 ex_junk = Inr g0 \<and>
     (\<forall>f k. f 0 = g0 \<and> (\<forall>i < k. step ex_os (f i) (f (Suc i))) \<longrightarrow> k \<le> 8)"
proof -
  obtain g0 where g0: "main_init ex_os (show_input FIFO ex_table) ts_zero ex_t1 ex_junk = Inr g0"
    using fifo_init [OF ex_os_ok(1,2) ex_table_ok ex_clock_ok] by blast
  have l: "length ex_table \<le> 1073741824" "FIFO \<in> {FIFO, SJF}" "length ex_table = 2"
    "UNIT_MEASURE_REPEAT \<le> nanos ex_t1 - nanos ts_zero"
    by (simp_all add: ex_table_def ex_t1_def nanos_def BILLION_def UNIT_MEASURE_REPEAT_def)
  show ?thesis using fifo_sjf_terminates [OF ex_os_ok(1,2) ex_table_ok l(1) ex_clock_ok l(4,2) g0] g0 l(3) by auto
qed

section \<open>The whole program under every strategy\<close>

text \<open>
  C15. The processes arrive on time, under every strategy but PSJF. Measure a run by the time its timer has
  run. Whenever no alarm is waiting to be handled, exactly those processes have been forked
  whose arrival time, in measured time units, has been reached. Under RR this is so for
  inputs in which no process arrives at the end of a time slice.
\<close>

theorem arrivals_on_time:
  assumes "os_ok os" "0 < getpid os" "wf_table ps" "length ps \<le> 1073741824" "clock_ok t0 t1"
    "1000 \<le> nanos t1 - nanos t0" "st \<noteq> PSJF"
    "st = RR \<longrightarrow> (\<forall>p \<in> set ps. arrival_time p mod 500 = 0 \<longrightarrow> arrival_time p = 0)"
    "main_init os (show_input st ps) t0 t1 junk = Inr g0" "timed os g0 E g" "\<not> alrm_pending g" "i < length ps"
  shows "(i < arrival_ptr g \<longleftrightarrow> (nanos t1 - nanos t0) div 1000 * arrival_time (ps ! i) \<le> E) \<and>
     pid (procs (world_of g) ! i) =
       (if (nanos t1 - nanos t0) div 1000 * arrival_time (ps ! i) \<le> E then fork os i else 0)"
proof -
  have n: "UNIT_MEASURE_REPEAT \<le> nanos t1 - nanos t0" using assms(6) by (simp add: UNIT_MEASURE_REPEAT_def)
  note m = assms(9) and t = assms(10-12)
  show ?thesis
  proof (cases st)
    case RR
    then have nt: "no_tie (map arrival_time ps)" using assms(8) by (simp add: no_tie_def RR_TIMES_OF_UNIT_def)
    note init = rr_init_on_time [OF assms(1-3,5) n nt m [unfolded RR]]
    from rr_punct.forked_on_time [OF init(1,3) t] init(2) show ?thesis by (simp add: UNIT_MEASURE_REPEAT_def)
  next
    case FIFO
    note c = main_init_clock [OF assms(1-3,5) _ n m [unfolded FIFO], simplified]
    from fifo_sys.prompt.forked_on_time [OF fifo_init_on_time [OF assms(1-3,5) n m [unfolded FIFO]] c(5) t] c(6)
    show ?thesis by (simp add: UNIT_MEASURE_REPEAT_def)
  next
    case SJF
    note c = main_init_clock [OF assms(1-3,5) _ n m [unfolded SJF], simplified]
    from sjf_sys.prompt.forked_on_time [OF sjf_init_on_time [OF assms(1-5) n m [unfolded SJF]] c(5) t] c(6)
    show ?thesis by (simp add: UNIT_MEASURE_REPEAT_def)
  qed (use assms(7) in simp)
qed

theorem arrivals_on_time_witness:
  "timed ex_os ex_g0 0 ex_g1 \<and> pid (procs (world_of ex_g1) ! 1) = 1001"
proof -
  have "\<not> alrm_pending ex_g1" using ex_states(2) by (simp add: at_g1_def ready_def)
  from arrivals_on_time [OF ex_os_ok(1,2) ex_table_ok _ ex_clock_ok _ _ _ ex_turns(1) ex_timed(1) this, of 1] ex_timed(1)
  show ?thesis by (simp add: ex_table_def ex_entry_def ex_t1_def nanos_def BILLION_def ex_os_def)
qed

text \<open>
  C16. When the programs end. Let every child that runs work off its execution time, and let time pass only
  while no signal is pending. If no process arrives after those before it could have terminated, then
  whatever the order of what happens at the same time, no run goes on forever, no turn fails, and every run comes to a
  turn that leaves the loop, when the arrival time of the first process and
  the sum of all execution times, in measured time units, have passed: the processor is never idle
  in between. Under RR no process may be due at the end of a time slice, and under SJF every group of
  arrivals has to come before the others have terminated.
\<close>

theorem programs_end_on_time:
  assumes "os_ok os" "0 < getpid os" "wf_table ps" "length ps \<le> 1073741824" "clock_ok t0 t1"
    "1000 \<le> nanos t1 - nanos t0"
    "st = FIFO \<and> no_gap ps \<or> st = SJF \<and> overlapping ps \<or>
     st = RR \<and> no_gap ps \<and> (\<forall>p \<in> set ps. arrival_time p mod 500 = 0 \<longrightarrow> arrival_time p = 0)"
    "main_init os (show_input st ps) t0 t1 junk = Inr g0"
  shows "ends_at os g0 ((nanos t1 - nanos t0) div 1000 * busy_end ps (length ps))"
proof -
  have n: "UNIT_MEASURE_REPEAT \<le> nanos t1 - nanos t0" using assms(6) by (simp add: UNIT_MEASURE_REPEAT_def)
  have u: "(nanos t1 - nanos t0) div 1000 = (nanos t1 - nanos t0) div UNIT_MEASURE_REPEAT"
    by (simp add: UNIT_MEASURE_REPEAT_def)
  show ?thesis
  proof (cases st)
    case FIFO
    then show ?thesis unfolding u using fifo_ends_at [OF assms(1-3,5) n] assms(7,8) by simp
  next
    case SJF
    then show ?thesis unfolding u using sjf_ends_at [OF assms(1-5) n] assms(7,8) by simp
  next
    case RR
    then have "no_tie (map arrival_time ps)" using assms(7) by (simp add: no_tie_def RR_TIMES_OF_UNIT_def)
    then show ?thesis unfolding u using rr_ends_at [OF assms(1-3,5) n] assms(7,8) RR by simp
  qed (use assms(7) in simp)
qed

theorem programs_end_on_time_witness:
  "main_init ex_os (show_input RR ex_table) ts_zero ex_t1 ex_junk = Inr ex_g0 \<and>
   (\<nexists>f. f 0 = start_of ex_g0 \<and> (\<forall>n. pace ex_os (f n) (f (Suc n)))) \<and>
   (\<exists>r d g sig g'. paced ex_os ex_g0 8500000 r d g \<and> pending g = {sig} \<and> loop_iteration ex_os [sig] g = Inr (True, g'))"
proof -
  have "length ex_table \<le> 1073741824" "1000 \<le> nanos ex_t1 - nanos ts_zero" "no_gap ex_table"
    "\<forall>p \<in> set ex_table. arrival_time p mod 500 = 0 \<longrightarrow> arrival_time p = 0"
    by (simp_all add: ex_table_def ex_entry_def ex_t1_def nanos_def BILLION_def no_gap_def busy_end_def demand_def)
  with programs_end_on_time [OF ex_os_ok(1,2) ex_table_ok _ ex_clock_ok _ _ ex_turns(1)]
  have "ends_at ex_os ex_g0 ((nanos ex_t1 - nanos ts_zero) div 1000 * busy_end ex_table (length ex_table))" by blast
  moreover have "(nanos ex_t1 - nanos ts_zero) div 1000 * busy_end ex_table (length ex_table) = 8500000"
    by (simp add: ex_table_def ex_entry_def ex_t1_def nanos_def BILLION_def busy_end_def demand_def)
  ultimately have e: "ends_at ex_os ex_g0 8500000" by simp
  then have "\<nexists>f. f 0 = start_of ex_g0 \<and> (\<forall>n. pace ex_os (f n) (f (Suc n)))" unfolding ends_at_def by blast
  with ends_at_reached [OF e] ex_turns(1) show ?thesis by metis
qed

text \<open>
  C17. Under SJF a gap in the input is fatal: if all the processes before the one with index \<open>k\<close> have
  terminated before it is due, then it never arrives, and the loop is never left.
\<close>

theorem sjf_gap_never_ends:
  assumes "os_ok os" "0 < getpid os" "wf_table ps" "length ps \<le> 1073741824" "clock_ok t0 t1"
    "1000 \<le> nanos t1 - nanos t0" "main_init os (show_input SJF ps) t0 t1 junk = Inr g0"
    "k < length ps" "busy_end ps k < arrival_time (ps ! k)" "paced os g0 t r d g"
  shows "arrival_ptr g \<le> k \<and> (\<forall>sig g'. pending g = {sig} \<longrightarrow> loop_iteration os [sig] g \<noteq> Inr (True, g'))"
proof -
  have "UNIT_MEASURE_REPEAT \<le> nanos t1 - nanos t0" using assms(6) by (simp add: UNIT_MEASURE_REPEAT_def)
  from sjf_gap [OF assms(1-5) this assms(7-10)] show ?thesis by blast
qed

theorem sjf_gap_never_ends_witness:
  "\<exists>g0 t r d g. main_init ex_os (show_input SJF ex_apart) ts_zero ex_t1 ex_junk = Inr g0 \<and>
     paced ex_os g0 t r d g \<and> arrival_ptr g = 1 \<and> \<not> arrival_queue_empty g \<and>
     (\<forall>sig g'. pending g = {sig} \<longrightarrow> loop_iteration ex_os [sig] g \<noteq> Inr (True, g'))"
proof -
  obtain g0 g where g: "main_init ex_os (show_input SJF ex_apart) ts_zero ex_t1 ex_junk = Inr g0"
    "pending g0 = {SIGALRM}" "loop_iteration ex_os [SIGALRM] g0 = Inr (False, g)" "arrival_ptr g = 1" "\<not> arrival_queue_empty g"
    using ex_apart_run by (auto simp: yields_iff)
  obtain d where p: "paced ex_os g0 0 0 d g" using paced_turns [OF paced_start [OF start_of_def] g(2,3)] by auto
  have "length ex_apart \<le> 1073741824" "1000 \<le> nanos ex_t1 - nanos ts_zero" "1 < length ex_apart"
    "busy_end ex_apart 1 < arrival_time (ex_apart ! 1)"
    by (simp_all add: ex_apart_def ex_entry_def ex_t1_def nanos_def BILLION_def busy_end_def demand_def)
  from sjf_gap_never_ends [OF ex_os_ok(1,2) ex_apart_ok this(1) ex_clock_ok this(2) g(1) this(3,4) p] g p
  show ?thesis by blast
qed

text \<open>
  C18. The test inputs of the repository. On each of the fourteen files for FIFO, RR and SJF the program
  comes to its end without error, in the sense of \<open>ends_at\<close>, at the time that \<open>test_inputs\<close> gives; on each
  of the five for PSJF the initialisation succeeds and every turn of the loop that can be reached fails.
\<close>

theorem test_inputs_end:
  assumes "os_ok os" "0 < getpid os" "clock_ok t0 t1" "1000 \<le> nanos t1 - nanos t0"
  shows "(\<forall>(input, e) \<in> set test_inputs. \<exists>g0. main_init os input t0 t1 junk = Inr g0 \<and>
      ends_at os g0 ((nanos t1 - nanos t0) div 1000 * e)) \<and>
    (\<forall>input \<in> set psjf_inputs. \<exists>g0. main_init os input t0 t1 junk = Inr g0 \<and>
      (\<forall>g sig. reachable os g0 g \<and> pending g = {sig} \<longrightarrow> (\<exists>e. loop_iteration os [sig] g = Inl e)))"
proof (intro conjI ballI)
  fix i assume "i \<in> set test_inputs"
  moreover obtain input e where i: "i = (input, e)" by (cases i)
  ultimately have busy: "busy_input input e" using test_inputs_busy by simp
  have "UNIT_MEASURE_REPEAT \<le> nanos t1 - nanos t0" using assms(4) by (simp add: UNIT_MEASURE_REPEAT_def)
  from busy_input_ends [OF assms(1-3) this busy] show "case i of (input, e) \<Rightarrow>
      \<exists>g0. main_init os input t0 t1 junk = Inr g0 \<and> ends_at os g0 ((nanos t1 - nanos t0) div 1000 * e)"
    by (simp add: i UNIT_MEASURE_REPEAT_def)
next
  fix input assume "input \<in> set psjf_inputs"
  then obtain ps where ps: "input_table input = Inr (PSJF, ps)" "wf_table ps" by (rule psjf_inputs_read)
  show "\<exists>g0. main_init os input t0 t1 junk = Inr g0 \<and>
      (\<forall>g sig. reachable os g0 g \<and> pending g = {sig} \<longrightarrow> (\<exists>e. loop_iteration os [sig] g = Inl e))"
    by (rule psjf_input_fails [OF assms(1-3) ps])
qed

theorem test_inputs_end_witness:
  "\<exists>g0. main_init ex_os RR_3_txt ts_zero ex_t1 ex_junk = Inr g0 \<and> ends_at ex_os g0 53040000000"
proof -
  have "1000 \<le> nanos ex_t1 - nanos ts_zero" "(nanos ex_t1 - nanos ts_zero) div 1000 = 1700000"
    by (simp_all add: ex_t1_def nanos_def BILLION_def)
  moreover have "(RR_3_txt, 31200) \<in> set test_inputs" unfolding test_inputs_def list.set insert_iff by blast
  ultimately show ?thesis
    using test_inputs_end [OF ex_os_ok(1,2) ex_clock_ok, of ex_junk] by fastforce
qed

text \<open>
  C19. What the data structures of the program hold in every reachable state, under every strategy but PSJF:
  the table has the entries of the input, and the pids of exactly the first \<open>arrival_ptr\<close> of them, in
  order; the remaining time until the next arrival, and under RR that of the slice, is a normalised
  duration; the counter of FIFO is between zero and the number of arrived processes; the array of RR is filled without
  a hole up to its count, with both indices within it; the array of SJF is a heap by remaining time. No process
  is queued twice, and none before it has arrived.
\<close>

theorem state_well_formed:
  assumes "os_ok os" "0 < getpid os" "wf_table ps" "length ps \<le> 1073741824" "clock_ok t0 t1" "st \<noteq> PSJF"
    "main_init os (show_input st ps) t0 t1 junk = Inr g0" "reachable os g0 g"
  shows "table_data (world_of g) = map (\<lambda>p. (name p, arrival_time p, time_needed p)) ps \<and>
     num_process g = int (length ps) \<and> arrival_ptr g \<le> length ps \<and>
     map pid (procs (world_of g)) = map (fork os) [0..<arrival_ptr g] @ replicate (length ps - arrival_ptr g) 0 \<and>
     duration (arrival_remaining (timer_info g)) \<and>
     (st = FIFO \<longrightarrow> 0 \<le> fifo_of g \<and> fifo_of g \<le> int (arrival_ptr g)) \<and>
     (st = RR \<longrightarrow> duration (timeslice_remaining (timer_info g)) \<and> rr_inv (rr_of g) \<and>
        length (rr_pq (rr_of g)) = length ps \<and> distinct (queue_of g) \<and> set (queue_of g) \<subseteq> {..<arrival_ptr g}) \<and>
     (st = SJF \<longrightarrow> heap_inv (world_of g) (inactive_heap (sjf_of g)) \<and>
        length (pq (inactive_heap (sjf_of g))) = length ps \<and> distinct (jobs_of g) \<and> set (jobs_of g) \<subseteq> {..<arrival_ptr g})"
proof -
  have ps: "procs (world_of g0) = ps"
    using main_init_procs [OF _ assms(2,3,5,7)] assms(1) by (simp add: os_ok_def)
  have td: "table_data (world_of g) = map (\<lambda>p. (name p, arrival_time p, time_needed p)) ps"
    using reachable_table [OF assms(8)] ps by (simp add: table_data_def)
  from map_eq_imp_length_eq [OF this [unfolded table_data_def]] have n: "length (procs (world_of g)) = length ps" .
  have tab: "num_process g = int (length ps)" "arrival_ptr g \<le> length ps"
    "map pid (procs (world_of g)) = map (fork os) [0..<arrival_ptr g] @ replicate (length ps - arrival_ptr g) 0"
    if "table_inv os g"
    using table_pids [OF that] that n by (simp_all add: table_inv_def Let_def)
  show ?thesis
  proof (cases st)
    case FIFO
    then obtain k where "fifo_base os k g"
      using fifo_sys_inv_base fifo_sys.reachable_inv [OF assms(8)] fifo_initD(1) [OF assms(1-3,5)] assms(7) by blast
    with FIFO td tab show ?thesis by (simp add: fifo_base_def arrival_timer_def)
  next
    case RR
    then have "rr_base os g"
      using rr_reachable_inv [OF assms(8)] rr_initD(1) [OF assms(1-3,5)] assms(7) by (simp add: rr_sys_inv_def)
    with RR td tab n pids_ok_distinct [of "world_of g"] show ?thesis by (simp add: rr_base_def timer_inv_def rr_ok_def)
  next
    case SJF
    then have "sjf_base os g"
      using sjf_sys_inv_base sjf_sys.reachable_inv [OF assms(8)] sjf_initD(1) [OF assms(1-5)] assms(7) by blast
    with SJF td tab n pids_ok_distinct [of "world_of g"] show ?thesis
      by (simp add: sjf_base_def arrival_timer_def sjf_inv_def)
  qed (use assms(6) in simp)
qed

theorem state_well_formed_witness:
  "reachable ex_os ex_g0 ex_g3 \<and> map pid (procs (world_of ex_g3)) = [1000, 1001] \<and> rr_inv (rr_of ex_g3) \<and>
   length (rr_pq (rr_of ex_g3)) = 2"
proof -
  have "length ex_table = 2" by (simp add: ex_table_def)
  then show ?thesis
    using state_well_formed [OF ex_os_ok(1,2) ex_table_ok _ ex_clock_ok _ ex_turns(1) ex_reachable(2)]
      ex_states(3) ex_reachable(2) by (simp add: at_g3_def ex_os_def upt_rec)
qed

section \<open>The priority queue\<close>

text \<open>
  C20. The heap sorts: inserting any processes of the table into a fresh heap of sufficient size and
  then taking the top out as often succeeds, and gives the same processes in order of remaining
  time and, where the times are equal, of pid.
\<close>

theorem heap_sorts:
  assumes "int (length xs) \<le> n" "n \<le> 1073741824" "\<forall>i \<in> set xs. i < length (procs w)"
  shows "\<exists>h ys. insert_all heap_insert w (heap_init n) (map At xs) = Inr h \<and>
     drain heap_top heap_pop (length xs) w h = Inr (map At ys) \<and> mset ys = mset xs \<and>
     sorted (map (key_of w) ys)"
proof -
  have inv: "heap_inv w (heap_init n)" "heap_elems (heap_init n) = {#}" "length xs \<le> length (pq (heap_init n))"
    using heap_init_inv [of n w] assms(1,2) by (simp_all add: heap_elems_def heap_init_def)
  have v: "\<forall>p \<in> set (map At xs). valid_ptr w p" using assms(3) by (simp add: valid_ptr_def)
  obtain h ps where h: "insert_all heap_insert w (heap_init n) (map At xs) = Inr h"
    "drain heap_top heap_pop (length xs) w h = Inr ps" "mset ps = mset (map At xs)"
    "sorted (map (ptr_key w) ps)"
    using heap.insert_drain_sorts [OF inv(1,2) v] inv(3) by auto
  obtain ys where ys: "ps = map At ys" "mset ys = mset xs" using mset_map_At [OF h(3)] .
  then have "sorted (map (key_of w) ys)" using h(4) by (simp add: ptr_key_def comp_def)
  with h(1,2) ys show ?thesis by blast
qed

theorem heap_sorts_witness:
  "\<exists>h ys. insert_all heap_insert ex_world (heap_init 3) (map At [0, 1, 2]) = Inr h \<and>
     drain heap_top heap_pop 3 ex_world h = Inr (map At ys) \<and> mset ys = {#0, 1, 2#} \<and>
     sorted (map (key_of ex_world) ys)"
  using heap_sorts [of "[0, 1, 2]" 3 ex_world] by (simp add: ex_world_def numeral_3_eq_3)

text \<open>
  C21. Inserting a process into a heap with a free cell never leaves the array and never reads an
  indeterminate cell; it keeps the heap order, adds exactly that process and keeps the capacity.
\<close>

theorem heap_insert_correct:
  assumes "heap_inv w h" "i < length (procs w)" "length (heap_list h) < length (pq h)"
  shows "\<exists>h'. heap_insert w h (At i) = Inr h' \<and> heap_inv w h' \<and>
     mset (heap_list h') = add_mset i (mset (heap_list h)) \<and> length (pq h') = length (pq h) \<and>
     heap_size_of h' = heap_size_of h + 1"
proof -
  obtain h' where h': "heap_insert w h (At i) = Inr h'" "heap_inv w h'"
    "heap_elems h' = add_mset (At i) (heap_elems h)" "length (pq h') = length (pq h)"
    using heap.insert_ok [OF assms(1), of "At i"] assms(2,3) by (auto simp: valid_ptr_def heap_elems_def)
  have m: "mset (heap_list h') = add_mset i (mset (heap_list h))"
    using heap_list_mset [of h' "i # heap_list h"] h'(3) by (simp add: heap_elems_def)
  then have "length (heap_list h') = Suc (length (heap_list h))" by (metis size_add_mset size_mset)
  then have "heap_size h' = heap_size h + 1"
    using heap_size_list [OF assms(1)] heap_size_list [OF h'(2)] by simp
  with h' m show ?thesis by (auto simp: heap_size_of_def)
qed

theorem heap_insert_correct_witness:
  "\<exists>h'. heap_insert ex_world ex_heap (At 2) = Inr h' \<and> heap_inv ex_world h' \<and>
     mset (heap_list h') = {#0, 1, 2#} \<and> heap_size_of h' = 3"
  using heap_insert_correct [OF ex_heap_inv(1), of 2]
  by (simp add: ex_heap_inv(2)) (auto simp: ex_world_def ex_heap_def heap_size_of_def add_mset_commute)

text \<open>
  C22. On a heap that is not empty the top is a process with the least remaining time, and popping
  removes exactly that process and keeps the heap order, without error.
\<close>

theorem heap_pop_correct:
  assumes "heap_inv w h" "\<not> heap_empty h"
  shows "\<exists>i h'. heap_top h = Inr (At i) \<and> i \<in> set (heap_list h) \<and>
     (\<forall>j \<in> set (heap_list h). key_of w i \<le> key_of w j) \<and>
     heap_pop w h = Inr h' \<and> heap_inv w h' \<and> mset (heap_list h) = add_mset i (mset (heap_list h'))"
proof -
  have ne: "heap_elems h \<noteq> {#}" using heap.is_empty_iff [OF assms(1)] assms(2) by simp
  obtain i where i: "heap_top h = Inr (At i)" "i \<in> set (heap_list h)"
    "\<forall>j \<in> set (heap_list h). key_of w i \<le> key_of w j"
    using heap.top_ok [OF assms(1) ne] by (auto simp: heap_elems_def ptr_key_def)
  obtain h' where h': "heap_pop w h = Inr h'" "heap_inv w h'" "heap_elems h' = heap_elems h - {#At i#}"
    using heap.pop_ok [OF assms(1) ne i(1)] by auto
  have "mset (heap_list h') = mset (heap_list h) - {#i#}"
    using heap_list_mset [of h' "remove1 i (heap_list h)"] h'(3) i(2)
    by (simp add: heap_elems_def image_mset_Diff)
  with i h' show ?thesis by auto
qed

theorem heap_pop_correct_witness:
  "\<exists>i h'. heap_top ex_heap = Inr (At i) \<and> heap_pop ex_world ex_heap = Inr h' \<and> heap_inv ex_world h' \<and>
     {#0, 1#} = add_mset i (mset (heap_list h'))"
  using heap_pop_correct [OF ex_heap_inv(1)] ex_heap_inv(2)
  by (simp add: ex_heap_def heap_empty_def add_mset_commute) blast


section \<open>The schedulers\<close>

text \<open>
  C23. The array of the round-robin scheduler with its two indices implements a queue: an arrival
  appends to the run queue, a termination removes its front and the end of a time slice rotates it;
  none of the three fails, and all keep the representation invariant.
\<close>

theorem rr_implements_queue:
  assumes "rr_inv s"
  shows "(length (rr_queue s) < length (rr_pq s) \<longrightarrow>
       (\<exists>s'. add_process_RR (At i) s = Inr s' \<and> rr_inv s' \<and> rr_queue s' = rr_queue s @ [i])) \<and>
     (rr_queue s \<noteq> [] \<longrightarrow>
       (\<exists>s'. remove_current_process_RR s = Inr s' \<and> rr_inv s' \<and> rr_queue s' = tl (rr_queue s))) \<and>
     (\<exists>s'. timeslice_over_RR s = Inr s' \<and> rr_inv s' \<and> rr_queue s' = rotate1 (rr_queue s)) \<and>
     (scheduler_empty_RR s \<longleftrightarrow> rr_queue s = [])"
proof -
  have "length (rr_queue s) = length (rr_jobs s)" using rr_queue_mset by (metis size_mset)
  then have "length (rr_queue s) < length (rr_pq s) \<longrightarrow>
      (\<exists>s'. add_process_RR (At i) s = Inr s' \<and> rr_inv s' \<and> rr_queue s' = rr_queue s @ [i])"
    using add_process_RR_refines [OF assms, of i] by metis
  moreover have "rr_queue s \<noteq> [] \<longrightarrow>
      (\<exists>s'. remove_current_process_RR s = Inr s' \<and> rr_inv s' \<and> rr_queue s' = tl (rr_queue s))"
    using remove_current_process_RR_refines [OF assms] rr_queue_Nil_iff [OF assms] by metis
  moreover have "\<exists>s'. timeslice_over_RR s = Inr s' \<and> rr_inv s' \<and> rr_queue s' = rotate1 (rr_queue s)"
    using timeslice_over_RR_refines [OF assms] by metis
  ultimately show ?thesis using scheduler_empty_RR_iff [OF assms] by blast
qed

theorem rr_implements_queue_witness:
  "(\<exists>s'. add_process_RR (At 2) ex_rr = Inr s' \<and> rr_queue s' = [1, 0, 2]) \<and>
   (\<exists>s'. remove_current_process_RR ex_rr = Inr s' \<and> rr_queue s' = [0]) \<and>
   (\<exists>s'. timeslice_over_RR ex_rr = Inr s' \<and> rr_queue s' = [0, 1])"
  using rr_implements_queue [OF ex_rr_inv(1), of 2]
  by (simp add: ex_rr_inv(2)) (auto simp: ex_rr_def)

text \<open>
  Round robin is fair: after \<open>k\<close> ends of time slices in a row the process at the front is the
  one that was at position \<open>k\<close>, counted cyclically, so every process has its turn within one round.
\<close>

theorem rr_fair:
  assumes "rr_inv s" "rr_queue s \<noteq> []"
  shows "\<exists>s'. slices k s = Inr s' \<and> hd (rr_queue s') = rr_queue s ! (k mod length (rr_queue s))"
  using slices_rotate [OF assms(1), of k] hd_rotate_conv_nth [OF assms(2), of k] by auto

theorem rr_fair_witness: "\<exists>s'. slices 3 ex_rr = Inr s' \<and> hd (rr_queue s') = 0"
  using rr_fair [OF ex_rr_inv(1), of 3]
  by (simp add: ex_rr_inv(2) numeral_3_eq_3 mod_Suc del: slices.simps)

text \<open>
  A context switch of the round-robin scheduler, in a state where at most the job to be stopped
  still has the running priority, leaves exactly one job with the running priority.
\<close>

theorem rr_switch_one_runs:
  assumes "rr_ok os s w" "rr_ready os s w" "rr_queue s \<noteq> []"
  shows "\<exists>w'. context_switch_RR os s w = Inr w' \<and>
     (\<exists>!j. j \<in> set (rr_queue s) \<and> prio_of w' j = Some (run_prio os))"
  using rr.exactly_one_runs [OF assms(1,2)] assms(3) by (auto simp: keep_Inr_iff)

theorem rr_switch_one_runs_witness:
  "\<exists>w'. context_switch_RR ex_os ex_rr ex_world = Inr w' \<and>
     (\<exists>!j. j \<in> {0, 1} \<and> prio_of w' j = Some 98)"
proof -
  have "rr_ok ex_os ex_rr ex_world"
    using ex_rr_inv ex_pids ex_os_ok(3) by (simp add: rr_ok_def pids_ok_def)
  moreover have "rr_ready ex_os ex_rr ex_world"
    using ex_rr_inv by (simp add: rr_ready_def prio_of_def ex_world_def ex_child_def ex_os_def)
  ultimately show ?thesis
    using rr_switch_one_runs [of ex_os ex_rr ex_world] by (simp add: ex_rr_inv(2) ex_os_def insert_commute)
qed

text \<open>
  C24. When nobody is running, the context switch of the SJF scheduler takes a shortest waiting job
  out of the heap, makes it the active one and gives exactly this job the running priority.
\<close>

theorem sjf_starts_shortest:
  assumes "sjf_ok os s w" "sjf_quiet os s w" "sjf_active s = Null" "heap_list (inactive_heap s) \<noteq> []"
  shows "\<exists>s' w' i. context_switch_SJF os s w = Inr (s', w') \<and> sjf_active s' = At i \<and>
     i \<in> set (heap_list (inactive_heap s)) \<and>
     (\<forall>j \<in> set (heap_list (inactive_heap s)). key_of w i \<le> key_of w j) \<and>
     mset (heap_list (inactive_heap s')) = mset (heap_list (inactive_heap s)) - {#i#} \<and>
     prio_of w' i = Some (run_prio os) \<and>
     (\<forall>j \<in> set (heap_list (inactive_heap s')). prio_of w' j = Some (low_prio os))"
proof -
  have ok: "sjf_inv w s" "sched_ok os" using assms(1) by (simp_all add: sjf_ok_def)
  obtain s' i where s': "context_switch_SJF os s w =
      Inr (s', w\<lparr>prio := (prio w)(pid (procs w ! i) \<mapsto> run_prio os)\<rparr>)" "sjf_active s' = At i"
    "mset (heap_list (inactive_heap s')) = mset (heap_list (inactive_heap s)) - {#i#}"
    "i \<in> set (heap_list (inactive_heap s))"
    "\<forall>j \<in> set (heap_list (inactive_heap s)). key_of w i \<le> key_of w j"
    using context_switch_SJF_starts [OF ok assms(3,4)] by metis
  have "sjf_settled os s' (w\<lparr>prio := (prio w)(pid (procs w ! i) \<mapsto> run_prio os)\<rparr>)"
    using context_switch_SJF_settles [OF ok assms(2,3) s'(1) assms(4)] .
  with s' show ?thesis by (auto simp: sjf_settled_def sjf_quiet_def)
qed

theorem sjf_starts_shortest_witness:
  "\<exists>s' w'. context_switch_SJF ex_os ex_sjf ex_world = Inr (s', w') \<and> sjf_active s' = At 1 \<and>
     prio_of w' 1 = Some 98"
proof -
  have ok: "sjf_ok ex_os ex_sjf ex_world" "sjf_quiet ex_os ex_sjf ex_world" "sjf_active ex_sjf = Null"
    "heap_list (inactive_heap ex_sjf) = [1, 0]"
    using ex_heap_inv ex_os_ok(3) ex_pids
    by (simp_all add: ex_sjf_def sjf_ok_def sjf_inv_def sjf_jobs_def active_list_def sjf_quiet_def
        pids_ok_def prio_of_def ex_world_def ex_child_def ex_os_def)
  have "\<not> key_of ex_world 0 \<le> key_of ex_world 1"
    by (simp add: key_of_def ex_world_def ex_child_def ex_entry_def less_eq_job_key_def less_job_key_def)
  then show ?thesis
    using sjf_starts_shortest [OF ok(1-3)] ok(4) by (auto simp: ex_os_def)
qed


text \<open>
  The SJF scheduler does not preempt: while a job is active, neither arrivals nor context
  switches change the active job or any priority.
\<close>

theorem sjf_no_preemption:
  assumes "sjf_inv w s" "sjf_active s = At a" "pids_ok w (i # sjf_jobs s)"
    "length (heap_list (inactive_heap s)) < length (pq (inactive_heap s))"
  shows "\<exists>s'. add_process_SJF (At i) s w = Inr s' \<and> context_switch_SJF os s' w = Inr (s', w) \<and>
     sjf_active s' = At a \<and> mset (sjf_jobs s') = add_mset i (mset (sjf_jobs s))"
proof -
  obtain s' where "add_process_SJF (At i) s w = Inr s'" "sjf_active s' = At a"
    "mset (sjf_jobs s') = add_mset i (mset (sjf_jobs s))"
    using add_process_SJF_ok [OF assms(1,3,4)] assms(2) by metis
  then show ?thesis using context_switch_SJF_keeps [of s' os w] by simp
qed

theorem sjf_no_preemption_witness:
  "\<exists>s'. add_process_SJF (At 1) ex_sjf_busy ex_world = Inr s' \<and>
     context_switch_SJF ex_os s' ex_world = Inr (s', ex_world) \<and> sjf_active s' = At 2"
proof -
  have "sjf_inv ex_world ex_sjf_busy" "pids_ok ex_world (1 # sjf_jobs ex_sjf_busy)"
    "length (heap_list (inactive_heap ex_sjf_busy)) < length (pq (inactive_heap ex_sjf_busy))"
    using ex_heap0_inv ex_pids
    by (auto simp: ex_sjf_busy_def sjf_inv_def sjf_jobs_def active_list_def pids_ok_def)
      (simp_all add: ex_heap0_def)
  then show ?thesis
    using sjf_no_preemption [of ex_world ex_sjf_busy 2 1 ex_os] by (auto simp: ex_sjf_busy_def)
qed

text \<open>
  C25. The invariant in the comment of the PSJF scheduler: after a context switch the running job is
  the top of the heap. It is a job with the shortest remaining time, it alone has the running
  priority, and the time of the switch is recorded.
\<close>

theorem psjf_switch_correct:
  assumes "psjf_ok os s w" "psjf_quiet os s w" "psjf_jobs s \<noteq> []"
  shows "\<exists>s' w' a. context_switch_PSJF os s w = Inr (s', w') \<and> psjf_inv w' s' \<and>
     heap_top (psjf_pq s') = Inr (psjf_active s') \<and> psjf_active s' = At a \<and> psjf_pq s' = psjf_pq s \<and>
     (\<forall>j \<in> set (psjf_jobs s). key_of w a \<le> key_of w j \<and>
        prio_of w' j = Some (if j = a then run_prio os else low_prio os)) \<and>
     last_context_switch_time s' = current_time s"
proof -
  have ok: "psjf_inv w s" "sched_ok os" using assms(1) by (simp_all add: psjf_ok_def)
  obtain s' f where s': "context_switch_PSJF os s w = Inr (s', w\<lparr>prio := f\<rparr>)"
    "psjf_inv (w\<lparr>prio := f\<rparr>) s'" "psjf_synced s'" "psjf_quiet os s' (w\<lparr>prio := f\<rparr>)"
    "psjf_pq s' = psjf_pq s" "last_context_switch_time s' = current_time s"
    using context_switch_PSJF_ok [OF ok assms(2)] by metis
  have ne: "psjf_jobs s' \<noteq> []" using assms(3) s'(5) by simp
  then have a: "psjf_active s' = At (hd (psjf_jobs s'))" using s'(3) by (simp add: psjf_synced_def)
  have "key_of w (hd (psjf_jobs s')) \<le> key_of w j" if "j \<in> set (psjf_jobs s)" for j
    using psjf_synced_shortest [OF s'(2,3), of j] that s'(5) a by (auto simp: key_of_def)
  with s' a show ?thesis using psjf_top [OF s'(2) ne] by (auto simp: psjf_quiet_def)
qed

theorem psjf_switch_correct_witness:
  "\<exists>s' w'. context_switch_PSJF ex_os ex_psjf_idle ex_world = Inr (s', w') \<and> psjf_active s' = At 1 \<and>
     prio_of w' 1 = Some 98 \<and> prio_of w' 0 = Some 1"
proof -
  have ok: "psjf_ok ex_os ex_psjf_idle ex_world" "psjf_quiet ex_os ex_psjf_idle ex_world"
    "psjf_jobs ex_psjf_idle = [1, 0]"
    using ex_heap_inv ex_os_ok(3) ex_pids
    by (simp_all add: ex_psjf_idle_def ex_psjf_def psjf_ok_def psjf_inv_def psjf_quiet_def pids_ok_def prio_of_def
        ex_world_def ex_child_def ex_os_def)
  have "heap_top (psjf_pq ex_psjf_idle) = Inr (At 1)"
    by (simp add: ex_psjf_idle_def ex_psjf_def ex_heap_def heap_top_def aread_def)
  then show ?thesis
    using psjf_switch_correct [OF ok(1,2)] ok(3) by (auto simp: ex_os_def)
qed

text \<open>
  C26. An arrival under PSJF while a job is running deducts from that job exactly the time since the
  last context switch. As the comment says, the job need not be taken out of the heap for that: the
  heap order is kept, although the stored keys change under it.
\<close>

theorem psjf_arrival_deducts:
  assumes "psjf_inv w s" "psjf_can_add i s w"
  shows "\<exists>s' w'. add_process_PSJF (At i) s w = Inr (s', w') \<and> psjf_inv w' s' \<and>
     mset (psjf_jobs s') = add_mset i (mset (psjf_jobs s)) \<and> psjf_active s' = psjf_active s \<and>
     current_time s' = arrival_time (procs w ! i) \<and>
     remaining_time (procs w' ! hd (psjf_jobs s)) = remaining_time (procs w ! hd (psjf_jobs s)) -
       (arrival_time (procs w ! i) - last_context_switch_time s) \<and>
     (\<forall>j. j \<noteq> hd (psjf_jobs s) \<longrightarrow> procs w' ! j = procs w ! j)"
proof -
  have c: "psjf_synced s" "psjf_jobs s \<noteq> []" "pids_ok w (i # psjf_jobs s)"
    "length (psjf_jobs s) < length (pq (psjf_pq s))"
    "0 \<le> last_context_switch_time s" "last_context_switch_time s \<le> arrival_time (procs w ! i)"
    "in_int (arrival_time (procs w ! i))" "0 \<le> remaining_time (procs w ! hd (psjf_jobs s))"
    "in_int (remaining_time (procs w ! hd (psjf_jobs s)))"
    using assms(2) by (simp_all add: psjf_can_add_def)
  have "hd (psjf_jobs s) < length (procs w)" using c(2,3) by (simp add: pids_ok_def)
  then show ?thesis using add_process_PSJF_ok [OF assms(1) c] by fastforce
qed

theorem psjf_arrival_deducts_witness:
  "\<exists>s' w'. add_process_PSJF (At 2) ex_psjf ex_world = Inr (s', w') \<and> psjf_inv w' s' \<and>
     remaining_time (procs w' ! 1) = 1"
proof -
  have j: "psjf_jobs ex_psjf = [1, 0]" using ex_heap_inv(2) by (simp add: ex_psjf_def)
  have "psjf_inv ex_world ex_psjf"
    using ex_heap_inv ex_pids by (simp add: psjf_inv_def ex_psjf_def pids_ok_def)
  moreover have "psjf_can_add 2 ex_psjf ex_world"
    using j ex_pids by (simp add: psjf_can_add_def psjf_synced_def pids_ok_def)
      (simp add: ex_psjf_def ex_heap_def ex_world_def ex_child_def ex_entry_def in_int_def)
  ultimately have "\<exists>s' w'. add_process_PSJF (At 2) ex_psjf ex_world = Inr (s', w') \<and> psjf_inv w' s' \<and>
     remaining_time (procs w' ! 1) = remaining_time (procs ex_world ! 1) -
       (arrival_time (procs ex_world ! 2) - last_context_switch_time ex_psjf)"
    using psjf_arrival_deducts [of ex_world ex_psjf 2] j by auto
  then show ?thesis by (simp add: ex_world_def ex_child_def ex_entry_def ex_psjf_def)
qed


text \<open>
  The contract of the event loop for the SJF scheduler: any sequence of arrivals, terminations
  and context switches whose preconditions hold runs without error from the state after
  \<^verbatim>\<open>set_strategy_SJF\<close>, and afterwards the scheduler reports that it is empty exactly when as many
  jobs were removed as were added.
\<close>

theorem sjf_contract:
  assumes "sched_ok os" "0 \<le> n" "n \<le> 1073741824"
    "calls_ok (\<lambda>p s w. keep_world (add_process_SJF p s w) w) (\<lambda>s w. Inr (remove_current_process_SJF s, w))
       (context_switch_SJF os) sjf_can_add (\<lambda>s w. sjf_active s \<noteq> Null) (sjf_can_switch os)
       cs (set_strategy_SJF n SJF_static) w"
  shows "\<exists>s' w'. run_calls (\<lambda>p s w. keep_world (add_process_SJF p s w) w)
       (\<lambda>s w. Inr (remove_current_process_SJF s, w)) (context_switch_SJF os)
       cs (set_strategy_SJF n SJF_static) w = Inr (s', w') \<and> sjf_inv w' s' \<and>
     (scheduler_empty_SJF s' \<longleftrightarrow> adds cs = removes cs)"
proof -
  let ?s = "set_strategy_SJF n SJF_static"
  have "sjf_ok os ?s w" "scheduler_empty_SJF ?s"
    using assms(1) sjf_inv_init [OF assms(2,3), of w] scheduler_empty_SJF_iff [of w ?s]
    by (simp_all add: sjf_ok_def)
  from sjf.run_calls_empty [OF this assms(4)] show ?thesis by (auto simp: sjf_ok_def)
qed

theorem sjf_contract_witness:
  "\<exists>s' w'. run_calls (\<lambda>p s w. keep_world (add_process_SJF p s w) w)
     (\<lambda>s w. Inr (remove_current_process_SJF s, w)) (context_switch_SJF ex_os)
     [AddJob 0, AddJob 1, ContextSwitch, RemoveCurrent, ContextSwitch] (set_strategy_SJF 3 SJF_static)
     ex_world = Inr (s', w') \<and> \<not> scheduler_empty_SJF s'"
proof -
  have "calls_ok (\<lambda>p s w. keep_world (add_process_SJF p s w) w) (\<lambda>s w. Inr (remove_current_process_SJF s, w))
     (context_switch_SJF ex_os) sjf_can_add (\<lambda>s w. sjf_active s \<noteq> Null) (sjf_can_switch ex_os)
     [AddJob 0, AddJob 1, ContextSwitch, RemoveCurrent, ContextSwitch] (set_strategy_SJF 3 SJF_static) ex_world"
    by code_simp
  then show ?thesis using sjf_contract [of ex_os 3] ex_os_ok(3) by fastforce
qed

text \<open>
  The FIFO scheduler counts its jobs: any sequence of calls whose preconditions hold runs
  without error, and the scheduler is empty exactly when all added jobs have been removed.
\<close>

theorem fifo_contract:
  assumes "sched_ok os"
    "calls_ok (add_process_FIFO os) (\<lambda>s w. keep_world (remove_current_process_FIFO s) w)
       (\<lambda>s w. keep_state s (context_switch_FIFO s w))
       (\<lambda>i s w. i < length (procs w) \<and> 0 < pid (procs w ! i) \<and> in_int (s + 1)) (\<lambda>s w. 0 < s) (\<lambda>s w. True)
       cs (set_strategy_FIFO n FIFO_static) w"
  shows "\<exists>s' w'. run_calls (add_process_FIFO os) (\<lambda>s w. keep_world (remove_current_process_FIFO s) w)
       (\<lambda>s w. keep_state s (context_switch_FIFO s w)) cs (set_strategy_FIFO n FIFO_static) w = Inr (s', w') \<and>
     s' = int (adds cs) - int (removes cs) \<and> (scheduler_empty_FIFO s' \<longleftrightarrow> adds cs = removes cs)"
proof -
  have "sched_ok os \<and> fifo_inv (set_strategy_FIFO n FIFO_static)"
    using assms(1) by (simp add: set_strategy_FIFO_def FIFO_static_def fifo_inv_def in_int_def)
  from fifo.run_calls_ok [OF this assms(2)] show ?thesis
    by (auto simp: set_strategy_FIFO_def FIFO_static_def fifo_inv_def scheduler_empty_FIFO_def)
qed

theorem fifo_contract_witness:
  "\<exists>s' w'. run_calls (add_process_FIFO ex_os) (\<lambda>s w. keep_world (remove_current_process_FIFO s) w)
     (\<lambda>s w. keep_state s (context_switch_FIFO s w)) [AddJob 0, AddJob 1, ContextSwitch, RemoveCurrent]
     (set_strategy_FIFO 3 FIFO_static) ex_world = Inr (s', w') \<and> s' = 1"
proof -
  have "calls_ok (add_process_FIFO ex_os) (\<lambda>s w. keep_world (remove_current_process_FIFO s) w)
     (\<lambda>s w. keep_state s (context_switch_FIFO s w))
     (\<lambda>i s w. i < length (procs w) \<and> 0 < pid (procs w ! i) \<and> in_int (s + 1)) (\<lambda>s w. 0 < s) (\<lambda>s w. True)
     [AddJob 0, AddJob 1, ContextSwitch, RemoveCurrent] (set_strategy_FIFO 3 FIFO_static) ex_world"
    by code_simp
  from fifo_contract [OF ex_os_ok(3) this] show ?thesis by auto
qed


section \<open>Time\<close>

text \<open>
  C27. One timer for two, exactly: when an alarm of the round-robin policy is handled and processes
  are still to arrive, both remaining times go down by exactly the time the timer was set to, which
  is the smaller of the two, and neither becomes negative.
\<close>

theorem one_timer_for_two:
  assumes "timer_inv g" "current_strategy g = RR" "\<not> arrival_queue_empty g"
  shows "\<exists>ti v. subtract_time_passed g = Inr (g\<lparr>timer_info := ti\<rparr>) \<and> timer_value g = Inr v \<and>
     nanos v = min (nanos (arrival_remaining (timer_info g))) (nanos (timeslice_remaining (timer_info g))) \<and>
     nanos (arrival_remaining ti) = nanos (arrival_remaining (timer_info g)) - nanos v \<and>
     nanos (timeslice_remaining ti) = nanos (timeslice_remaining (timer_info g)) - nanos v \<and>
     timer_inv (g\<lparr>timer_info := ti\<rparr>)"
proof -
  obtain ti v where ti: "subtract_time_passed g = Inr (g\<lparr>timer_info := ti\<rparr>)" "timer_value g = Inr v"
    "time_unit ti = time_unit (timer_info g)" "duration (arrival_remaining ti)"
    "duration (timeslice_remaining ti)"
    "nanos (arrival_remaining ti) = nanos (arrival_remaining (timer_info g)) - nanos v"
    "nanos (timeslice_remaining ti) = nanos (timeslice_remaining (timer_info g)) - nanos v"
    using subtract_time_passed_RR [OF assms] .
  moreover have "timer_inv (g\<lparr>timer_info := ti\<rparr>)" using ti(3-5) assms(1) by (simp add: timer_inv_def)
  ultimately show ?thesis using timer_value_RR [OF assms] by auto
qed

theorem one_timer_for_two_witness:
  "\<exists>ti v. subtract_time_passed ex_g0 = Inr (ex_g0\<lparr>timer_info := ti\<rparr>) \<and> timer_value ex_g0 = Inr v \<and>
     nanos (timeslice_remaining ti) = 850000000 - nanos v"
proof -
  have "rr_base ex_os ex_g0"
    using rr_initD(1) [OF ex_os_ok(1,2) ex_table_ok ex_clock_ok ex_turns(1)] by (simp add: rr_sys_inv_def)
  moreover have "\<not> arrival_queue_empty ex_g0"
    using rr_initD [OF ex_os_ok(1,2) ex_table_ok ex_clock_ok ex_turns(1)] calculation
    by (auto simp: arrival_queue_empty_def rr_base_def table_inv_def Let_def ex_table_def)
  ultimately show ?thesis
    using one_timer_for_two [of ex_g0] rr_baseD(2,4) ex_states(1) unfolding at_g0_def by fastforce
qed

text \<open>
  C28. Multiplying a duration by any \<^verbatim>\<open>int\<close>, negative ones included, is exact whenever the seconds of the
  product fit in their 64 bits, and a signed overflow otherwise. In the first case the result has
  exactly the nanoseconds of the product, with less than a second of them in their field and the
  sign of the factor in both fields. The product of the nanoseconds alone never overflows.
\<close>

theorem timespec_multiply_exact:
  assumes "duration ts" "in_int n"
  shows "if in_long (nanos ts * n sdiv 1000000000)
     then \<exists>r. timespec_multiply ts n = Inr r \<and> nanos r = nanos ts * n \<and> \<bar>tv_nsec r\<bar> < 1000000000 \<and>
       (if 0 \<le> n then 0 \<le> tv_sec r \<and> 0 \<le> tv_nsec r else tv_sec r \<le> 0 \<and> tv_nsec r \<le> 0)
     else timespec_multiply ts n = Inl SignedOverflow"
  using timespec_multiply_any [OF assms] unfolding BILLION_def .

theorem timespec_multiply_exact_witness:
  "(\<exists>r. timespec_multiply ex_t1 (-3) = Inr r \<and> nanos r = - 5100000000 \<and> tv_sec r \<le> 0) \<and>
   (\<exists>r. timespec_multiply \<lparr>tv_sec = 9223372036854775807, tv_nsec = 0\<rparr> 1 = Inr r \<and>
      nanos r = 9223372036854775807000000000) \<and>
   timespec_multiply \<lparr>tv_sec = 9223372036854775807, tv_nsec = 0\<rparr> 2 = Inl SignedOverflow"
  using timespec_multiply_exact [of ex_t1 "-3"]
    timespec_multiply_exact [of "\<lparr>tv_sec = 9223372036854775807, tv_nsec = 0\<rparr>" 1]
    timespec_multiply_exact [of "\<lparr>tv_sec = 9223372036854775807, tv_nsec = 0\<rparr>" 2]
  by (auto simp: ex_t1_def duration_def normal_def BILLION_def in_int_def in_long_def nanos_def signed_divide_int_def)

text \<open>
  The difference of two durations never overflows and is exact and normalised even when it is
  negative, and \<^verbatim>\<open>min_timespecp\<close> points to the smaller of its arguments, to the second one in case
  of a tie.
\<close>

theorem timespec_subtract_min:
  assumes "duration a" "duration b"
  shows "\<exists>r. timespec_subtract a b = Inr r \<and> normal r \<and> nanos r = nanos a - nanos b \<and>
     min_timespecp a b = Inr (if nanos a < nanos b then Lhs else Rhs)"
  using timespec_subtract_duration [OF assms] min_timespecp_duration [OF assms] by metis

theorem timespec_subtract_min_witness:
  "\<exists>r. timespec_subtract ts_zero ex_t1 = Inr r \<and> normal r \<and> nanos r = - 1700000000 \<and>
     min_timespecp ts_zero ex_t1 = Inr Lhs"
proof -
  have "duration ex_t1" by (simp add: ex_t1_def duration_def normal_def BILLION_def in_long_def)
  moreover have "nanos ex_t1 = 1700000000" by (simp add: ex_t1_def nanos_def BILLION_def)
  ultimately show ?thesis using timespec_subtract_min [of ts_zero ex_t1] by simp
qed

text \<open>
  The measured time unit is a thousandth of the time between the two clock readings, rounded
  down, and every product of it with an \<^verbatim>\<open>int\<close> that the program forms is representable.
\<close>

theorem measure_time_unit_exact:
  assumes "clock_ok t0 t1" "0 \<le> n" "in_int n"
  shows "\<exists>u r. measure_time_unit t0 t1 = Inr u \<and> nanos u = (nanos t1 - nanos t0) div 1000 \<and>
     timespec_multiply u n = Inr r \<and> nanos r = nanos u * n"
proof -
  obtain u where u: "measure_time_unit t0 t1 = Inr u" "unit_ok u"
    "nanos u = (nanos t1 - nanos t0) div UNIT_MEASURE_REPEAT"
    using measure_time_unit_ok [of t0 t1] assms(1) by (auto simp: clock_ok_def)
  with unit_multiply [OF u(2) assms(2,3)] show ?thesis by (metis UNIT_MEASURE_REPEAT_def)
qed

theorem measure_time_unit_exact_witness:
  "\<exists>u r. measure_time_unit ts_zero ex_t1 = Inr u \<and> nanos u = 1700000 \<and>
     timespec_multiply u 500 = Inr r \<and> nanos r = 850000000"
  using measure_time_unit_exact [OF ex_clock_ok, of 500]
  by (auto simp: in_int_def ex_t1_def nanos_def BILLION_def)

section \<open>Input, process table and children\<close>

text \<open>
  C29. Reading back a printed input gives the strategy and the table: for every strategy and every
  table of well-formed entries, the first word is recognised as the strategy and
  \<^verbatim>\<open>read_process_info\<close> returns the number of processes and the entries, every field included.
\<close>

theorem input_round_trip:
  assumes "list_all wf_entry ps" "ps \<noteq> []" "in_int (int (length ps))"
  shows "\<exists>word rest. scan_name (show_input s ps) = Inr (word, rest) \<and> str_to_strategy word = Inr s \<and>
     read_process_info rest = Inr (int (length ps), ps, newline)"
  using scan_name_strategy [of s "show_table ps"]
    read_process_info_show [OF assms, of newline] isspace_newline(1)
  by (simp add: show_input_def)

theorem input_round_trip_witness:
  "\<exists>word rest. scan_name (show_input SJF ex_table) = Inr (word, rest) \<and> str_to_strategy word = Inr SJF \<and>
     read_process_info rest = Inr (2, ex_table, newline)"
  using input_round_trip [of ex_table SJF] ex_table_ok by (simp add: wf_table_def) (simp add: ex_table_def)

text \<open>
  Under every strategy, and whatever happens, the name, the arrival time and the execution time
  of every process remain those of the input.
\<close>

theorem table_never_changes:
  assumes "reachable os g0 g"
  shows "map (\<lambda>p. (name p, arrival_time p, time_needed p)) (procs (world_of g)) =
     map (\<lambda>p. (name p, arrival_time p, time_needed p)) (procs (world_of g0))"
  using reachable_table [OF assms] by (simp add: table_data_def)

theorem table_never_changes_witness:
  "map (\<lambda>p. (name p, arrival_time p, time_needed p)) (procs (world_of ex_g3)) =
   map (\<lambda>p. (name p, arrival_time p, time_needed p)) (procs (world_of ex_g0))"
  by (rule table_never_changes [OF ex_reachable(2)])

text \<open>
  Simultaneous arrivals under round robin: the loop that adds them terminates without error,
  appends exactly the processes from \<^verbatim>\<open>arrival_ptr\<close> on whose arrival is due at the same time, in
  order, and stops at the first one that is due later, with the time until then.
\<close>

theorem simultaneous_arrivals:
  assumes "rr_base os g" "quiet os g"
  shows "\<exists>t g'. add_simultaneous os 0 g = Inr (t, g') \<and> rr_base os g' \<and>
     queue_of g' = queue_of g @ [arrival_ptr g..<arrival_ptr g'] \<and>
     (arrival_queue_empty g' \<or> timeunits_until_next_arrival g' = Inr t \<and> 0 < t)"
  using rr_arrivals.add_simultaneous_ok [of os g 0] assms by (auto simp: in_int_def fold_snoc)

theorem simultaneous_arrivals_witness:
  "\<exists>t g'. add_simultaneous ex_os 0 ex_g0 = Inr (t, g') \<and>
     queue_of g' = queue_of ex_g0 @ [arrival_ptr ex_g0..<arrival_ptr g']"
proof -
  have "rr_base ex_os ex_g0" "quiet ex_os ex_g0"
    using rr_initD(1) [OF ex_os_ok(1,2) ex_table_ok ex_clock_ok ex_turns(1)] by (simp_all add: rr_sys_inv_def)
  from simultaneous_arrivals [OF this] show ?thesis by blast
qed

text \<open>
  C30. A child that runs undisturbed executes its time in iterations of the empty loop, a million
  for each time unit, and leaves exactly one line in the kernel log, with its pid, the clock at its
  start and the clock at its end.
\<close>

theorem child_runs_and_logs:
  assumes "sched_ok os" "0 < self" "in_int n" "user_mem k addr \<noteq> None"
  shows "\<exists>w' k'. child_process os self n addr t0 t1 w k = Inr (nat n * 1000000, w', k') \<and>
     prio w' self = Some (run_prio os) \<and> klog k' = klog k @ [log_line self t0 t1]"
  using child_process_ok [OF assms, of t0 t1 w] by simp

theorem child_runs_and_logs_witness:
  "\<exists>w' k'. child_process ex_os 7 3 8 ts_zero ex_t2 ex_world \<lparr>user_mem = [8 \<mapsto> ts_zero], klog = []\<rparr> =
     Inr (3000000, w', k') \<and> klog k' = [''[Project1] 7 0.0 1.25'']"
proof -
  let ?k = "\<lparr>user_mem = [8 \<mapsto> ts_zero], klog = []\<rparr>"
  have line: "log_line 7 ts_zero ex_t2 = ''[Project1] 7 0.0 1.25''" by code_simp
  have "in_int 3" "user_mem ?k 8 \<noteq> None" by (simp_all add: in_int_def)
  from child_runs_and_logs [OF ex_os_ok(3) _ this, of 7 ts_zero ex_t2 ex_world]
  obtain w' k' where "child_process ex_os 7 3 8 ts_zero ex_t2 ex_world ?k = Inr (nat 3 * 1000000, w', k')"
    "klog k' = klog ?k @ [log_line 7 ts_zero ex_t2]" by auto
  then show ?thesis by (simp only: line) simp
qed

text \<open>
  C31. The script \<^verbatim>\<open>time_calc.py\<close> reads the kernel log as it is meant: from the lines of the system
  calls, with anything before them that does not contain the word \<^verbatim>\<open>[Project1]\<close>, it computes for each
  child its pid and the exact time between its start and its end, without an exception.
\<close>

theorem time_calc_reads_log:
  assumes "\<forall>(pre, p, start, stop) \<in> set recs. ''[Project1]'' \<notin> set (py_split pre)"
  shows "time_calc (map (\<lambda>(pre, p, start, stop).
       pre @ '' '' @ last (klog (print_process_info p start stop k))) recs) =
     (map (\<lambda>(pre, p, start, stop). (show_int p, \<lparr>nsec = nanos stop - nanos start\<rparr>)) recs, None)"
  using time_calc_log [OF assms] by (simp add: print_process_info_eq)

theorem time_calc_reads_log_witness:
  "time_calc [''[ 12.5] [Project1] 7 0.0 1.25''] = ([(''7'', \<lparr>nsec = 1000000025\<rparr>)], None)"
proof -
  have "last (klog (print_process_info 7 ts_zero ex_t2 \<lparr>user_mem = Map.empty, klog = []\<rparr>)) =
      ''[Project1] 7 0.0 1.25''" "show_int 7 = ''7''" "''[Project1]'' \<notin> set (py_split ''[ 12.5]'')"
    by code_simp+
  then show ?thesis
    using time_calc_reads_log [of "[(''[ 12.5]'', 7, ts_zero, ex_t2)]" "\<lparr>user_mem = Map.empty, klog = []\<rparr>"]
    by (simp add: ex_t2_def nanos_def BILLION_def)
qed

text \<open>
  C32. The two variants of the system call that records the start agree exactly on mapped addresses;
  the safe variant of the one that logs the end writes the contents of an unassigned variable where
  the other one writes the clock, so it agrees only if that prints the same.
\<close>

theorem safe_variants:
  assumes "copy_ok api"
  shows "(start_process_unsafe a now k = Inr (start_process_safe api a now k) \<longleftrightarrow> user_mem k a \<noteq> None) \<and>
     (user_mem k a \<noteq> None \<longrightarrow>
       (stop_process_unsafe p a now k = Inr (stop_process_safe api stop_time p a now k) \<longleftrightarrow>
        show_timespec stop_time = show_timespec now))"
proof (cases "user_mem k a")
  case None
  then show ?thesis using start_process_safe_eq [OF assms] by simp
next
  case (Some start)
  then show ?thesis
    using start_process_safe_eq [OF assms] stop_process_safe_log [OF assms Some]
    by (auto simp: log_line_def kernel_state_klog_eq)
qed


theorem safe_variants_witness:
  "\<exists>k :: kernel_state. stop_process_unsafe 7 8 ex_t2 k \<noteq> Inr (stop_process_safe ex_api ts_zero 7 8 ex_t2 k) \<and>
     start_process_unsafe 8 ex_t2 k = Inr (start_process_safe ex_api 8 ex_t2 k)"
proof -
  let ?k = "\<lparr>user_mem = [8 \<mapsto> ex_t2], klog = []\<rparr>"
  have "show_timespec ts_zero \<noteq> show_timespec ex_t2" by code_simp
  then show ?thesis
    using safe_variants [OF ex_api_ok, of 8 ex_t2 ?k 7 ts_zero] by (intro exI [of _ ?k]) simp
qed


section \<open>Where the program fails\<close>

text \<open>
  C33. Under PSJF no input works: whatever the kernel answers and whatever is read, the first alarm
  after the initialisation ends in an error, because \<^verbatim>\<open>add_process_PSJF\<close> dereferences the pointer to
  the running process when there is none.
\<close>

theorem psjf_first_arrival_fails:
  assumes "main_init os input t0 t1 junk = Inr g" "current_strategy g = PSJF"
  shows "\<exists>e. loop_iteration os [SIGALRM] g = Inl e"
  using loop_iteration_PSJF_idle [OF assms(2)] main_init_psjf_idle [OF assms(1)] by blast

theorem psjf_first_arrival_fails_witness:
  "\<exists>g e. main_init ex_os (show_input PSJF ex_table) ts_zero ex_t1 ex_junk = Inr g \<and>
     loop_iteration ex_os [SIGALRM] g = Inl e"
proof -
  have "yields (main_init ex_os (show_input PSJF ex_table) ts_zero ex_t1 ex_junk)
      (\<lambda>g. current_strategy g = PSJF)" by code_simp
  from yieldsD [OF this] psjf_first_arrival_fails show ?thesis by metis
qed

text \<open>
  C34. Two simultaneous arrivals under PSJF, when both calls succeed, deduct the time since the last
  context switch from the running job twice.
\<close>

theorem psjf_deducts_twice:
  assumes "add_process_PSJF (At i) s w = Inr (s1, w1)" "add_process_PSJF (At j) s1 w1 = Inr (s2, w2)"
    "psjf_active s = At a" "arrival_time (procs w ! i) = t" "arrival_time (procs w ! j) = t"
  shows "remaining_time (procs w2 ! a) =
     remaining_time (procs w ! a) - 2 * (t - last_context_switch_time s)"
  using assms by (rule add_process_PSJF_twice)

theorem psjf_deducts_twice_witness:
  "\<exists>s1 w1 s2 w2. add_process_PSJF (At 1) ex_psjf1 ex_world2 = Inr (s1, w1) \<and>
     add_process_PSJF (At 2) s1 w1 = Inr (s2, w2) \<and> remaining_time (procs ex_world2 ! 0) = 9 \<and>
     arrival_time (procs ex_world2 ! 1) = 4 \<and> last_context_switch_time ex_psjf1 = 0 \<and>
     remaining_time (procs w2 ! 0) = 1"
proof -
  have "yields (add_process_PSJF (At 1) ex_psjf1 ex_world2) (\<lambda>(s1, w1).
      yields (add_process_PSJF (At 2) s1 w1) (\<lambda>(s2, w2). True))" by code_simp
  then obtain s1 w1 s2 w2 where a: "add_process_PSJF (At 1) ex_psjf1 ex_world2 = Inr (s1, w1)"
    "add_process_PSJF (At 2) s1 w1 = Inr (s2, w2)" by (auto simp: yields_iff)
  have "psjf_active ex_psjf1 = At 0" "arrival_time (procs ex_world2 ! 1) = 4"
    "arrival_time (procs ex_world2 ! 2) = 4" "remaining_time (procs ex_world2 ! 0) = 9"
    "last_context_switch_time ex_psjf1 = 0"
    by (simp_all add: ex_psjf1_def ex_world2_def ex_child_def ex_entry_def)
  with psjf_deducts_twice [OF a] a show ?thesis by auto
qed

text \<open>
  C35. If the first of two simultaneous arrivals is shorter than what is left of the running job, it
  becomes the top of the heap before the context switch, and the assertion in the second call of
  \<^verbatim>\<open>add_process_PSJF\<close> fails.
\<close>

theorem psjf_second_arrival_asserts:
  assumes "psjf_inv w s" "psjf_can_add i s w" "add_process_PSJF (At i) s w = Inr (s1, w1)"
    "psjf_active s = At a" "key_of w1 i < key_of w1 a"
  shows "add_process_PSJF (At j) s1 w1 = Inl AssertFail"
proof -
  have "psjf_inv w1 s1" "psjf_active s1 = At a" "mset (psjf_jobs s1) = add_mset i (mset (psjf_jobs s))"
    using psjf_add_ok [OF assms(1,2)] assms(3,4) by auto
  moreover from this(3) have "i \<in> set (psjf_jobs s1)" by (metis set_mset_mset union_single_eq_member)
  ultimately show ?thesis using add_process_PSJF_after_shorter assms(5) by blast
qed

theorem psjf_second_arrival_asserts_witness:
  "\<exists>s1 w1. add_process_PSJF (At 1) ex_psjf1 ex_world3 = Inr (s1, w1) \<and>
     add_process_PSJF (At 2) s1 w1 = Inl AssertFail"
proof -
  have "yields (add_process_PSJF (At 1) ex_psjf1 ex_world3) (\<lambda>(s1, w1). key_of w1 1 < key_of w1 0)"
    by code_simp
  then obtain s1 w1 where a: "add_process_PSJF (At 1) ex_psjf1 ex_world3 = Inr (s1, w1)"
    "key_of w1 1 < key_of w1 0" by (auto simp: yields_iff)
  have "psjf_inv ex_world3 ex_psjf1" "psjf_can_add 1 ex_psjf1 ex_world3" "psjf_active ex_psjf1 = At 0"
    using ex_psjf1_ok by (simp_all add: ex_psjf1_def)
  from psjf_second_arrival_asserts [OF this(1,2) a(1) this(3) a(2), of 2] a(1) show ?thesis by blast
qed

text \<open>
  C36. Two signals at once lose an event: if the running child has terminated and the timer has
  expired before the loop wakes up, and the handler of the alarm runs last, the turn succeeds, but
  the terminated job stays in the run queue and its child is not reaped.
\<close>

theorem termination_lost:
  assumes "rr_base os g" "quiet os g" "pending g = {SIGCHLD, SIGALRM}"
  shows "\<exists>b g'. loop_iteration os [SIGCHLD, SIGALRM] g = Inr (b, g') \<and> pending g' = {} \<and>
     set (queue_of g) \<subseteq> set (queue_of g') \<and> zombies (world_of g') = zombies (world_of g)"
  using rr_lost_termination [OF assms(1,2)] by metis

theorem termination_lost_witness:
  "\<exists>b g'. loop_iteration ex_os [SIGCHLD, SIGALRM] (alarm_of (exit_of 0 ex_g1)) = Inr (b, g') \<and>
     0 \<in> set (queue_of g') \<and> prio_of (world_of (exit_of 0 ex_g1)) 0 = None"
proof -
  let ?g = "exit_of 0 ex_g1"
  have "rr_sys_inv ex_os ex_g1"
    using rr_reachable_inv [OF ex_reachable(1) rr_initD(1) [OF ex_os_ok(1,2) ex_table_ok ex_clock_ok ex_turns(1)]] .
  from rr_child_terminates [OF this ex_pending(2) ex_runs(1)]
  have "rr_base ex_os (alarm_of ?g)" "quiet ex_os (alarm_of ?g)"
    by (simp_all add: rr_sys_inv_def exit_of_def alarm_of_def)
  moreover have "pending (alarm_of ?g) = {SIGCHLD, SIGALRM}" "queue_of (alarm_of ?g) = [0, 1]"
    using ex_states(2) by (auto simp: alarm_of_def exit_of_def pending_def at_g1_def)
  ultimately show ?thesis using termination_lost [of ex_os "alarm_of ?g"] by (auto simp: exit_of_def)
qed

text \<open>
  C37. Inputs are not sorted. If some process is due before the one above it in the input, then under FIFO, SJF
  and PSJF the program never gets past the first of the two and never ends normally: in every
  reachable state that process has still not arrived, and no wake-up leaves the loop. (The time until the next
  arrival is negative there, and setting the timer to it ends the program.)
\<close>

theorem unsorted_input_never_ends:
  assumes "timer_rejects os" "main_init os input t0 t1 junk = Inr g0" "current_strategy g0 \<noteq> RR"
    "0 < nanos (time_unit (timer_info g0))" "Suc k < length (procs (world_of g0))"
    "arrival_time (procs (world_of g0) ! Suc k) < arrival_time (procs (world_of g0) ! k)" "reachable os g0 g"
  shows "arrival_ptr g \<le> k \<and> (\<forall>sig g'. pending g = {sig} \<longrightarrow> loop_iteration os [sig] g \<noteq> Inr (True, g'))"
proof -
  have n: "arrival_ptr g0 \<le> k" "num_process g0 = int (length (procs (world_of g0)))"
    "arrival_times g0 ! Suc k < arrival_times g0 ! k"
    using main_init_size [OF assms(2)] assms(5,6) by simp_all
  have g: "arrival_ptr g \<le> k" "same_setting g0 g"
    using reachable_unsorted [OF assms(7,1,3,4) n(2,1) assms(5) n(3)] by simp_all
  moreover have "loop_iteration os [sig] g \<noteq> Inr (True, g')" if "pending g = {sig}" for sig g'
  proof -
    have l: "length (procs (world_of g)) = length (procs (world_of g0))"
      using g(2) by (auto simp: same_setting_def dest: map_eq_imp_length_eq)
    have "arrival_times g ! Suc k < arrival_times g ! k" using n(3) g(2) by (simp only: same_setting_def)
    from loop_iteration_unsorted [OF assms(1) _ _ _ g(1) _ this that, of True g'] show ?thesis
      using assms(3-5) n(2) g(2) l by (auto simp: same_setting_def)
  qed
  ultimately show ?thesis by blast
qed

theorem unsorted_input_never_ends_witness:
  "\<exists>g0 g. main_init strict_os (show_input FIFO ex_late) ts_zero ex_t1 ex_junk = Inr g0 \<and> reachable strict_os g0 g \<and>
     arrival_ptr g = 0 \<and> loop_iteration strict_os [SIGALRM] g = Inl (Exit (- 1))"
proof -
  obtain g0 where g0: "main_init strict_os (show_input FIFO ex_late) ts_zero ex_t1 ex_junk = Inr g0"
    "ready g0" "current_strategy g0 = FIFO" "map arrival_time (procs (world_of g0)) = [5, 3]"
    "nanos (time_unit (timer_info g0)) = 1700000" "\<not> timspec_is_zero (it_value g0)"
    "case loop_iteration strict_os [SIGALRM] (fired g0) of Inl e \<Rightarrow> e = Exit (- 1) | Inr p \<Rightarrow> False"
    using ex_late_run by (auto simp: yields_iff)
  have r: "reachable strict_os g0 (fired g0)"
    using reach_step [OF reach_start timer_fires] g0(2,6) by (simp add: fired_def ready_def)
  have "arrival_ptr (fired g0) \<le> 0"
    using unsorted_input_never_ends [OF strict_os_ok g0(1) _ _ _ _ r, of 0] g0(3-5) by auto
  with g0(1,7) r show ?thesis by (auto split: sum.splits)
qed

text \<open>
  C38. When the kernel refuses, the program ends in \<^verbatim>\<open>scheduler_exit\<close> with the answer of the kernel: if it may not
  raise its own priority, on any input; if there is no timer; and if \<^verbatim>\<open>fork\<close> does not give a process whose
  priority can be changed (a failed \<^verbatim>\<open>fork\<close> is not tested; the call after it fails), when the alarm for an
  arrival is handled, under every strategy but RR.
\<close>

theorem kernel_errors_exit:
  "(sched_setscheduler os (getpid os) (sched_get_priority_max os) = r \<and> r \<noteq> 0 \<longrightarrow>
      main_init os input t0 t1 junk = Inl (Exit r)) \<and>
   (sched_ok os \<and> 0 < getpid os \<and> wf_table ps \<and> clock_ok t0 t1 \<and> timer_create os = -1 \<longrightarrow>
      main_init os (show_input st ps) t0 t1 junk = Inl (Exit (-1))) \<and>
   (current_strategy g \<noteq> RR \<and> arrival_ptr g < length (procs (world_of g)) \<and>
      sched_setscheduler os (fork os (forks (world_of g))) (low_prio os) = r \<and> r \<noteq> 0 \<longrightarrow>
      loop_iteration os [SIGALRM] g = Inl (Exit r))"
  using main_init_unprivileged [of os r input t0 t1 junk] main_init_no_timer [of os ps t0 t1 st junk]
    arrival_refused [of g os r] by simp

theorem kernel_errors_exit_witness:
  "main_init (ex_os\<lparr>sched_setscheduler := (\<lambda>p q. -1)\<rparr>) ''RR'' ts_zero ex_t1 ex_junk = Inl (Exit (-1)) \<and>
   main_init (ex_os\<lparr>timer_create := -1\<rparr>) (show_input RR ex_table) ts_zero ex_t1 ex_junk = Inl (Exit (-1)) \<and>
   (\<exists>g. main_init no_fork_os (show_input FIFO ex_table) ts_zero ex_t1 ex_junk = Inr g \<and>
      loop_iteration no_fork_os [SIGALRM] g = Inl (Exit (-1)))"
proof (intro conjI)
  show "main_init (ex_os\<lparr>sched_setscheduler := (\<lambda>p q. -1)\<rparr>) ''RR'' ts_zero ex_t1 ex_junk = Inl (Exit (-1))"
    using kernel_errors_exit [of "ex_os\<lparr>sched_setscheduler := (\<lambda>p q. -1)\<rparr>" "-1" "''RR''"] by simp
  show "main_init (ex_os\<lparr>timer_create := -1\<rparr>) (show_input RR ex_table) ts_zero ex_t1 ex_junk = Inl (Exit (-1))"
    using kernel_errors_exit [of "ex_os\<lparr>timer_create := -1\<rparr>" 0 "''RR''" ts_zero ex_t1 ex_junk ex_table RR]
      ex_os_ok(2,3) ex_table_ok ex_clock_ok by (simp add: sched_ok_def)
  obtain g where g: "main_init no_fork_os (show_input FIFO ex_table) ts_zero ex_t1 ex_junk = Inr g"
    "current_strategy g = FIFO" "arrival_ptr g < length (procs (world_of g))"
    using no_fork_run by (auto simp: yields_iff)
  moreover have "loop_iteration no_fork_os [SIGALRM] g = Inl (Exit (-1))"
    using kernel_errors_exit [of no_fork_os "-1" "''RR''" ts_zero ex_t1 ex_junk ex_table RR g] g by (simp add: no_fork_os_def)
  ultimately show "\<exists>g. main_init no_fork_os (show_input FIFO ex_table) ts_zero ex_t1 ex_junk = Inr g \<and>
      loop_iteration no_fork_os [SIGALRM] g = Inl (Exit (-1))" by blast
qed

text \<open>
  C39. Inputs that end in a failed assertion: a first word that is none of the four names, and a
  number of processes that is zero or missing.
\<close>

theorem bad_input_asserts:
  assumes "sched_ok os" "0 < getpid os" "timer_ok os" "clock_ok t0 t1" "scan_name input = Inr (word, rest)"
    "word \<notin> {''RR'', ''FIFO'', ''SJF'', ''PSJF''} \<or>
     scanf_d rest = None \<or> (\<exists>rest'. scanf_d rest = Some (0, rest'))"
  shows "main_init os input t0 t1 junk = Inl AssertFail"
  using assms by (rule main_init_asserts)

theorem bad_input_asserts_witness:
  "main_init ex_os ''SRTF 0'' ts_zero ex_t1 ex_junk = Inl AssertFail \<and>
   main_init ex_os ''RR 0'' ts_zero ex_t1 ex_junk = Inl AssertFail"
proof -
  have "scan_name ''SRTF 0'' = Inr (''SRTF'', '' 0'')" by code_simp
  moreover have "scan_name ''RR 0'' = Inr (''RR'', '' 0'')" by code_simp
  moreover have "scanf_d '' 0'' = Some (0, [])" by code_simp
  ultimately show ?thesis
    using bad_input_asserts [OF ex_os_ok(3,2,4) ex_clock_ok, of "''SRTF 0''" "''SRTF''" "'' 0''"]
      bad_input_asserts [OF ex_os_ok(3,2,4) ex_clock_ok, of "''RR 0''" "''RR''" "'' 0''"] by auto
qed

section \<open>Fairness of the round-robin policy\<close>



end
